(* ===== verification/Prelude.thy ===== *)
theory Prelude
  imports Main "HOL-Library.Word"
begin

text \<open>
  Shared vocabulary and automation of the development.

  \<^item> Names for the machine integers of Go: \<open>u64\<close>, \<open>u32\<close> and \<open>u8\<close> are the unsigned types,
    \<open>go_int\<close> is Go's \<open>int\<close> on the 64-bit targets the repository builds for (a 64-bit word that
    is read with \<^const>\<open>sint\<close> and compared with the signed comparison).
  \<^item> \<open>argmin_ok\<close> is the specification that the selection loops of the balancer share: the
    first element, among those that pass a filter, with the least key.  \<open>argmin_ok_snoc\<close> is
    the step every such loop makes and \<open>argmin_ok_unique\<close> says the specification determines
    the result.
  \<^item> \<open>iterate_pick\<close> runs a selection operation several times and collects what it chose.
  \<^item> Collections: \<open>frame\<close> holds the facts of the form ``this operation does not change that
    field'', \<open>branches\<close> the definitional unfoldings of the small guards.
\<close>

named_theorems frame \<open>what an operation leaves unchanged\<close>
named_theorems branches \<open>unfolding of guards\<close>

type_synonym u64 = "64 word"
type_synonym u32 = "32 word"
type_synonym u8 = "8 word"
type_synonym go_int = "64 word"

subsection \<open>First least element of a list\<close>

definition argmin_ok :: "('a \<Rightarrow> bool) \<Rightarrow> ('a \<Rightarrow> 'b::linorder) \<Rightarrow> 'a list \<Rightarrow> nat option \<Rightarrow> bool" where
  "argmin_ok P f xs r \<longleftrightarrow>
     (case r of
        None \<Rightarrow> (\<forall>x\<in>set xs. \<not> P x)
      | Some i \<Rightarrow> i < length xs \<and> P (xs ! i)
          \<and> (\<forall>j<length xs. P (xs ! j) \<longrightarrow> f (xs ! i) \<le> f (xs ! j))
          \<and> (\<forall>j<i. P (xs ! j) \<longrightarrow> f (xs ! i) < f (xs ! j)))"

lemma argmin_ok_Nil [simp]: "argmin_ok P f [] None"
  by (simp add: argmin_ok_def)

lemma argmin_ok_None: "argmin_ok P f xs None \<longleftrightarrow> (\<forall>x\<in>set xs. \<not> P x)"
  by (simp add: argmin_ok_def)

lemma argmin_ok_SomeD:
  assumes "argmin_ok P f xs (Some i)"
  shows "i < length xs" and "P (xs ! i)"
    and "\<And>j. j < length xs \<Longrightarrow> P (xs ! j) \<Longrightarrow> f (xs ! i) \<le> f (xs ! j)"
    and "\<And>j. j < i \<Longrightarrow> P (xs ! j) \<Longrightarrow> f (xs ! i) < f (xs ! j)"
  using assms by (auto simp: argmin_ok_def)

lemma argmin_ok_SomeI:
  assumes "i < length xs" and "P (xs ! i)"
    and "\<And>j. j < length xs \<Longrightarrow> P (xs ! j) \<Longrightarrow> f (xs ! i) \<le> f (xs ! j)"
    and "\<And>j. j < i \<Longrightarrow> P (xs ! j) \<Longrightarrow> f (xs ! i) < f (xs ! j)"
  shows "argmin_ok P f xs (Some i)"
  using assms by (auto simp: argmin_ok_def)

lemma argmin_ok_skip:
  "argmin_ok P f xs r \<Longrightarrow> \<not> P x \<Longrightarrow> argmin_ok P f (xs @ [x]) r"
  by (cases r) (auto simp: argmin_ok_def nth_append less_Suc_eq)

lemma argmin_ok_first:
  "argmin_ok P f xs None \<Longrightarrow> P x \<Longrightarrow> argmin_ok P f (xs @ [x]) (Some (length xs))"
  by (auto simp: argmin_ok_def nth_append less_Suc_eq)

lemma argmin_ok_keep:
  "argmin_ok P f xs (Some i) \<Longrightarrow> \<not> f x < f (xs ! i) \<Longrightarrow> argmin_ok P f (xs @ [x]) (Some i)"
  by (auto simp: argmin_ok_def nth_append less_Suc_eq)

lemma argmin_ok_better:
  assumes "argmin_ok P f xs (Some i)" and "P x" and "f x < f (xs ! i)"
  shows "argmin_ok P f (xs @ [x]) (Some (length xs))"
proof (rule argmin_ok_SomeI)
  fix j assume "j < length xs" and "P ((xs @ [x]) ! j)"
  then have "f (xs ! i) \<le> f (xs ! j)"
    using argmin_ok_SomeD(3) [OF assms(1)] by (simp add: nth_append)
  with assms(3) \<open>j < length xs\<close> show "f ((xs @ [x]) ! length xs) < f ((xs @ [x]) ! j)"
    by (simp add: nth_append)
next
  fix j assume "j < length (xs @ [x])" and "P ((xs @ [x]) ! j)"
  then show "f ((xs @ [x]) ! length xs) \<le> f ((xs @ [x]) ! j)"
    using argmin_ok_SomeD(3) [OF assms(1), of j] assms(3)
    by (cases "j < length xs") (auto simp: nth_append less_Suc_eq)
qed (use assms in auto)

text \<open>The step of every selection loop, in one fact.\<close>

lemma argmin_ok_snoc:
  assumes "argmin_ok P f xs r"
  shows "argmin_ok P f (xs @ [x])
    (if P x \<and> (case r of None \<Rightarrow> True | Some i \<Rightarrow> f x < f (xs ! i)) then Some (length xs) else r)"
  using assms
  by (cases r)
    (auto intro: argmin_ok_skip argmin_ok_first argmin_ok_keep argmin_ok_better)

lemma argmin_ok_unique:
  assumes "argmin_ok P f xs r" and "argmin_ok P f xs s"
  shows "r = s"
proof (cases r)
  case None
  with assms show ?thesis by (cases s) (auto simp: argmin_ok_def)
next
  case (Some i)
  with assms(1) have i: "argmin_ok P f xs (Some i)" by simp
  show ?thesis
  proof (cases s)
    case None
    with i assms(2) show ?thesis by (auto simp: argmin_ok_def)
  next
    case (Some j)
    with assms(2) have j: "argmin_ok P f xs (Some j)" by simp
    from argmin_ok_SomeD(4) [OF i, of j] argmin_ok_SomeD(3) [OF j, of i]
      argmin_ok_SomeD(4) [OF j, of i] argmin_ok_SomeD(3) [OF i, of j]
      argmin_ok_SomeD(1,2) [OF i] argmin_ok_SomeD(1,2) [OF j]
    have "i = j" by (cases i j rule: linorder_cases) (auto simp: not_le [symmetric])
    with Some \<open>r = Some i\<close> show ?thesis by simp
  qed
qed

lemma argmin_ok_map:
  "argmin_ok P f (map g xs) r \<longleftrightarrow> argmin_ok (P \<circ> g) (f \<circ> g) xs r"
  by (cases r) (auto simp: argmin_ok_def)

lemma argmin_ok_cong:
  assumes "\<And>x. x \<in> set xs \<Longrightarrow> P x = Q x" and "\<And>x. x \<in> set xs \<Longrightarrow> Q x \<Longrightarrow> f x = g x"
  shows "argmin_ok P f xs r = argmin_ok Q g xs r"
  using assms by (cases r) (auto simp: argmin_ok_def)

text \<open>The answer exists exactly when some element passes the filter.\<close>

lemma argmin_ok_ex:
  "argmin_ok P f xs r \<Longrightarrow> (\<exists>i. r = Some i) \<longleftrightarrow> (\<exists>x\<in>set xs. P x)"
  by (cases r) (auto simp: argmin_ok_def intro: nth_mem)

subsection \<open>Running a selection several times\<close>

primrec iterate_pick :: "('p \<Rightarrow> 'p \<times> 'r) \<Rightarrow> nat \<Rightarrow> 'p \<Rightarrow> 'p \<times> 'r list" where
  "iterate_pick pick 0 p = (p, [])"
| "iterate_pick pick (Suc n) p =
     (case pick p of (p', r) \<Rightarrow>
        case iterate_pick pick n p' of (p'', rs) \<Rightarrow> (p'', r # rs))"

lemma iterate_pick_length [simp]: "length (snd (iterate_pick pick n p)) = n"
  by (induction n arbitrary: p) (auto split: prod.splits simp: prod_eq_iff)

lemma iterate_pick_add:
  "iterate_pick pick (m + n) p =
     (let (q, rs) = iterate_pick pick m p; (q', rs') = iterate_pick pick n q in (q', rs @ rs'))"
  by (induction m arbitrary: p) (auto split: prod.splits)

lemma iterate_pick_Suc_last:
  "iterate_pick pick (Suc n) p =
     (let (q, rs) = iterate_pick pick n p; (q', r) = pick q in (q', rs @ [r]))"
  using iterate_pick_add [of pick n 1 p] by (simp add: Let_def split: prod.splits)

lemma iterate_pick_inv:
  assumes "I p" and "\<And>q. I q \<Longrightarrow> I (fst (pick q))"
  shows "I (fst (iterate_pick pick n p))"
  using assms(1)
proof (induction n arbitrary: p)
  case 0
  then show ?case by simp
next
  case (Suc n)
  from Suc.IH [OF assms(2) [OF Suc.prems]] show ?case
    by (simp add: case_prod_beta)
qed

subsection \<open>Updated lists\<close>

text \<open>An update that a projection does not see.\<close>

lemma map_list_update_same:
  "(i < length xs \<Longrightarrow> f x = f (xs ! i)) \<Longrightarrow> map f (xs[i := x]) = map f xs"
  by (cases "i < length xs") (simp_all add: map_update list_update_same_conv list_update_beyond)

lemma filter_update_count:
  "t < length xs \<Longrightarrow>
     length (filter P (xs[t := x])) + (if P (xs ! t) then 1 else 0) =
     length (filter P xs) + (if P x then 1 else 0)"
proof (induction xs arbitrary: t)
  case (Cons y ys)
  show ?case
  proof (cases t)
    case (Suc u)
    then show ?thesis using Cons.IH [of u] Cons.prems by (simp split: if_splits)
  qed simp
qed simp

lemma set_list_update_cases: "x \<in> set (xs[i := y]) \<Longrightarrow> x = y \<or> x \<in> set xs"
  using set_update_subset_insert [of xs i y] by blast

lemma map_eq_nth: "map f xs = map f ys \<Longrightarrow> i < length xs \<Longrightarrow> f (xs ! i) = f (ys ! i)"
  by (metis map_eq_imp_length_eq nth_map)

subsection \<open>Words read as integers\<close>

lemma sint_plus_small:
  fixes a b :: "64 word"
  assumes "- (2 ^ 63) \<le> sint a + sint b" and "sint a + sint b < 2 ^ 63"
  shows "sint (a + b) = sint a + sint b"
  using assms by (simp add: sint_word_ariths signed_take_bit_int_eq_self)

lemma sint_minus_small:
  fixes a b :: "64 word"
  assumes "- (2 ^ 63) \<le> sint a - sint b" and "sint a - sint b < 2 ^ 63"
  shows "sint (a - b) = sint a - sint b"
  using assms by (simp add: sint_word_ariths signed_take_bit_int_eq_self)

lemma sint_of_int_small:
  assumes "- (2 ^ 63) \<le> n" and "n < 2 ^ 63"
  shows "sint (word_of_int n :: 64 word) = n"
  using assms by (simp add: int_word_sint)

lemma sint_eq_0: "sint (x :: 64 word) = 0 \<longleftrightarrow> x = 0"
  by (metis signed_0 signed_word_eqI)

lemma unat_max: "unat (- 1 :: 64 word) = 18446744073709551615"
  by (simp add: unsigned_minus_1_eq_mask mask_eq_exp_minus_1)

lemma word_sless_iff_sint: "a <s b \<longleftrightarrow> sint a < sint b"
  by (simp add: word_sless_alt)

subsection \<open>Intervals\<close>

lemma map_upt_shift:
  "map f [1..<Suc (Suc n)] = f 1 # map (\<lambda>k. f (Suc k)) [1..<Suc n]"
  by (simp add: upt_conv_Cons map_Suc_upt [symmetric] comp_def del: upt_Suc map_Suc_upt)

end
