(* ===== verification/Config.thy ===== *)
theory Config
  imports Prelude Complex_Main
begin

text \<open>
  The configuration types of \<open>internal/lb/config.go\<close>, one record per struct, with the fields
  prefixed by the struct's initials (\<open>lc\<close> for \<open>ListenerConfig\<close>, \<open>rc\<close> for \<open>RouteConfig\<close>,
  \<open>bc\<close> for \<open>BackendConfig\<close>).  A pointer to an optional section is an option, a slice a list,
  a \<open>time.Duration\<close> its number of nanoseconds, a finite \<open>float64\<close> setting the rational number
  it stands for, and the header map of a route the list of its entries.

  \<open>LoadConfig\<close> reads a file, decodes it and overlays the environment.  The file system, the
  YAML decoder and the environment parser are parameters; what the function itself does, the
  order of the steps, the three error branches and the default Redis section, is modelled.
\<close>

type_synonym duration = int

record BackendConfig =
  bcAddr :: string
  bcWeight :: go_int

record RouteConfig =
  rcHost :: string
  rcPath :: string
  rcHeaders :: "(string \<times> string) list"
  rcStrategy :: string
  rcBackends :: "BackendConfig list"

record RedisConfig =
  rdAddr :: string
  rdPassword :: string
  rdDB :: go_int

record TLSConfig =
  tlCertFile :: string
  tlKeyFile :: string
  tlMinVersion :: string
  tlCipherSuites :: "string list"

record AutocertConfig =
  acEnabled :: bool
  acEmail :: string
  acDomains :: "string list"
  acCacheDir :: string

record RateLimitConfig =
  rlEnabled :: bool
  rlRequestsPerSecond :: rat
  rlBurst :: go_int

record CircuitBreakerConfig =
  ccEnabled :: bool
  ccConsecutiveFailures :: u32
  ccOpenStateTimeout :: duration

record ConnectionPoolConfig =
  cpMaxIdleConns :: go_int
  cpMaxIdleConnsPerHost :: go_int
  cpIdleConnTimeout :: duration

record CacheConfig =
  caEnabled :: bool
  caDefaultExpiration :: duration
  caCleanupInterval :: duration

record ListenerConfig =
  lcName :: string
  lcProtocol :: string
  lcListenAddr :: string
  lcTLS :: "TLSConfig option"
  lcAutocert :: "AutocertConfig option"
  lcRateLimit :: "RateLimitConfig option"
  lcCache :: "CacheConfig option"
  lcRoutes :: "RouteConfig list"
  lcStrategy :: string
  lcBackends :: "BackendConfig list"

record Config =
  cfListeners :: "ListenerConfig list"
  cfMetricsAddr :: string
  cfAdminAddr :: string
  cfAdminToken :: string
  cfCircuitBreaker :: "CircuitBreakerConfig option"
  cfConnectionPool :: "ConnectionPoolConfig option"
  cfRedis :: "RedisConfig option"

subsection \<open>The two kinds of listeners\<close>

text \<open>The test \<open>Protocol == "http" || Protocol == "https"\<close>, and its layer-4 counterpart.\<close>

definition isL7 :: "ListenerConfig \<Rightarrow> bool" where
  "isL7 l \<longleftrightarrow> lcProtocol l = ''http'' \<or> lcProtocol l = ''https''"

definition isL4 :: "ListenerConfig \<Rightarrow> bool" where
  "isL4 l \<longleftrightarrow> lcProtocol l = ''tcp'' \<or> lcProtocol l = ''udp''"

lemma isL4_not_isL7: "isL4 l \<Longrightarrow> \<not> isL7 l"
  by (auto simp: isL4_def isL7_def)

subsection \<open>LoadConfig\<close>

datatype config_error = OpenFailed string | DecodeFailed string | EnvFailed string

definition LoadConfig ::
  "(string \<Rightarrow> string + string) \<Rightarrow> (string \<Rightarrow> string + Config) \<Rightarrow> (Config \<Rightarrow> string + Config)
     \<Rightarrow> string \<Rightarrow> config_error + Config" where
  "LoadConfig openFile yamlDecode envParse path =
     (case openFile path of
        Inl e \<Rightarrow> Inl (OpenFailed e)
      | Inr file \<Rightarrow>
          (case yamlDecode file of
             Inl e \<Rightarrow> Inl (DecodeFailed e)
           | Inr cfg \<Rightarrow>
               (let cfg = (if cfRedis cfg = None
                           then cfg\<lparr>cfRedis := Some \<lparr>rdAddr = [], rdPassword = [], rdDB = 0\<rparr>\<rparr>
                           else cfg)
                in case envParse cfg of
                     Inl e \<Rightarrow> Inl (EnvFailed e)
                   | Inr cfg' \<Rightarrow> Inr cfg')))"

text \<open>
  What \<open>env.Parse\<close> is documented to do and the program relies on: it fills fields, and never
  turns a section that is present into an absent one.
\<close>

definition env_keeps_redis :: "(Config \<Rightarrow> string + Config) \<Rightarrow> bool" where
  "env_keeps_redis envParse \<longleftrightarrow>
     (\<forall>c c'. envParse c = Inr c' \<longrightarrow> cfRedis c \<noteq> None \<longrightarrow> cfRedis c' \<noteq> None)"

lemma LoadConfig_redis:
  assumes "env_keeps_redis envParse" and "LoadConfig openFile yamlDecode envParse path = Inr cfg"
  shows "cfRedis cfg \<noteq> None"
  using assms
  by (auto simp: LoadConfig_def env_keeps_redis_def Let_def split: sum.splits if_splits)

lemma LoadConfig_error_iff:
  "(\<exists>e. LoadConfig openFile yamlDecode envParse path = Inl (DecodeFailed e)) \<longleftrightarrow>
     (\<exists>f e. openFile path = Inr f \<and> yamlDecode f = Inl e)"
  by (auto simp: LoadConfig_def Let_def split: sum.splits)

end
