(* ===== verification/Backend.thy ===== *)
theory Backend
  imports Prelude Config "HOL-Library.Multiset"
begin

text \<open>
  \<open>internal/lb/backend.go\<close>: the \<open>Backend\<close> and \<open>BackendPool\<close> structs, the atomic connection
  counter, the construction of pools from a configuration, and the health checks.

  The circuit breaker is the third-party package \<open>gobreaker\<close>.  It is the parameter record
  \<open>gobreaker\<close> over an abstract breaker type \<open>'cb\<close>: its constructor, its \<open>State()\<close>, and
  \<open>Execute\<close> as the two halves the package documents, \<open>beforeRequest\<close> (which may reject) and
  \<open>afterRequest\<close> (which is told whether the call succeeded).

  A pool owns its backends: every \<open>*Backend\<close> the program holds was taken out of one pool, so a
  pointer to a backend is the index of the backend in its pool, and a write through the pointer
  is an update of the list.  Locks and atomics make each of the operations below one step.

  Go iterates over a map in an unspecified order.  The order is the parameter \<open>ord\<close>, which is
  given the keys and returns them in the order of the iteration; \<open>map_order\<close> is all that is
  known of it.  \<open>url.Parse\<close> is the parameter \<open>urlParse\<close>.
\<close>

subsection \<open>Circuit breakers\<close>

datatype cb_state = StateClosed | StateHalfOpen | StateOpen

datatype cb_error = ErrOpenState | ErrTooManyRequests

record cb_settings =
  stName :: string
  stReadyToTrip :: "u32 \<Rightarrow> bool"
  stTimeout :: duration

record 'cb gobreaker =
  NewCircuitBreaker :: "cb_settings \<Rightarrow> 'cb"
  cbState :: "'cb \<Rightarrow> cb_state"
  beforeRequest :: "'cb \<Rightarrow> cb_error + 'cb"
  afterRequest :: "'cb \<Rightarrow> bool \<Rightarrow> 'cb"

definition cbSettings :: "CircuitBreakerConfig \<Rightarrow> string \<Rightarrow> cb_settings" where
  "cbSettings cbCfg addr =
     \<lparr>stName = addr,
      stReadyToTrip = (\<lambda>consecutive. ccConsecutiveFailures cbCfg < consecutive),
      stTimeout = ccOpenStateTimeout cbCfg\<rparr>"

definition newBreaker :: "'cb gobreaker \<Rightarrow> CircuitBreakerConfig option \<Rightarrow> string \<Rightarrow> 'cb option" where
  "newBreaker G cbCfg addr =
     (case cbCfg of
        None \<Rightarrow> None
      | Some c \<Rightarrow> if ccEnabled c then Some (NewCircuitBreaker G (cbSettings c addr)) else None)"

subsection \<open>Backends\<close>

record Transport =
  trMaxIdleConns :: go_int
  trMaxIdleConnsPerHost :: go_int
  trIdleConnTimeout :: duration

record ReverseProxy =
  rpTarget :: string
  rpTransport :: Transport
  rpErrorHandler :: bool \<comment> \<open>a custom \<open>ErrorHandler\<close> is installed\<close>

record 'cb Backend =
  Addr :: string
  healthy :: bool
  Weight :: go_int
  CurrentWeight :: go_int
  connections :: u64
  cb :: "'cb option"
  proxy :: "ReverseProxy option"

definition IsHealthy :: "'cb Backend \<Rightarrow> bool" where
  "IsHealthy b = healthy b"

definition SetHealth :: "bool \<Rightarrow> 'cb Backend \<Rightarrow> 'cb Backend" where
  "SetHealth h b = b\<lparr>healthy := h\<rparr>"

definition IncrementConnections :: "'cb Backend \<Rightarrow> 'cb Backend" where
  "IncrementConnections b = b\<lparr>connections := connections b + 1\<rparr>"

definition DecrementConnections :: "'cb Backend \<Rightarrow> 'cb Backend" where
  "DecrementConnections b = b\<lparr>connections := connections b + (- 1)\<rparr>"

definition GetConnections :: "'cb Backend \<Rightarrow> u64" where
  "GetConnections b = connections b"

text \<open>
  The test that guards every selection:
  \<open>IsHealthy() && (cb == nil || cb.State() != gobreaker.StateOpen)\<close>.
\<close>

definition available :: "'cb gobreaker \<Rightarrow> 'cb Backend \<Rightarrow> bool" where
  "available G b \<longleftrightarrow> IsHealthy b \<and> (case cb b of None \<Rightarrow> True | Some c \<Rightarrow> cbState G c \<noteq> StateOpen)"

subsection \<open>Pools\<close>

record 'cb BackendPool =
  backends :: "'cb Backend list"
  strategy :: string
  current :: u64

abbreviation poolSize :: "'cb BackendPool \<Rightarrow> nat" where
  "poolSize p \<equiv> length (backends p)"

text \<open>A write through a pointer to the \<open>i\<close>-th backend of a pool.\<close>

definition updBackend :: "nat \<Rightarrow> ('cb Backend \<Rightarrow> 'cb Backend) \<Rightarrow> 'cb BackendPool \<Rightarrow> 'cb BackendPool" where
  "updBackend i f p = p\<lparr>backends := (backends p)[i := f (backends p ! i)]\<rparr>"

subsection \<open>Construction\<close>

definition effectiveWeight :: "BackendConfig \<Rightarrow> go_int" where
  "effectiveWeight bc = (if 0 <s bcWeight bc then bcWeight bc else 1)"

definition newL7Backend ::
  "'cb gobreaker \<Rightarrow> (string \<Rightarrow> string option) \<Rightarrow> CircuitBreakerConfig option \<Rightarrow> Transport
     \<Rightarrow> BackendConfig \<Rightarrow> 'cb Backend option" where
  "newL7Backend G urlParse cbCfg transport bc =
     (case urlParse (''http://'' @ bcAddr bc) of
        None \<Rightarrow> None
      | Some parsedURL \<Rightarrow>
          Some \<lparr>Addr = bcAddr bc, healthy = False, Weight = effectiveWeight bc, CurrentWeight = 0,
                connections = 0, cb = newBreaker G cbCfg (bcAddr bc),
                proxy = Some \<lparr>rpTarget = parsedURL, rpTransport = transport, rpErrorHandler = False\<rparr>\<rparr>)"

definition newL4Backend ::
  "'cb gobreaker \<Rightarrow> CircuitBreakerConfig option \<Rightarrow> BackendConfig \<Rightarrow> 'cb Backend option" where
  "newL4Backend G cbCfg bc =
     Some \<lparr>Addr = bcAddr bc, healthy = False, Weight = effectiveWeight bc, CurrentWeight = 0,
           connections = 0, cb = newBreaker G cbCfg (bcAddr bc), proxy = None\<rparr>"

definition staticBackends :: "BackendConfig list \<Rightarrow> (string \<rightharpoonup> BackendConfig)" where
  "staticBackends bcs = foldl (\<lambda>m bc. m(bcAddr bc \<mapsto> bc)) Map.empty bcs"

definition staticKeys :: "BackendConfig list \<Rightarrow> string list" where
  "staticKeys bcs = remdups (map bcAddr bcs)"

definition map_order :: "('k list \<Rightarrow> 'k list) \<Rightarrow> bool" where
  "map_order ord \<longleftrightarrow> (\<forall>ks. mset (ord ks) = mset ks)"

definition transportOf :: "ConnectionPoolConfig option \<Rightarrow> Transport" where
  "transportOf poolCfg =
     (case poolCfg of
        Some c \<Rightarrow> \<lparr>trMaxIdleConns = cpMaxIdleConns c,
                   trMaxIdleConnsPerHost = cpMaxIdleConnsPerHost c,
                   trIdleConnTimeout = cpIdleConnTimeout c\<rparr>
      | None \<Rightarrow> \<lparr>trMaxIdleConns = 0, trMaxIdleConnsPerHost = 0, trIdleConnTimeout = 0\<rparr>)"

text \<open>The loop \<open>for _, bc := range m\<close> that keeps what the constructor returns.\<close>

primrec collectBackends ::
  "(BackendConfig \<Rightarrow> 'cb Backend option) \<Rightarrow> (string \<rightharpoonup> BackendConfig) \<Rightarrow> string list \<Rightarrow> 'cb Backend list" where
  "collectBackends new m [] = []"
| "collectBackends new m (k # ks) =
     (case Option.bind (m k) new of
        None \<Rightarrow> collectBackends new m ks
      | Some be \<Rightarrow> be # collectBackends new m ks)"

definition buildL7Backends ::
  "'cb gobreaker \<Rightarrow> (string \<Rightarrow> string option) \<Rightarrow> CircuitBreakerConfig option
     \<Rightarrow> ConnectionPoolConfig option \<Rightarrow> (string \<rightharpoonup> BackendConfig) \<Rightarrow> string list \<Rightarrow> 'cb Backend list" where
  "buildL7Backends G urlParse cbCfg poolCfg m ks =
     collectBackends (newL7Backend G urlParse cbCfg (transportOf poolCfg)) m ks"

definition buildL4Backends ::
  "'cb gobreaker \<Rightarrow> CircuitBreakerConfig option \<Rightarrow> (string \<rightharpoonup> BackendConfig) \<Rightarrow> string list
     \<Rightarrow> 'cb Backend list" where
  "buildL4Backends G cbCfg m ks = collectBackends (newL4Backend G cbCfg) m ks"

definition NewL7BackendPool ::
  "'cb gobreaker \<Rightarrow> (string \<Rightarrow> string option) \<Rightarrow> (string list \<Rightarrow> string list) \<Rightarrow> RouteConfig
     \<Rightarrow> CircuitBreakerConfig option \<Rightarrow> ConnectionPoolConfig option \<Rightarrow> 'cb BackendPool" where
  "NewL7BackendPool G urlParse ord routeCfg cbCfg poolCfg =
     \<lparr>backends = buildL7Backends G urlParse cbCfg poolCfg (staticBackends (rcBackends routeCfg))
                   (ord (staticKeys (rcBackends routeCfg))),
      strategy = rcStrategy routeCfg, current = 0\<rparr>"

definition NewL4BackendPool ::
  "'cb gobreaker \<Rightarrow> (string list \<Rightarrow> string list) \<Rightarrow> ListenerConfig \<Rightarrow> CircuitBreakerConfig option
     \<Rightarrow> 'cb BackendPool" where
  "NewL4BackendPool G ord listenerCfg cbCfg =
     (let bs = buildL4Backends G cbCfg (staticBackends (lcBackends listenerCfg))
                 (ord (staticKeys (lcBackends listenerCfg)))
      in \<lparr>backends = (if lcProtocol listenerCfg = ''udp'' then map (SetHealth True) bs else bs),
          strategy = lcStrategy listenerCfg, current = 0\<rparr>)"

subsection \<open>Health checks\<close>

text \<open>\<open>healthCheck\<close>, given whether \<open>net.DialTimeout\<close> succeeded.\<close>

definition healthCheck :: "bool \<Rightarrow> 'cb Backend \<Rightarrow> 'cb Backend" where
  "healthCheck dialed b =
     (if \<not> dialed then (if IsHealthy b then SetHealth False b else b)
      else if \<not> IsHealthy b then SetHealth True b else b)"

text \<open>
  \<open>StartHealthChecks\<close> launches one check per backend at once (\<open>startChecks\<close>; for an empty pool it
  returns at once, without a loop) and then, on every tick, one per backend whose circuit is not open
  (\<open>tickChecks\<close>).  \<open>runChecks\<close> performs the checks of a list of backends.
\<close>

definition startChecks :: "'cb BackendPool \<Rightarrow> nat list" where
  "startChecks p = (if backends p = [] then [] else [0..<poolSize p])"

definition tickChecks :: "'cb gobreaker \<Rightarrow> 'cb BackendPool \<Rightarrow> nat list" where
  "tickChecks G p =
     filter (\<lambda>i. case cb (backends p ! i) of None \<Rightarrow> True | Some c \<Rightarrow> cbState G c \<noteq> StateOpen)
       [0..<poolSize p]"

definition runChecks :: "(string \<Rightarrow> bool) \<Rightarrow> nat list \<Rightarrow> 'cb BackendPool \<Rightarrow> 'cb BackendPool" where
  "runChecks dial is p =
     foldl (\<lambda>p i. updBackend i (\<lambda>b. healthCheck (dial (Addr b)) b) p) p is"

definition GetTotalConnections :: "'cb BackendPool \<Rightarrow> u64" where
  "GetTotalConnections p = foldl (\<lambda>total b. total + GetConnections b) 0 (backends p)"

subsection \<open>Frame facts\<close>

lemma SetHealth_frame [frame]:
  "Addr (SetHealth h b) = Addr b" "Weight (SetHealth h b) = Weight b"
  "CurrentWeight (SetHealth h b) = CurrentWeight b" "connections (SetHealth h b) = connections b"
  "cb (SetHealth h b) = cb b" "proxy (SetHealth h b) = proxy b" "healthy (SetHealth h b) = h"
  by (simp_all add: SetHealth_def)

lemma IncrementConnections_frame [frame]:
  "Addr (IncrementConnections b) = Addr b" "Weight (IncrementConnections b) = Weight b"
  "CurrentWeight (IncrementConnections b) = CurrentWeight b"
  "healthy (IncrementConnections b) = healthy b"
  "cb (IncrementConnections b) = cb b" "proxy (IncrementConnections b) = proxy b"
  "connections (IncrementConnections b) = connections b + 1"
  by (simp_all add: IncrementConnections_def)

lemma DecrementConnections_frame [frame]:
  "Addr (DecrementConnections b) = Addr b" "Weight (DecrementConnections b) = Weight b"
  "CurrentWeight (DecrementConnections b) = CurrentWeight b"
  "healthy (DecrementConnections b) = healthy b"
  "cb (DecrementConnections b) = cb b" "proxy (DecrementConnections b) = proxy b"
  "connections (DecrementConnections b) = connections b - 1"
  by (simp_all add: DecrementConnections_def)

lemma available_frame [frame]:
  "available G (IncrementConnections b) = available G b"
  "available G (DecrementConnections b) = available G b"
  by (simp_all add: available_def IsHealthy_def frame)

lemma healthCheck_eq: "healthCheck dialed b = SetHealth dialed b"
  by (cases b) (auto simp: healthCheck_def SetHealth_def IsHealthy_def)

lemma updBackend_frame [frame]:
  "poolSize (updBackend i f p) = poolSize p"
  "strategy (updBackend i f p) = strategy p" "current (updBackend i f p) = current p"
  by (simp_all add: updBackend_def)

lemma updBackend_nth [simp]:
  "i < poolSize p \<Longrightarrow> backends (updBackend i f p) ! j = (if i = j then f (backends p ! j) else backends p ! j)"
  by (simp add: updBackend_def nth_list_update)

lemma updBackend_updBackend:
  "i < poolSize p \<Longrightarrow> updBackend i g (updBackend i f p) = updBackend i (g \<circ> f) p"
  by (simp add: updBackend_def)

lemma updBackend_id [simp]: "updBackend i (\<lambda>b. b) p = p"
  by (simp add: updBackend_def)

subsection \<open>The connection counter\<close>

text \<open>
  The counter as the clients of a pool use it: reading after an increment or a decrement, which
  undo each other also where they wrap around, and which touch nothing else.
\<close>

locale conn_counter =
  fixes inc :: "'b \<Rightarrow> 'b" and dec :: "'b \<Rightarrow> 'b" and get :: "'b \<Rightarrow> u64"
  assumes get_inc: "get (inc b) = get b + 1"
    and dec_inc: "dec (inc b) = b"
    and inc_dec: "inc (dec b) = b"
begin

lemma get_dec: "get (dec b) = get b - 1"
  using get_inc [of "dec b"] by (simp add: inc_dec)

text \<open>\<open>n\<close> opened and \<open>m \<le> n\<close> closed connections count as \<open>n - m\<close>, whatever the order.\<close>

lemma get_iterate: "get ((inc ^^ n) b) = get b + of_nat n"
  by (induction n) (simp_all add: get_inc algebra_simps)

lemma iterate_cancel: "(dec ^^ n) ((inc ^^ n) b) = b"
proof (induction n)
  case (Suc n)
  then show ?case by (simp only: funpow_Suc_right [of n dec] funpow.simps(2) [of n inc] comp_def dec_inc)
qed simp

lemma get_underflow: "get b = 0 \<Longrightarrow> get (dec b) = - 1"
  by (simp add: get_dec)

end

interpretation conns: conn_counter IncrementConnections DecrementConnections GetConnections
  by unfold_locales
    (simp_all add: IncrementConnections_def DecrementConnections_def GetConnections_def)

lemma GetTotalConnections_eq:
  fixes p :: "'cb BackendPool"
  shows "GetTotalConnections p = sum_list (map connections (backends p))"
proof -
  have "foldl (\<lambda>total b. total + GetConnections b) a bs = a + sum_list (map connections bs)"
    for a and bs :: "'cb Backend list"
    by (induction bs arbitrary: a) (simp_all add: GetConnections_def add.assoc)
  then show ?thesis by (simp add: GetTotalConnections_def)
qed

subsection \<open>Pools from a configuration\<close>

lemma map_order_set: "map_order ord \<Longrightarrow> set (ord ks) = set ks"
  unfolding map_order_def by (metis set_mset_mset)

lemma map_order_distinct: "map_order ord \<Longrightarrow> distinct (ord ks) = distinct ks"
  unfolding map_order_def by (metis mset_eq_imp_distinct_iff)

lemma staticBackends_snoc:
  "staticBackends (bcs @ [bc]) = (staticBackends bcs)(bcAddr bc \<mapsto> bc)"
  by (simp add: staticBackends_def)

lemma dom_staticBackends: "dom (staticBackends bcs) = bcAddr ` set bcs"
proof (induction bcs rule: rev_induct)
  case Nil
  then show ?case by (simp add: staticBackends_def)
next
  case (snoc bc bcs)
  then show ?case by (simp only: staticBackends_snoc dom_fun_upd) simp
qed

lemma staticBackends_addr: "staticBackends bcs a = Some bc \<Longrightarrow> bcAddr bc = a \<and> bc \<in> set bcs"
  by (induction bcs rule: rev_induct)
    (auto simp: staticBackends_snoc split: if_splits, simp add: staticBackends_def)

text \<open>The last entry of the configuration wins.\<close>

lemma staticBackends_last:
  "bcAddr bc \<notin> bcAddr ` set bcs' \<Longrightarrow> staticBackends (bcs @ bc # bcs') (bcAddr bc) = Some bc"
proof (induction bcs' rule: rev_induct)
  case Nil
  then show ?case by (simp add: staticBackends_snoc)
next
  case (snoc x xs)
  then show ?case using staticBackends_snoc [of "bcs @ bc # xs" x] by auto
qed

lemma staticBackends_split:
  "staticBackends bcs k = Some bc \<Longrightarrow> \<exists>pre post. bcs = pre @ bc # post \<and> bcAddr bc \<notin> bcAddr ` set post"
proof (induction bcs rule: rev_induct)
  case Nil
  then show ?case by (simp add: staticBackends_def)
next
  case (snoc x xs)
  show ?case
  proof (cases "k = bcAddr x")
    case True
    with snoc.prems have "bc = x" by (simp add: staticBackends_snoc)
    then show ?thesis by (intro exI [of _ xs] exI [of _ "[]"]) simp
  next
    case False
    with snoc.prems have old: "staticBackends xs k = Some bc" by (simp add: staticBackends_snoc)
    then have "bcAddr bc = k" using staticBackends_addr by blast
    from snoc.IH [OF old] obtain pre post where "xs = pre @ bc # post" "bcAddr bc \<notin> bcAddr ` set post" by blast
    with \<open>bcAddr bc = k\<close> False show ?thesis by (intro exI [of _ pre] exI [of _ "post @ [x]"]) simp
  qed
qed

lemma set_staticKeys [simp]: "set (staticKeys bcs) = bcAddr ` set bcs"
  by (simp add: staticKeys_def)

lemma distinct_staticKeys [simp]: "distinct (staticKeys bcs)"
  by (simp add: staticKeys_def)

lemma collectBackends_in:
  "b \<in> set (collectBackends new m ks) \<longleftrightarrow> (\<exists>k\<in>set ks. \<exists>bc. m k = Some bc \<and> new bc = Some b)"
  by (induction ks) (auto split: option.splits simp: bind_eq_Some_conv bind_eq_None_conv)

lemma collectBackends_distinct:
  assumes "distinct ks" and "\<And>k bc b. m k = Some bc \<Longrightarrow> new bc = Some b \<Longrightarrow> Addr b = k"
  shows "distinct (map Addr (collectBackends new m ks))"
  using assms(1)
proof (induction ks)
  case (Cons k ks)
  show ?case
  proof (cases "Option.bind (m k) new")
    case None
    with Cons show ?thesis by simp
  next
    case (Some be)
    then have "Addr be = k" by (auto simp: bind_eq_Some_conv assms(2))
    moreover have "Addr b \<in> set ks" if "b \<in> set (collectBackends new m ks)" for b
      using that by (auto simp: collectBackends_in assms(2))
    ultimately show ?thesis using Cons Some by auto
  qed
qed simp

text \<open>
  A freshly built backend: unhealthy, idle, no smooth weight accumulated, and a positive
  weight, the configured one unless it is not positive.
\<close>

definition fresh :: "'cb Backend \<Rightarrow> bool" where
  "fresh b \<longleftrightarrow> \<not> healthy b \<and> CurrentWeight b = 0 \<and> connections b = 0 \<and> 0 < sint (Weight b)"

lemma effectiveWeight_pos: "0 < sint (effectiveWeight bc)"
  by (simp add: effectiveWeight_def word_sless_iff_sint)

lemma newL7Backend_fresh:
  "newL7Backend G urlParse cbCfg t bc = Some b \<Longrightarrow> fresh b \<and> Addr b = bcAddr bc \<and> Weight b = effectiveWeight bc"
  by (auto simp: newL7Backend_def fresh_def effectiveWeight_pos split: option.splits)

lemma newL4Backend_fresh:
  "newL4Backend G cbCfg bc = Some b \<Longrightarrow> fresh b \<and> Addr b = bcAddr bc \<and> Weight b = effectiveWeight bc"
  by (auto simp: newL4Backend_def fresh_def effectiveWeight_pos)

lemma NewL7BackendPool_backends:
  assumes "map_order ord"
  shows "b \<in> set (backends (NewL7BackendPool G urlParse ord rc cbCfg poolCfg)) \<longleftrightarrow>
    (\<exists>bc. staticBackends (rcBackends rc) (bcAddr bc) = Some bc \<and>
          newL7Backend G urlParse cbCfg (transportOf poolCfg) bc = Some b)"
proof -
  have dom: "bcAddr bc \<in> bcAddr ` set (rcBackends rc)"
    if "staticBackends (rcBackends rc) (bcAddr bc) = Some bc" for bc
    using that by (auto dest: staticBackends_addr)
  show ?thesis
    using assms dom
    by (auto simp: NewL7BackendPool_def buildL7Backends_def collectBackends_in map_order_set
        dest: staticBackends_addr) (metis dom staticBackends_addr imageE)+
qed

subsection \<open>Concrete values to evaluate on\<close>

text \<open>A breaker that opens on the first failure, and backends without breaker and proxy.\<close>

definition simpleBreaker :: "cb_state gobreaker" where
  "simpleBreaker =
     \<lparr>NewCircuitBreaker = (\<lambda>_. StateClosed), cbState = (\<lambda>c. c),
      beforeRequest = (\<lambda>c. if c = StateOpen then Inl ErrOpenState else Inr c),
      afterRequest = (\<lambda>c ok. if ok then StateClosed else StateOpen)\<rparr>"

definition plainBackend :: "string \<Rightarrow> bool \<Rightarrow> go_int \<Rightarrow> u64 \<Rightarrow> cb_state Backend" where
  "plainBackend addr up weight conns =
     \<lparr>Addr = addr, healthy = up, Weight = weight, CurrentWeight = 0, connections = conns,
      cb = None, proxy = None\<rparr>"

definition samplePool :: "string \<Rightarrow> 'cb Backend list \<Rightarrow> 'cb BackendPool" where
  "samplePool strat bs = \<lparr>backends = bs, strategy = strat, current = 0\<rparr>"

lemma plainBackend_sel [simp]:
  "Addr (plainBackend a h w n) = a" "healthy (plainBackend a h w n) = h" "Weight (plainBackend a h w n) = w"
  "CurrentWeight (plainBackend a h w n) = 0" "connections (plainBackend a h w n) = n"
  "cb (plainBackend a h w n) = None" "available G (plainBackend a h w n) = h"
  by (simp_all add: plainBackend_def available_def IsHealthy_def)

lemma samplePool_sel [simp]:
  "backends (samplePool st bs) = bs" "strategy (samplePool st bs) = st" "current (samplePool st bs) = 0"
  by (simp_all add: samplePool_def)

subsection \<open>A round of health checks\<close>

lemma startChecks_none [simp]: "startChecks p = [] \<longleftrightarrow> backends p = []"
  by (simp add: startChecks_def)

lemma runChecks_size [frame]: "poolSize (runChecks dial is p) = poolSize p"
  by (induction "is" arbitrary: p) (simp_all add: runChecks_def frame)

lemma runChecks_nth:
  assumes "distinct is" and "\<forall>i\<in>set is. i < poolSize p" and "j < poolSize p"
  shows "backends (runChecks dial is p) ! j =
      (if j \<in> set is then SetHealth (dial (Addr (backends p ! j))) (backends p ! j) else backends p ! j)"
  using assms
proof (induction "is" arbitrary: p)
  case (Cons i "is")
  let ?p = "updBackend i (\<lambda>b. healthCheck (dial (Addr b)) b) p"
  have "poolSize ?p = poolSize p" by (simp add: frame)
  then show ?case
    using Cons.IH [of ?p] Cons.prems by (auto simp: runChecks_def healthCheck_eq)
qed (simp add: runChecks_def)

definition circuitOpen :: "'cb gobreaker \<Rightarrow> 'cb Backend \<Rightarrow> bool" where
  "circuitOpen G b \<longleftrightarrow> (\<exists>c. cb b = Some c \<and> cbState G c = StateOpen)"

lemma in_tickChecks: "i \<in> set (tickChecks G p) \<longleftrightarrow> i < poolSize p \<and> \<not> circuitOpen G (backends p ! i)"
  by (auto simp: tickChecks_def circuitOpen_def split: option.splits)

lemma runChecks_map:
  assumes "mset is = mset (filter P [0..<poolSize p])"
  shows "backends (runChecks dial is p) =
    map (\<lambda>i. if P i then SetHealth (dial (Addr (backends p ! i))) (backends p ! i) else backends p ! i)
      [0..<poolSize p]"
proof -
  have s: "set is = {i. i < poolSize p \<and> P i}"
    using mset_eq_setD [OF assms] by auto
  have d: "distinct is" using mset_eq_imp_distinct_iff [OF assms] by simp
  show ?thesis
    by (rule nth_equalityI) (use runChecks_nth [OF d, of p] s in \<open>simp_all add: runChecks_size\<close>)
qed

subsection \<open>Properties\<close>

lemma l7_backend_origin:
  assumes "map_order ord" and "b \<in> set (backends (NewL7BackendPool G urlParse ord rc cbCfg poolCfg))"
  obtains bc where "bc \<in> set (rcBackends rc)" "staticBackends (rcBackends rc) (bcAddr bc) = Some bc"
    "newL7Backend G urlParse cbCfg (transportOf poolCfg) bc = Some b" "Addr b = bcAddr bc"
proof -
  obtain bc where bc: "staticBackends (rcBackends rc) (bcAddr bc) = Some bc"
      "newL7Backend G urlParse cbCfg (transportOf poolCfg) bc = Some b"
    using assms by (auto simp: NewL7BackendPool_backends)
  with that show thesis using staticBackends_addr newL7Backend_fresh by blast
qed

lemma l7_backend_present:
  assumes "map_order ord" and "bc \<in> set (rcBackends rc)"
  shows "bcAddr bc \<in> Addr ` set (backends (NewL7BackendPool G urlParse ord rc cbCfg poolCfg)) \<longleftrightarrow>
    urlParse (''http://'' @ bcAddr bc) \<noteq> None"
proof -
  let ?bs = "backends (NewL7BackendPool G urlParse ord rc cbCfg poolCfg)"
  let ?new = "newL7Backend G urlParse cbCfg (transportOf poolCfg)"
  have "bcAddr bc \<in> dom (staticBackends (rcBackends rc))" using assms(2) by (simp add: dom_staticBackends)
  then obtain bc' where bc': "staticBackends (rcBackends rc) (bcAddr bc) = Some bc'" by blast
  then have same: "bcAddr bc' = bcAddr bc" using staticBackends_addr by blast
  have "bcAddr bc \<in> Addr ` set ?bs \<longleftrightarrow> (\<exists>b. ?new bc' = Some b)"
  proof
    assume "bcAddr bc \<in> Addr ` set ?bs"
    then obtain b where "b \<in> set ?bs" and a: "Addr b = bcAddr bc" by auto
    then obtain bc'' where "staticBackends (rcBackends rc) (bcAddr bc'') = Some bc''" "?new bc'' = Some b"
      "Addr b = bcAddr bc''" using l7_backend_origin [OF assms(1)] by metis
    with a bc' show "\<exists>b. ?new bc' = Some b" by auto
  next
    assume "\<exists>b. ?new bc' = Some b"
    then obtain b where b: "?new bc' = Some b" by blast
    then have "b \<in> set ?bs"
      unfolding NewL7BackendPool_backends [OF assms(1)] using bc' same by (intro exI [of _ bc']) simp
    moreover have "Addr b = bcAddr bc" using newL7Backend_fresh [OF b] same by simp
    ultimately show "bcAddr bc \<in> Addr ` set ?bs" by force
  qed
  then show ?thesis by (simp add: newL7Backend_def same split: option.splits)
qed

lemma l7_backends_distinct:
  assumes "map_order ord"
  shows "distinct (map Addr (backends (NewL7BackendPool G urlParse ord rc cbCfg poolCfg)))"
  unfolding NewL7BackendPool_def buildL7Backends_def BackendPool.simps
proof (rule collectBackends_distinct)
  show "Addr b = k" if "staticBackends (rcBackends rc) k = Some bc"
    "newL7Backend G urlParse cbCfg (transportOf poolCfg) bc = Some b" for k bc b
    using staticBackends_addr [OF that(1)] newL7Backend_fresh [OF that(2)] by simp
qed (simp add: map_order_distinct [OF assms])

text \<open>
  C36: A pool built for a route has one backend per configured address whose URL parses, each
  made from the last entry for that address, unhealthy, without connections or accumulated
  smooth weight, and with a positive weight; whatever order Go iterates over the map in.
\<close>

theorem NewL7BackendPool_correct:
  assumes "map_order ord"
  shows "let bs = backends (NewL7BackendPool G urlParse ord rc cbCfg poolCfg) in
    distinct (map Addr bs)
    \<and> (\<forall>b\<in>set bs. \<exists>pre bc post. rcBackends rc = pre @ bc # post \<and> bcAddr bc \<notin> bcAddr ` set post \<and>
         Addr b = bcAddr bc \<and> Weight b = (if 0 <s bcWeight bc then bcWeight bc else 1) \<and>
         fresh b \<and> cb b = newBreaker G cbCfg (bcAddr bc))
    \<and> (\<forall>bc\<in>set (rcBackends rc).
         bcAddr bc \<in> Addr ` set bs \<longleftrightarrow> urlParse (''http://'' @ bcAddr bc) \<noteq> None)"
proof -
  let ?bs = "backends (NewL7BackendPool G urlParse ord rc cbCfg poolCfg)"
  have "\<exists>pre bc post. rcBackends rc = pre @ bc # post \<and> bcAddr bc \<notin> bcAddr ` set post \<and>
      Addr b = bcAddr bc \<and> Weight b = (if 0 <s bcWeight bc then bcWeight bc else 1) \<and>
      fresh b \<and> cb b = newBreaker G cbCfg (bcAddr bc)"
    if b: "b \<in> set ?bs" for b
  proof (rule l7_backend_origin [OF assms b])
    fix bc
    assume last: "staticBackends (rcBackends rc) (bcAddr bc) = Some bc"
      and new: "newL7Backend G urlParse cbCfg (transportOf poolCfg) bc = Some b"
    have "cb b = newBreaker G cbCfg (bcAddr bc)"
      using new by (auto simp: newL7Backend_def split: option.splits)
    with staticBackends_split [OF last] newL7Backend_fresh [OF new] show ?thesis
      unfolding effectiveWeight_def by blast
  qed
  then show ?thesis
    unfolding Let_def using l7_backends_distinct [OF assms] l7_backend_present [OF assms] by blast
qed

theorem NewL7BackendPool_correct_witness:
  "let bs = backends (NewL7BackendPool simpleBreaker Some rev
      \<lparr>rcHost = [], rcPath = ''/'', rcHeaders = [], rcStrategy = ''round-robin'',
       rcBackends = [\<lparr>bcAddr = ''a'', bcWeight = 2\<rparr>, \<lparr>bcAddr = ''b'', bcWeight = 0\<rparr>, \<lparr>bcAddr = ''a'', bcWeight = 7\<rparr>]\<rparr>
      None None)
   in distinct (map Addr bs) \<and> ''b'' \<in> Addr ` set bs"
proof -
  have "map_order rev" by (simp add: map_order_def)
  from NewL7BackendPool_correct [OF this, of simpleBreaker Some
      "\<lparr>rcHost = [], rcPath = ''/'', rcHeaders = [], rcStrategy = ''round-robin'',
       rcBackends = [\<lparr>bcAddr = ''a'', bcWeight = 2\<rparr>, \<lparr>bcAddr = ''b'', bcWeight = 0\<rparr>, \<lparr>bcAddr = ''a'', bcWeight = 7\<rparr>]\<rparr>"
      None None]
  show ?thesis by (simp add: Let_def)
qed

text \<open>
  C40: A tick of the health checks, in whatever order its goroutines run: afterwards a backend is
  healthy exactly if its dial succeeded, except that a backend whose circuit is open keeps its
  old health; nothing else of any backend changes.
\<close>

theorem tick_result:
  assumes "mset is = mset (tickChecks G p)"
  shows "backends (runChecks dial is p) =
    map (\<lambda>b. if circuitOpen G b then b else SetHealth (dial (Addr b)) b) (backends p)"
proof -
  have "tickChecks G p = filter (\<lambda>i. \<not> circuitOpen G (backends p ! i)) [0..<poolSize p]"
    unfolding tickChecks_def circuitOpen_def
    by (rule filter_cong) (auto split: option.splits)
  with assms have "mset is = mset (filter (\<lambda>i. \<not> circuitOpen G (backends p ! i)) [0..<poolSize p])" by simp
  note runChecks_map [OF this, of dial]
  also have "map (\<lambda>i. if \<not> circuitOpen G (backends p ! i)
        then SetHealth (dial (Addr (backends p ! i))) (backends p ! i) else backends p ! i) [0..<poolSize p]
      = map (\<lambda>b. if circuitOpen G b then b else SetHealth (dial (Addr b)) b) (map ((!) (backends p)) [0..<poolSize p])"
    by simp
  finally show ?thesis by (simp only: map_nth)
qed

theorem tick_result_witness:
  "map healthy (backends (runChecks (\<lambda>a. a = ''a'') [1, 0]
     (samplePool ''round-robin'' [plainBackend ''a'' False 1 0, plainBackend ''b'' True 1 0]))) = [True, False]"
proof -
  let ?p = "samplePool ''round-robin'' [plainBackend ''a'' False 1 0, plainBackend ''b'' True 1 0]"
  have "tickChecks simpleBreaker ?p = [0, 1]" by (simp add: tickChecks_def upt_rec)
  then have "mset [1, 0] = mset (tickChecks simpleBreaker ?p)" by simp
  from tick_result [OF this, of "\<lambda>a. a = ''a''"] show ?thesis
    by (simp add: circuitOpen_def SetHealth_frame)
qed

text \<open>
  The pool of a UDP listener, which has no health checks, starts with every backend healthy,
  that of a TCP listener with none; both have the configured strategy.
\<close>

theorem NewL4BackendPool_health:
  "(\<forall>b\<in>set (backends (NewL4BackendPool G ord l cbCfg)). IsHealthy b = (lcProtocol l = ''udp'') \<and>
      0 < sint (Weight b) \<and> connections b = 0)
   \<and> strategy (NewL4BackendPool G ord l cbCfg) = lcStrategy l"
  by (auto simp: NewL4BackendPool_def buildL4Backends_def collectBackends_in Let_def IsHealthy_def
      newL4Backend_def effectiveWeight_pos SetHealth_def)

end
