(* ===== verification/GoStrings.thy ===== *)
theory GoStrings
  imports Prelude "HOL-Library.Sublist"
begin

unbundle bit_operations_syntax

text \<open>
  The string and hash functions of Go's standard library that the balancer calls, on byte
  strings (\<open>string\<close> is a list of bytes, as in Go):
  \<open>net.SplitHostPort\<close> and \<open>net.JoinHostPort\<close> (the latter prints every \<open>RemoteAddr()\<close>),
  \<open>strings.HasPrefix\<close> and \<open>strings.TrimPrefix\<close>, \<open>strconv.Atoi\<close> on digit strings, the
  \<open>%d\<close> verb for unsigned numbers, \<open>hex.EncodeToString\<close> and the 32-bit FNV-1a hash of
  \<open>hash/fnv\<close>.  The main fact is the round trip of \<open>JoinHostPort\<close> and \<open>SplitHostPort\<close>.
\<close>

subsection \<open>net.SplitHostPort\<close>

fun indexByte :: "char \<Rightarrow> string \<Rightarrow> nat option" where
  "indexByte c [] = None"
| "indexByte c (x # xs) = (if x = c then Some 0 else map_option Suc (indexByte c xs))"

fun lastIndexByte :: "char \<Rightarrow> string \<Rightarrow> nat option" where
  "lastIndexByte c [] = None"
| "lastIndexByte c (x # xs) =
     (case lastIndexByte c xs of
        Some i \<Rightarrow> Some (Suc i)
      | None \<Rightarrow> if x = c then Some 0 else None)"

datatype addr_error = MissingPort | TooManyColons | MissingBracket | UnexpectedOpen | UnexpectedClose

definition brackets_ok :: "string \<Rightarrow> nat \<Rightarrow> nat \<Rightarrow> string \<Rightarrow> nat \<Rightarrow> addr_error + (string \<times> string)" where
  "brackets_ok hostport j k host i =
     (if indexByte (CHR ''['') (drop j hostport) \<noteq> None then Inl UnexpectedOpen
      else if indexByte (CHR '']'') (drop k hostport) \<noteq> None then Inl UnexpectedClose
      else Inr (host, drop (Suc i) hostport))"

definition SplitHostPort :: "string \<Rightarrow> addr_error + (string \<times> string)" where
  "SplitHostPort hostport =
     (case lastIndexByte (CHR '':'') hostport of
        None \<Rightarrow> Inl MissingPort
      | Some i \<Rightarrow>
          if hostport \<noteq> [] \<and> hd hostport = CHR ''['' then
            (case indexByte (CHR '']'') hostport of
               None \<Rightarrow> Inl MissingBracket
             | Some e \<Rightarrow>
                 if Suc e = length hostport then Inl MissingPort
                 else if Suc e = i then
                   brackets_ok hostport 1 (Suc e) (take (e - 1) (drop 1 hostport)) i
                 else if hostport ! Suc e = CHR '':'' then Inl TooManyColons
                 else Inl MissingPort)
          else
            (let host = take i hostport in
               if indexByte (CHR '':'') host \<noteq> None then Inl TooManyColons
               else brackets_ok hostport 0 0 host i))"

definition JoinHostPort :: "string \<Rightarrow> string \<Rightarrow> string" where
  "JoinHostPort host port =
     (if CHR '':'' \<in> set host then ''['' @ host @ '']:'' @ port else host @ '':'' @ port)"

text \<open>The first component of \<open>host, _, _ := net.SplitHostPort(a)\<close>, the empty string on an error.\<close>

definition splitHost :: "string \<Rightarrow> string" where
  "splitHost a = (case SplitHostPort a of Inl _ \<Rightarrow> [] | Inr (h, _) \<Rightarrow> h)"

lemma indexByte_None [simp]: "indexByte c s = None \<longleftrightarrow> c \<notin> set s"
  by (induction s) auto

lemma indexByte_append: "c \<notin> set s \<Longrightarrow> indexByte c (s @ c # t) = Some (length s)"
  by (induction s) auto

lemma lastIndexByte_None [simp]: "lastIndexByte c s = None \<longleftrightarrow> c \<notin> set s"
  by (induction s) (auto split: option.splits)

lemma lastIndexByte_absent [simp]: "c \<notin> set s \<Longrightarrow> lastIndexByte c s = None"
  by simp

lemma lastIndexByte_append: "c \<notin> set t \<Longrightarrow> lastIndexByte c (s @ c # t) = Some (length s)"
proof (induction s)
  case Nil
  then have "lastIndexByte c t = None" by simp
  then show ?case by simp
qed simp

text \<open>Hosts and ports as \<open>RemoteAddr()\<close> prints them.\<close>

definition plain_host :: "string \<Rightarrow> bool" where
  "plain_host h \<longleftrightarrow> CHR ''['' \<notin> set h \<and> CHR '']'' \<notin> set h"

definition plain_port :: "string \<Rightarrow> bool" where
  "plain_port p \<longleftrightarrow> CHR ''['' \<notin> set p \<and> CHR '']'' \<notin> set p \<and> CHR '':'' \<notin> set p"

lemma SplitHostPort_plain:
  assumes "plain_host h" and "plain_port p" and "CHR '':'' \<notin> set h"
  shows "SplitHostPort (h @ CHR '':'' # p) = Inr (h, p)"
proof -
  have "lastIndexByte (CHR '':'') (h @ CHR '':'' # p) = Some (length h)"
    using assms(2) by (intro lastIndexByte_append) (simp add: plain_port_def)
  moreover have "hd (h @ CHR '':'' # p) \<noteq> CHR ''[''"
    using assms(1) by (cases h) (auto simp: plain_host_def)
  ultimately show ?thesis
    using assms by (simp add: SplitHostPort_def brackets_ok_def plain_host_def plain_port_def)
qed

lemma SplitHostPort_bracketed:
  assumes "plain_host h" and "plain_port p"
  shows "SplitHostPort (CHR ''['' # h @ CHR '']'' # CHR '':'' # p) = Inr (h, p)"
proof -
  let ?s = "CHR ''['' # h @ CHR '']'' # CHR '':'' # p"
  have "lastIndexByte (CHR '':'') ((CHR ''['' # h @ [CHR '']'']) @ CHR '':'' # p)
      = Some (length (CHR ''['' # h @ [CHR '']'']))"
    using assms(2) by (intro lastIndexByte_append) (simp add: plain_port_def)
  then have last: "lastIndexByte (CHR '':'') ?s = Some (length h + 2)"
    by simp
  have "indexByte (CHR '']'') ((CHR ''['' # h) @ CHR '']'' # CHR '':'' # p)
      = Some (length (CHR ''['' # h))"
    using assms(1) by (intro indexByte_append) (simp add: plain_host_def)
  then have first: "indexByte (CHR '']'') ?s = Some (length h + 1)"
    by simp
  show ?thesis
    using assms by (simp add: SplitHostPort_def last first brackets_ok_def plain_host_def
        plain_port_def del: lastIndexByte.simps indexByte.simps)
qed

lemma SplitHostPort_JoinHostPort:
  "plain_host h \<Longrightarrow> plain_port p \<Longrightarrow> SplitHostPort (JoinHostPort h p) = Inr (h, p)"
  using SplitHostPort_plain SplitHostPort_bracketed by (simp add: JoinHostPort_def)

lemma splitHost_JoinHostPort [simp]:
  "plain_host h \<Longrightarrow> plain_port p \<Longrightarrow> splitHost (JoinHostPort h p) = h"
  by (simp add: splitHost_def SplitHostPort_JoinHostPort)

text \<open>A bare host (no port) is refused: IPv4 for its missing port, IPv6 for its colons.\<close>

lemma SplitHostPort_bare:
  assumes "plain_host h" and "CHR '':'' \<notin> set h"
  shows "SplitHostPort h = Inl MissingPort"
  using assms by (simp add: SplitHostPort_def)

lemma lastIndexByte_SomeD:
  "lastIndexByte c s = Some i \<Longrightarrow> i < length s \<and> s ! i = c \<and> c \<notin> set (drop (Suc i) s)"
proof (induction s arbitrary: i)
  case (Cons x s)
  show ?case
  proof (cases "lastIndexByte c s")
    case None
    with Cons.prems show ?thesis by (auto split: if_splits)
  next
    case (Some k)
    with Cons.prems Cons.IH [OF Some] show ?thesis by auto
  qed
qed simp

text \<open>A bare IPv6 host has at least two colons.\<close>

definition two_colons :: "string \<Rightarrow> bool" where
  "two_colons h \<longleftrightarrow> 2 \<le> count_list h (CHR '':'')"

lemma SplitHostPort_bare6:
  assumes "plain_host h" and "two_colons h"
  shows "SplitHostPort h = Inl TooManyColons"
proof -
  have "count_list h (CHR '':'') \<noteq> 0" using assms(2) by (simp add: two_colons_def)
  then have "CHR '':'' \<in> set h" by (simp add: count_list_0_iff)
  then obtain i where i: "lastIndexByte (CHR '':'') h = Some i"
    using lastIndexByte_None by (cases "lastIndexByte (CHR '':'') h") auto
  from lastIndexByte_SomeD [OF i]
  have after: "CHR '':'' \<notin> set (drop (Suc i) h)" by simp
  from lastIndexByte_SomeD [OF i] have split: "h = take i h @ CHR '':'' # drop (Suc i) h"
    by (metis id_take_nth_drop)
  have "count_list h (CHR '':'') = Suc (count_list (take i h) (CHR '':''))"
    using after by (subst split) (simp add: count_list_0_iff)
  with assms(2) have "CHR '':'' \<in> set (take i h)"
    by (metis One_nat_def Suc_1 count_list_0_iff not_less_eq_eq order_refl two_colons_def zero_le)
  moreover have "h \<noteq> []" and "hd h \<noteq> CHR ''[''"
    using assms(1) \<open>CHR '':'' \<in> set h\<close> by (cases h; auto simp: plain_host_def)+
  ultimately show ?thesis by (simp add: SplitHostPort_def i)
qed

subsection \<open>Prefixes, numbers, hexadecimal\<close>

definition HasPrefix :: "string \<Rightarrow> string \<Rightarrow> bool" where
  "HasPrefix s p \<longleftrightarrow> length p \<le> length s \<and> take (length p) s = p"

definition TrimPrefix :: "string \<Rightarrow> string \<Rightarrow> string" where
  "TrimPrefix s p = (if HasPrefix s p then drop (length p) s else s)"

lemma HasPrefix_iff: "HasPrefix s p \<longleftrightarrow> prefix p s"
proof
  assume "HasPrefix s p"
  then have "s = p @ drop (length p) s"
    by (metis HasPrefix_def append_take_drop_id)
  then show "prefix p s" by (metis prefixI)
qed (auto simp: HasPrefix_def prefix_def)

lemma TrimPrefix_append [simp]: "TrimPrefix (p @ s) p = s"
  by (simp add: TrimPrefix_def HasPrefix_def)

lemma TrimPrefix_same_iff: "p \<noteq> [] \<Longrightarrow> TrimPrefix s p = s \<longleftrightarrow> \<not> HasPrefix s p"
  using TrimPrefix_append [of p]
  by (metis HasPrefix_iff TrimPrefix_def append_self_conv2 prefix_def)

definition digit_char :: "nat \<Rightarrow> char" where
  "digit_char d = char_of (48 + d)"

definition char_digit :: "char \<Rightarrow> nat" where
  "char_digit c = of_char c - 48"

fun printDec :: "nat \<Rightarrow> string" where
  "printDec n = (if n < 10 then [digit_char n] else printDec (n div 10) @ [digit_char (n mod 10)])"

declare printDec.simps [simp del]

definition decValue :: "string \<Rightarrow> nat" where
  "decValue s = foldl (\<lambda>a c. 10 * a + char_digit c) 0 s"

text \<open>
  \<open>strconv.Atoi\<close> on a non-empty string of digits (the admin router only lets \<open>[0-9]+\<close>
  through): the value, or a range error beyond the largest \<open>int\<close>.
\<close>

definition Atoi :: "string \<Rightarrow> int option" where
  "Atoi s =
     (if s = [] \<or> \<not> list_all (\<lambda>c. 48 \<le> (of_char c :: nat) \<and> (of_char c :: nat) \<le> 57) s then None
      else if decValue s < 2 ^ 63 then Some (int (decValue s)) else None)"

lemma char_digit_digit_char [simp]: "d < 10 \<Longrightarrow> char_digit (digit_char d) = d"
  by (simp add: char_digit_def digit_char_def)

lemma decValue_snoc: "decValue (s @ [c]) = 10 * decValue s + char_digit c"
  by (simp add: decValue_def)

lemma decValue_printDec [simp]: "decValue (printDec n) = n"
proof (induction n rule: printDec.induct)
  case (1 n)
  show ?case
  proof (cases "n < 10")
    case True
    then show ?thesis by (simp add: printDec.simps [of n] decValue_def)
  next
    case False
    with 1 have "decValue (printDec (n div 10)) = n div 10" by simp
    with False show ?thesis by (simp add: printDec.simps [of n] decValue_snoc)
  qed
qed

lemma printDec_digits:
  "printDec n \<noteq> [] \<and> list_all (\<lambda>c. 48 \<le> (of_char c :: nat) \<and> (of_char c :: nat) \<le> 57) (printDec n)"
proof (induction n rule: printDec.induct)
  case (1 n)
  have "48 \<le> (of_char (digit_char d) :: nat) \<and> (of_char (digit_char d) :: nat) \<le> 57" if "d < 10" for d
    using that by (simp add: digit_char_def)
  with 1 show ?case
    by (cases "n < 10") (simp_all add: printDec.simps [of n])
qed

lemma Atoi_printDec: "n < 2 ^ 63 \<Longrightarrow> Atoi (printDec n) = Some (int n)"
  using printDec_digits [of n] by (simp add: Atoi_def)

lemma Atoi_nonneg: "Atoi s = Some n \<Longrightarrow> 0 \<le> n \<and> n < 2 ^ 63"
  by (auto simp: Atoi_def split: if_splits)

definition hexDigit :: "nat \<Rightarrow> char" where
  "hexDigit d = (if d < 10 then char_of (48 + d) else char_of (87 + d))"

definition hexEncode :: "u8 list \<Rightarrow> string" where
  "hexEncode bs = concat (map (\<lambda>b. [hexDigit (unat b div 16), hexDigit (unat b mod 16)]) bs)"

lemma hexEncode_length: "length (hexEncode bs) = 2 * length bs"
  by (induction bs) (simp_all add: hexEncode_def)

subsection \<open>hash/fnv: FNV-1a, 32 bits\<close>

definition fnvStep :: "u32 \<Rightarrow> char \<Rightarrow> u32" where
  "fnvStep h c = (h XOR word_of_nat (of_char c)) * 16777619"

definition fnv32a :: "string \<Rightarrow> u32" where
  "fnv32a s = foldl fnvStep 2166136261 s"

lemma fnv32a_empty: "fnv32a '''' = 0x811c9dc5"
  by (simp add: fnv32a_def)

lemma fnv32a_a: "fnv32a ''a'' = 0xe40c292c"
  by code_simp

lemma fnv32a_foobar: "fnv32a ''foobar'' = 0xbf9cf968"
  by code_simp

end
