(* ===== verification/GoFloat.thy ===== *)
theory GoFloat
  imports Complex_Main Prelude "HOL-Library.Log_Nat"
begin

text \<open>
  The part of Go's \<open>float64\<close> arithmetic that weighted least-connections uses: the conversion
  of integers and one division, both correctly rounded (round half to even, 53 significant
  bits).  The quotients that occur lie between \<open>2 powi -63\<close> and \<open>2 powi 64\<close> in absolute value,
  where no binary64 number is subnormal or infinite, so rounding is a function on rationals:
  \<open>float64\<close>.  The facts the selection needs are that rounding is monotone
  (\<open>float64_mono\<close>) and that two different fractions with small enough terms stay different
  (\<open>float64_separates\<close>).
\<close>

subsection \<open>Round half to even\<close>

definition rne :: "rat \<Rightarrow> int" where
  "rne x =
     (let f = \<lfloor>x\<rfloor>; d = x - of_int f in
        if d < 1/2 then f else if 1/2 < d then f + 1 else if even f then f else f + 1)"

lemma rne_bounds: "of_int (rne x) - 1/2 \<le> x \<and> x \<le> of_int (rne x) + 1/2"
proof -
  have b: "of_int \<lfloor>x\<rfloor> \<le> x" "x < of_int \<lfloor>x\<rfloor> + 1" by linarith+
  have "(x - of_int \<lfloor>x\<rfloor> \<le> 1/2 \<and> rne x = \<lfloor>x\<rfloor>) \<or> (1/2 \<le> x - of_int \<lfloor>x\<rfloor> \<and> rne x = \<lfloor>x\<rfloor> + 1)"
    by (auto simp: rne_def Let_def)
  then show ?thesis
  proof
    assume "x - of_int \<lfloor>x\<rfloor> \<le> 1/2 \<and> rne x = \<lfloor>x\<rfloor>"
    with b show ?thesis by (simp only:) linarith
  next
    assume "1/2 \<le> x - of_int \<lfloor>x\<rfloor> \<and> rne x = \<lfloor>x\<rfloor> + 1"
    with b show ?thesis by (simp only: of_int_add of_int_1) linarith
  qed
qed

lemma rne_of_int [simp]: "rne (of_int n) = n"
  by (simp add: rne_def)

lemma rne_cases: "rne x = \<lfloor>x\<rfloor> \<or> rne x = \<lfloor>x\<rfloor> + 1"
  by (auto simp: rne_def Let_def)

lemma rne_mono: "x \<le> y \<Longrightarrow> rne x \<le> rne y"
proof -
  assume le: "x \<le> y"
  have fl: "\<lfloor>x\<rfloor> \<le> \<lfloor>y\<rfloor>" using le by (rule floor_mono)
  show ?thesis
  proof (cases "\<lfloor>x\<rfloor> = \<lfloor>y\<rfloor>")
    case True
    with le show ?thesis by (auto simp: rne_def Let_def)
  next
    case False
    with fl have "\<lfloor>x\<rfloor> + 1 \<le> \<lfloor>y\<rfloor>" by simp
    with rne_cases [of x] rne_cases [of y] show ?thesis by linarith
  qed
qed

subsection \<open>The binary exponent\<close>

definition binexp :: "rat \<Rightarrow> int" where
  "binexp x =
     (case quotient_of x of (p, q) \<Rightarrow>
        let e = int (floorlog 2 (nat p)) - int (floorlog 2 (nat q))
        in if 2 powi e \<le> x then e else e - 1)"

definition round53 :: "rat \<Rightarrow> rat" where
  "round53 x = (let e = binexp x - 52 in of_int (rne (x / 2 powi e)) * 2 powi e)"

definition float64 :: "rat \<Rightarrow> rat" where
  "float64 x = (if x = 0 then 0 else if 0 < x then round53 x else - round53 (- x))"

definition fdiv :: "rat \<Rightarrow> rat \<Rightarrow> rat" where
  "fdiv x y = float64 (x / y)"

lemma floorlog2_bounds:
  assumes "0 < n"
  shows "(2::rat) powi (int (floorlog 2 n) - 1) \<le> of_nat n" and "(of_nat n :: rat) < 2 powi int (floorlog 2 n)"
proof -
  have "2 ^ (floorlog 2 n - 1) \<le> n \<and> n < 2 ^ floorlog 2 n"
    using floorlog_bounds [of n 2] assms by simp
  moreover have "0 < floorlog 2 n"
    using assms by (simp add: floorlog_def)
  ultimately have "(2::rat) ^ (floorlog 2 n - 1) \<le> of_nat n" "(of_nat n :: rat) < 2 ^ floorlog 2 n"
    and "int (floorlog 2 n) - 1 = int (floorlog 2 n - 1)"
    by (metis of_nat_le_iff of_nat_power of_nat_numeral, metis of_nat_less_iff of_nat_power of_nat_numeral, simp)
  then show "(2::rat) powi (int (floorlog 2 n) - 1) \<le> of_nat n" "(of_nat n :: rat) < 2 powi int (floorlog 2 n)"
    by (simp_all only: power_int_of_nat)
qed

lemma binexp_bounds:
  assumes "0 < x"
  shows "2 powi binexp x \<le> x \<and> x < 2 powi (binexp x + 1)"
proof -
  obtain p q where pq: "quotient_of x = (p, q)" by fastforce
  have q: "0 < q" using quotient_of_denom_pos [OF pq] .
  have x: "x = of_int p / of_int q" using quotient_of_div [OF pq] .
  with assms q have p: "0 < p" by (simp add: zero_less_divide_iff)
  let ?lp = "int (floorlog 2 (nat p))" and ?lq = "int (floorlog 2 (nat q))"
  have bp: "(2::rat) powi (?lp - 1) \<le> of_int p" "(of_int p :: rat) < 2 powi ?lp"
    using floorlog2_bounds [of "nat p"] p by simp_all
  have bq: "(2::rat) powi (?lq - 1) \<le> of_int q" "(of_int q :: rat) < 2 powi ?lq"
    using floorlog2_bounds [of "nat q"] q by simp_all
  have "x < 2 powi ?lp / 2 powi (?lq - 1)"
    unfolding x using bp bq p q by (intro frac_less) auto
  then have up: "x < 2 powi (?lp - ?lq + 1)"
    by (simp add: power_int_diff power_int_add)
  have "2 powi (?lp - 1) / 2 powi ?lq < x"
    unfolding x using bp bq p q by (intro frac_less2) auto
  then have low: "2 powi (?lp - ?lq - 1) \<le> x"
    by (simp add: power_int_diff)
  show ?thesis
    using up low by (auto simp: binexp_def pq Let_def not_le)
qed

lemma powi2_less: "m < n \<Longrightarrow> (2::rat) powi m < 2 powi n"
  by (simp add: power_int_strict_increasing)

lemma powi2_le_iff: "(2::rat) powi m \<le> 2 powi n \<longleftrightarrow> m \<le> n"
  by (metis linorder_not_less nle_le one_less_numeral_iff powi2_less semiring_norm(76))

lemma binexp_mono: "0 < x \<Longrightarrow> x \<le> y \<Longrightarrow> binexp x \<le> binexp y"
proof -
  assume "0 < x" and "x \<le> y"
  then have "(2::rat) powi binexp x < 2 powi (binexp y + 1)"
    using binexp_bounds [of x] binexp_bounds [of y] by linarith
  then show ?thesis using powi2_le_iff [of "binexp y + 1" "binexp x"] by linarith
qed

subsection \<open>Rounding to 53 bits\<close>

lemma round53_bounds:
  assumes "0 < x"
  shows "2 powi binexp x \<le> round53 x" and "round53 x \<le> 2 powi (binexp x + 1)"
proof -
  let ?e = "binexp x - 52"
  have pos: "(0::rat) < 2 powi ?e" by simp
  have s1: "(2::rat) powi binexp x = of_int (2 ^ 52) * 2 powi ?e"
    and s2: "(2::rat) powi (binexp x + 1) = of_int (2 ^ 53) * 2 powi ?e"
    by (simp_all add: power_int_diff power_int_add)
  have "of_int (2 ^ 52) \<le> x / 2 powi ?e" "x / 2 powi ?e \<le> of_int (2 ^ 53)"
    using binexp_bounds [OF assms] pos by (simp_all only: s1 s2 pos_le_divide_eq pos_divide_le_eq) auto
  then have "2 ^ 52 \<le> rne (x / 2 powi ?e)" "rne (x / 2 powi ?e) \<le> 2 ^ 53"
    by (metis rne_mono rne_of_int)+
  then show "2 powi binexp x \<le> round53 x" "round53 x \<le> 2 powi (binexp x + 1)"
    unfolding round53_def Let_def s1 s2 using pos
    by (auto intro!: mult_right_mono simp del: of_int_power of_int_numeral)
qed

lemma round53_mono:
  assumes "0 < x" and "x \<le> y"
  shows "round53 x \<le> round53 y"
proof (cases "binexp x = binexp y")
  case True
  let ?e = "binexp y - 52"
  have "rne (x / 2 powi ?e) \<le> rne (y / 2 powi ?e)"
    using assms by (intro rne_mono divide_right_mono) auto
  with True show ?thesis by (simp add: round53_def Let_def)
next
  case False
  with binexp_mono [OF assms] have "binexp x + 1 \<le> binexp y" by simp
  then have "(2::rat) powi (binexp x + 1) \<le> 2 powi binexp y" by (simp only: powi2_le_iff)
  with round53_bounds(2) [of x] round53_bounds(1) [of y] assms show ?thesis by linarith
qed

lemma round53_pos: "0 < x \<Longrightarrow> 0 < round53 x"
  using round53_bounds(1) [of x] zero_less_power_int [of "2::rat" "binexp x"] by linarith

lemma float64_pos: "0 < x \<Longrightarrow> float64 x = round53 x"
  by (simp add: float64_def)

lemma float64_mono: "x \<le> y \<Longrightarrow> float64 x \<le> float64 y"
  using round53_mono [of x y] round53_mono [of "- y" "- x"] round53_pos [of y] round53_pos [of "- x"]
  by (auto simp: float64_def)

lemma float64_zero [simp]: "float64 0 = 0"
  by (simp add: float64_def)

lemma float64_of_nat:
  assumes "n \<le> 2 ^ 53"
  shows "float64 (of_nat n) = of_nat n"
proof (cases "n = 0")
  case False
  let ?x = "of_nat n :: rat" and ?e = "binexp (of_nat n) - 52"
  from False have pos: "0 < ?x" by simp
  have "?x \<le> of_nat (2 ^ 53)" using assms by (rule of_nat_mono)
  then have "(2::rat) powi binexp ?x \<le> 2 powi 53" using binexp_bounds [OF pos] by simp
  then have e: "binexp ?x \<le> 53" by (simp only: powi2_le_iff)
  have "\<exists>k::int. ?x / 2 powi ?e = of_int k"
  proof (cases "?e \<le> 0")
    case True
    then obtain m where "?e = - int m" by (metis nonpos_int_cases)
    then have "?x / 2 powi ?e = of_int (int n * 2 ^ m)" by (simp add: power_int_minus divide_inverse)
    then show ?thesis by blast
  next
    case False
    with e have "binexp ?x = 53" by simp
    with binexp_bounds [OF pos] have "(2::rat) powi 53 \<le> ?x" by simp
    with \<open>?x \<le> of_nat (2 ^ 53)\<close> have "?x = 2 ^ 53" by simp
    with \<open>binexp ?x = 53\<close> have "?x / 2 powi ?e = of_int (2 ^ 52)" by simp
    then show ?thesis by blast
  qed
  then obtain k :: int where "?x / 2 powi ?e = of_int k" by blast
  then have "round53 ?x = of_int k * 2 powi ?e" by (simp add: round53_def)
  also have "\<dots> = ?x" using \<open>?x / 2 powi ?e = of_int k\<close> by (simp add: field_simps)
  finally show ?thesis using False by (simp add: float64_def)
qed simp

text \<open>Rounding moves a number by at most half a unit in the last place.\<close>

lemma round53_error:
  assumes "0 < x"
  shows "\<bar>round53 x - x\<bar> \<le> 2 powi (binexp x - 53)"
proof -
  let ?e = "binexp x - 52"
  have pos: "(0::rat) < 2 powi ?e" by simp
  let ?q = "x / 2 powi ?e"
  have "\<bar>of_int (rne ?q) - ?q\<bar> \<le> 1/2" using rne_bounds [of ?q] by linarith
  then have "\<bar>of_int (rne ?q) - ?q\<bar> * 2 powi ?e \<le> 1/2 * 2 powi ?e"
    using pos by (intro mult_right_mono) auto
  moreover have "round53 x - x = (of_int (rne ?q) - ?q) * 2 powi ?e"
    using pos by (simp only: round53_def Let_def left_diff_distrib) simp
  then have "\<bar>of_int (rne ?q) - ?q\<bar> * 2 powi ?e = \<bar>round53 x - x\<bar>"
    using pos by (simp only: abs_mult abs_of_pos)
  moreover have "1/2 * (2::rat) powi ?e = 2 powi (binexp x - 53)"
    by (simp add: power_int_diff)
  ultimately show ?thesis by simp
qed

text \<open>
  Two different fractions \<open>a / b < c / d\<close> with \<open>c * b < 2 ^ 52\<close> are still
  different, and in the same order, after rounding.
\<close>

lemma float64_separates:
  fixes a b c d :: nat
  assumes "0 < b" and "0 < d" and "a * d < c * b" and "c * b < 2 ^ 52"
  shows "float64 (of_nat a / of_nat b) < float64 (of_nat c / of_nat d)"
proof -
  let ?x = "of_nat a / of_nat b :: rat" and ?y = "of_nat c / of_nat d :: rat"
  have c: "0 < c" using assms(3) by (cases c) auto
  then have y: "0 < ?y" using assms(2) by simp
  have "(of_nat (a * d) :: rat) < of_nat (c * b)" using assms(3) by (simp only: of_nat_less_iff)
  then have xy: "?x < ?y" using assms(1,2) by (simp add: frac_less_eq field_simps)
  show ?thesis
  proof (cases "a = 0")
    case True
    with c assms(2) round53_pos [OF y] show ?thesis by (simp add: float64_def)
  next
    case False
    then have x: "0 < ?x" using assms(1) by simp
    show ?thesis
    proof (rule ccontr)
      assume "\<not> ?thesis"
      with float64_mono [of ?x ?y] xy have eq: "round53 ?x = round53 ?y"
        by (simp only: float64_pos [OF x] float64_pos [OF y]) simp
      have "?y - ?x \<le> \<bar>round53 ?y - ?y\<bar> + \<bar>round53 ?x - ?x\<bar>"
        using eq by linarith
      also have "\<dots> \<le> 2 powi (binexp ?y - 53) + 2 powi (binexp ?x - 53)"
        using round53_error [OF x] round53_error [OF y] by linarith
      also have "\<dots> \<le> 2 * 2 powi (binexp ?y - 53)"
        using binexp_mono [OF x] xy by (simp add: powi2_le_iff)
      also have "\<dots> = 2 powi binexp ?y / 2 ^ 52"
        by (simp add: power_int_diff)
      also have "\<dots> \<le> ?y / 2 ^ 52"
        using binexp_bounds [OF y] by (simp add: divide_right_mono)
      finally have le: "?y - ?x \<le> ?y / 2 ^ 52" .
      have bd: "(0::rat) < of_nat b * of_nat d" using assms(1,2) by simp
      have "(?y - ?x) * (of_nat b * of_nat d) * 2 ^ 52 \<le> ?y / 2 ^ 52 * (of_nat b * of_nat d) * 2 ^ 52"
        using le bd by (intro mult_right_mono) auto
      also have "(?y - ?x) * (of_nat b * of_nat d) = of_nat (c * b) - of_nat (a * d)"
        using assms(1,2) by (simp add: field_simps)
      also have "?y / 2 ^ 52 * (of_nat b * of_nat d) * 2 ^ 52 = of_nat (c * b)"
        using assms(1,2) by (simp add: field_simps)
      finally have gap: "(of_nat (c * b) - of_nat (a * d)) * 2 ^ 52 \<le> (of_nat (c * b) :: rat)" .
      have "(1::rat) \<le> of_nat (c * b) - of_nat (a * d)"
      proof -
        from assms(3) have "a * d + 1 \<le> c * b" by simp
        then have "(of_nat (a * d + 1) :: rat) \<le> of_nat (c * b)" by (simp only: of_nat_le_iff)
        then show ?thesis by simp
      qed
      then have "1 * 2 ^ 52 \<le> (of_nat (c * b) - of_nat (a * d)) * (2 ^ 52 :: rat)"
        by (rule mult_right_mono) simp
      with gap have "(2 ^ 52 :: rat) \<le> of_nat (c * b)" by linarith
      moreover have "(of_nat (c * b) :: rat) < of_nat (2 ^ 52)" using assms(4) by (simp only: of_nat_less_iff)
      ultimately show False by simp
    qed
  qed
qed

lemma float64_third: "fdiv 1 3 = 6004799503160661 / 2 ^ 54"
  by code_simp

end
