(* ===== verification/Strategy.thy ===== *)
theory Strategy
  imports Backend GoStrings GoFloat
begin

text \<open>
  \<open>internal/lb/strategy.go\<close>: the five ways a pool picks the backend of a request, and the
  dispatcher \<open>GetNextBackend\<close>.  A returned pointer is the index of the backend in the pool;
  \<open>None\<close> is \<open>nil\<close>.  A strategy returns the pool too, because round robin moves the shared
  counter and weighted round robin the smooth weights.

  \<^item> The loops are recursions over the remaining backends with the loop variables as arguments.
  \<^item> \<open>uint64(len(p.backends))\<close> is exact, a slice length fits an \<open>int\<close>; so the remainder of the
    counter is taken on the numbers the words stand for.
  \<^item> \<open>math.Inf(1)\<close>, the initial minimum of weighted least-connections, is \<open>None\<close>; every score
    is finite.

  The interface of a strategy is the locale \<open>selector\<close>, with \<open>complete_selector\<close> for the
  strategies that find an available backend whenever there is one; each strategy and
  \<open>GetNextBackend\<close> interpret it, and the handlers rest on those interpretations.
\<close>

subsection \<open>Least connections\<close>

fun leastConns_loop ::
  "'cb gobreaker \<Rightarrow> 'cb Backend list \<Rightarrow> nat \<Rightarrow> nat option \<Rightarrow> u64 \<Rightarrow> nat option" where
  "leastConns_loop G [] i bestBackend minConnections = bestBackend"
| "leastConns_loop G (b # bs) i bestBackend minConnections =
     (if \<not> available G b then leastConns_loop G bs (Suc i) bestBackend minConnections
      else if GetConnections b < minConnections
      then leastConns_loop G bs (Suc i) (Some i) (GetConnections b)
      else leastConns_loop G bs (Suc i) bestBackend minConnections)"

definition GetNextBackendByLeastConns :: "'cb gobreaker \<Rightarrow> 'cb BackendPool \<Rightarrow> nat option" where
  "GetNextBackendByLeastConns G p = leastConns_loop G (backends p) 0 None (- 1)"

subsection \<open>Weighted least connections\<close>

definition wlcScore :: "'cb Backend \<Rightarrow> rat" where
  "wlcScore b =
     (let conns = float64 (of_nat (unat (GetConnections b)));
          weight = float64 (of_int (sint (Weight b)));
          weight = (if weight = 0 then 1 else weight)
      in fdiv conns weight)"

fun wlc_loop ::
  "'cb gobreaker \<Rightarrow> 'cb Backend list \<Rightarrow> nat \<Rightarrow> nat option \<Rightarrow> rat option \<Rightarrow> nat option" where
  "wlc_loop G [] i bestBackend minScore = bestBackend"
| "wlc_loop G (b # bs) i bestBackend minScore =
     (if \<not> available G b then wlc_loop G bs (Suc i) bestBackend minScore
      else if (case minScore of None \<Rightarrow> True | Some m \<Rightarrow> wlcScore b < m)
      then wlc_loop G bs (Suc i) (Some i) (Some (wlcScore b))
      else wlc_loop G bs (Suc i) bestBackend minScore)"

definition GetNextBackendByWeightedLeastConns :: "'cb gobreaker \<Rightarrow> 'cb BackendPool \<Rightarrow> nat option" where
  "GetNextBackendByWeightedLeastConns G p = wlc_loop G (backends p) 0 None None"

subsection \<open>Hash of the client address\<close>

definition healthyIndices :: "'cb gobreaker \<Rightarrow> 'cb BackendPool \<Rightarrow> nat list" where
  "healthyIndices G p = filter (\<lambda>i. available G (backends p ! i)) [0..<poolSize p]"

definition GetNextBackendByIP :: "'cb gobreaker \<Rightarrow> string \<Rightarrow> 'cb BackendPool \<Rightarrow> nat option" where
  "GetNextBackendByIP G ip p =
     (let healthyBackends = healthyIndices G p in
        if healthyBackends = [] then None
        else Some (healthyBackends ! (unat (fnv32a ip) mod length healthyBackends)))"

subsection \<open>Round robin\<close>

text \<open>The loop with \<open>k\<close> rounds left; each adds one to the shared counter.\<close>

fun roundRobin_loop :: "'cb gobreaker \<Rightarrow> 'cb Backend list \<Rightarrow> u64 \<Rightarrow> nat \<Rightarrow> u64 \<times> nat option" where
  "roundRobin_loop G bs cur 0 = (cur, None)"
| "roundRobin_loop G bs cur (Suc k) =
     (let cur' = cur + 1; index = unat cur' mod length bs in
        if available G (bs ! index) then (cur', Some index)
        else roundRobin_loop G bs cur' k)"

definition GetNextBackendByRoundRobin ::
  "'cb gobreaker \<Rightarrow> 'cb BackendPool \<Rightarrow> 'cb BackendPool \<times> nat option" where
  "GetNextBackendByRoundRobin G p =
     (if poolSize p = 0 then (p, None)
      else case roundRobin_loop G (backends p) (current p) (poolSize p) of
             (cur, r) \<Rightarrow> (p\<lparr>current := cur\<rparr>, r))"

subsection \<open>Smooth weighted round robin\<close>

definition bump :: "'cb Backend \<Rightarrow> 'cb Backend" where
  "bump b = b\<lparr>CurrentWeight := CurrentWeight b + Weight b\<rparr>"

fun wrr_loop ::
  "'cb gobreaker \<Rightarrow> nat list \<Rightarrow> 'cb Backend list \<Rightarrow> nat option \<Rightarrow> go_int
     \<Rightarrow> 'cb Backend list \<times> nat option \<times> go_int" where
  "wrr_loop G [] bs bestBackend totalWeight = (bs, bestBackend, totalWeight)"
| "wrr_loop G (i # is) bs bestBackend totalWeight =
     (if \<not> available G (bs ! i) then wrr_loop G is bs bestBackend totalWeight
      else
        (let bs = bs[i := bump (bs ! i)];
             totalWeight = totalWeight + Weight (bs ! i);
             bestBackend =
               (case bestBackend of
                  None \<Rightarrow> Some i
                | Some j \<Rightarrow> if CurrentWeight (bs ! j) <s CurrentWeight (bs ! i) then Some i
                            else bestBackend)
         in wrr_loop G is bs bestBackend totalWeight))"

definition GetNextBackendByWeightedRoundRobin ::
  "'cb gobreaker \<Rightarrow> 'cb BackendPool \<Rightarrow> 'cb BackendPool \<times> nat option" where
  "GetNextBackendByWeightedRoundRobin G p =
     (case wrr_loop G [0..<poolSize p] (backends p) None 0 of
        (bs, None, _) \<Rightarrow> (p\<lparr>backends := bs\<rparr>, None)
      | (bs, Some i, totalWeight) \<Rightarrow>
          (p\<lparr>backends := bs[i := (bs ! i)\<lparr>CurrentWeight := CurrentWeight (bs ! i) - totalWeight\<rparr>]\<rparr>,
           Some i))"

subsection \<open>The dispatcher\<close>

definition GetNextBackend ::
  "'cb gobreaker \<Rightarrow> string \<Rightarrow> 'cb BackendPool \<Rightarrow> 'cb BackendPool \<times> nat option" where
  "GetNextBackend G clientIP p =
     (if strategy p = ''ip-hash'' then
        (if clientIP = [] then GetNextBackendByRoundRobin G p
         else
           (let clientIP = (case SplitHostPort clientIP of Inr (host, _) \<Rightarrow> host | Inl _ \<Rightarrow> clientIP)
            in (p, GetNextBackendByIP G clientIP p)))
      else if strategy p = ''least-connections'' then (p, GetNextBackendByLeastConns G p)
      else if strategy p = ''weighted-least-connections'' then
        (p, GetNextBackendByWeightedLeastConns G p)
      else if strategy p = ''weighted-round-robin'' then GetNextBackendByWeightedRoundRobin G p
      else GetNextBackendByRoundRobin G p)"

subsection \<open>What each loop computes\<close>

text \<open>An index of a backend that may be picked.\<close>

definition availableAt :: "'cb gobreaker \<Rightarrow> 'cb BackendPool \<Rightarrow> nat \<Rightarrow> bool" where
  "availableAt G p i \<longleftrightarrow> i < poolSize p \<and> available G (backends p ! i)"

lemma leastConns_loop_spec:
  assumes "argmin_ok (\<lambda>b. available G b \<and> connections b \<noteq> - 1) connections pre best"
    and "minc = (case best of None \<Rightarrow> - 1 | Some i \<Rightarrow> connections (pre ! i))"
  shows "argmin_ok (\<lambda>b. available G b \<and> connections b \<noteq> - 1) connections (pre @ bs)
           (leastConns_loop G bs (length pre) best minc)"
  using assms
proof (induction bs arbitrary: pre best minc)
  case (Cons b bs)
  let ?P = "\<lambda>b. available G b \<and> connections b \<noteq> - 1"
  let ?better = "?P b \<and> (case best of None \<Rightarrow> True | Some i \<Rightarrow> connections b < connections (pre ! i))"
  let ?best' = "if ?better then Some (length pre) else best"
  let ?minc' = "if ?better then connections b else minc"
  have top: "connections b \<noteq> - 1 \<longleftrightarrow> connections b < - 1"
    by (metis not_less_iff_gr_or_eq word_order.not_eq_extremum)
  have below: "connections b < x \<Longrightarrow> connections b \<noteq> - 1" for x :: u64
    by (metis word_order.extremum_strict)
  have cond: "?better \<longleftrightarrow> available G b \<and> GetConnections b < minc"
    using Cons.prems(2) top below by (cases best) (auto simp: GetConnections_def)
  have "leastConns_loop G (b # bs) (length pre) best minc
      = leastConns_loop G bs (length (pre @ [b])) ?best' ?minc'"
    using cond by (simp add: GetConnections_def)
  moreover have "argmin_ok ?P connections (pre @ [b]) ?best'"
    by (rule argmin_ok_snoc [OF Cons.prems(1)])
  moreover have "?minc' = (case ?best' of None \<Rightarrow> - 1 | Some i \<Rightarrow> connections ((pre @ [b]) ! i))"
    using Cons.prems argmin_ok_SomeD(1) [of ?P connections pre]
    by (cases best) (auto simp: nth_append)
  ultimately show ?case using Cons.IH [of "pre @ [b]" ?best' ?minc'] by simp
qed simp

lemma leastConns_spec:
  "argmin_ok (\<lambda>b. available G b \<and> connections b \<noteq> - 1) connections (backends p)
     (GetNextBackendByLeastConns G p)"
  using leastConns_loop_spec [of G "[]" None "- 1" "backends p"]
  by (simp add: GetNextBackendByLeastConns_def)

lemma wlc_loop_spec:
  assumes "argmin_ok (available G) wlcScore pre best"
    and "mins = (case best of None \<Rightarrow> None | Some i \<Rightarrow> Some (wlcScore (pre ! i)))"
  shows "argmin_ok (available G) wlcScore (pre @ bs) (wlc_loop G bs (length pre) best mins)"
  using assms
proof (induction bs arbitrary: pre best mins)
  case (Cons b bs)
  let ?better = "available G b \<and> (case best of None \<Rightarrow> True | Some i \<Rightarrow> wlcScore b < wlcScore (pre ! i))"
  let ?best' = "if ?better then Some (length pre) else best"
  let ?mins' = "if ?better then Some (wlcScore b) else mins"
  have "wlc_loop G (b # bs) (length pre) best mins = wlc_loop G bs (length (pre @ [b])) ?best' ?mins'"
    using Cons.prems(2) by (cases best) auto
  moreover have "argmin_ok (available G) wlcScore (pre @ [b]) ?best'"
    by (rule argmin_ok_snoc [OF Cons.prems(1)])
  moreover have "?mins' = (case ?best' of None \<Rightarrow> None | Some i \<Rightarrow> Some (wlcScore ((pre @ [b]) ! i)))"
    using Cons.prems argmin_ok_SomeD(1) [of "available G" wlcScore pre]
    by (cases best) (auto simp: nth_append)
  ultimately show ?case using Cons.IH [of "pre @ [b]" ?best' ?mins'] by simp
qed simp

lemma wlc_spec:
  "argmin_ok (available G) wlcScore (backends p) (GetNextBackendByWeightedLeastConns G p)"
  using wlc_loop_spec [of G "[]" None None "backends p"]
  by (simp add: GetNextBackendByWeightedLeastConns_def)

text \<open>The hash picks one of the available backends, and there is one exactly when it answers.\<close>

lemma set_healthyIndices [simp]: "i \<in> set (healthyIndices G p) \<longleftrightarrow> availableAt G p i"
  by (auto simp: healthyIndices_def availableAt_def)

lemma healthyIndices_Nil: "healthyIndices G p = [] \<longleftrightarrow> (\<forall>i. \<not> availableAt G p i)"
  using set_healthyIndices by (metis ex_in_conv set_empty)

lemma byIP_Some:
  assumes "GetNextBackendByIP G ip p = Some i"
  shows "availableAt G p i"
proof -
  let ?hs = "healthyIndices G p"
  from assms have "?hs \<noteq> []" and i: "i = ?hs ! (unat (fnv32a ip) mod length ?hs)"
    by (auto simp: GetNextBackendByIP_def Let_def split: if_splits)
  then have "?hs ! (unat (fnv32a ip) mod length ?hs) \<in> set ?hs" by (intro nth_mem) simp
  with i show ?thesis by (simp only: set_healthyIndices)
qed

lemma byIP_None: "GetNextBackendByIP G ip p = None \<longleftrightarrow> (\<forall>i. \<not> availableAt G p i)"
  by (simp add: GetNextBackendByIP_def Let_def healthyIndices_Nil)

subsubsection \<open>Round robin\<close>

text \<open>The loop stops at the first available index among the next \<open>k\<close> values of the counter.\<close>

lemma roundRobin_loop_Some:
  assumes "roundRobin_loop G bs cur k = (cur', Some i)"
  shows "\<exists>d<k. cur' = cur + of_nat (Suc d) \<and> i = unat cur' mod length bs \<and> available G (bs ! i)
    \<and> (\<forall>e<d. \<not> available G (bs ! (unat (cur + of_nat (Suc e)) mod length bs)))"
  using assms
proof (induction k arbitrary: cur)
  case (Suc k)
  show ?case
  proof (cases "available G (bs ! (unat (cur + 1) mod length bs))")
    case True
    with Suc.prems show ?thesis by (intro exI [of _ 0]) (auto simp: Let_def)
  next
    case False
    with Suc.prems have "roundRobin_loop G bs (cur + 1) k = (cur', Some i)" by (simp add: Let_def)
    from Suc.IH [OF this] obtain d where d: "d < k" "cur' = cur + 1 + of_nat (Suc d)"
      "i = unat cur' mod length bs" "available G (bs ! i)"
      "\<forall>e<d. \<not> available G (bs ! (unat (cur + 1 + of_nat (Suc e)) mod length bs))"
      by blast
    have "\<not> available G (bs ! (unat (cur + of_nat (Suc e)) mod length bs))" if "e < Suc d" for e
      using that False d(5) by (cases e) (auto simp: algebra_simps)
    with d show ?thesis by (intro exI [of _ "Suc d"]) (auto simp: algebra_simps)
  qed
qed simp

lemma roundRobin_loop_None:
  assumes "roundRobin_loop G bs cur k = (cur', None)"
  shows "cur' = cur + of_nat k \<and> (\<forall>e<k. \<not> available G (bs ! (unat (cur + of_nat (Suc e)) mod length bs)))"
  using assms
proof (induction k arbitrary: cur)
  case (Suc k)
  then have no: "\<not> available G (bs ! (unat (cur + 1) mod length bs))"
    and rec: "roundRobin_loop G bs (cur + 1) k = (cur', None)"
    by (auto simp: Let_def split: if_splits)
  have "\<not> available G (bs ! (unat (cur + of_nat (Suc e)) mod length bs))" if "e < Suc k" for e
    using that no Suc.IH [OF rec] by (cases e) (auto simp: algebra_simps)
  moreover have "cur' = cur + of_nat (Suc k)" using Suc.IH [OF rec] by (simp add: algebra_simps)
  ultimately show ?case by blast
qed simp

lemma roundRobin_Some:
  assumes "GetNextBackendByRoundRobin G p = (p', Some i)"
  shows "availableAt G p i"
proof -
  from assms have ne: "poolSize p \<noteq> 0"
    and loop: "roundRobin_loop G (backends p) (current p) (poolSize p) = (current p', Some i)"
    by (auto simp: GetNextBackendByRoundRobin_def split: if_splits prod.splits)
  from roundRobin_loop_Some [OF loop] ne show ?thesis
    by (auto simp: availableAt_def)
qed

lemma roundRobin_frame:
  "backends (fst (GetNextBackendByRoundRobin G p)) = backends p"
  "strategy (fst (GetNextBackendByRoundRobin G p)) = strategy p"
  by (auto simp: GetNextBackendByRoundRobin_def split: prod.splits)

text \<open>
  The next \<open>n\<close> values of the counter hit every index of a pool of \<open>n\<close> backends, as long as
  the counter does not wrap around on the way.
\<close>

definition counter_room :: "'cb BackendPool \<Rightarrow> nat \<Rightarrow> bool" where
  "counter_room p k \<longleftrightarrow> unat (current p) + k < 2 ^ 64"

lemma unat_plus_small: "unat (c::u64) + k < 2 ^ 64 \<Longrightarrow> unat (c + of_nat k) = unat c + k"
  by (simp add: unat_word_ariths unat_of_nat)

lemma residues_hit:
  assumes "0 < n" and "j < n"
  shows "\<exists>e<n. (c + Suc e) mod n = (j::nat)"
proof -
  define e where "e = (j + n - Suc c mod n) mod n"
  have "Suc c mod n < n" using assms(1) by simp
  have "(Suc c + e) mod n = (Suc c + (j + n - Suc c mod n)) mod n"
    unfolding e_def by (rule mod_add_right_eq)
  also have "\<dots> = (Suc c mod n + (j + n - Suc c mod n)) mod n"
    by (rule mod_add_left_eq [symmetric])
  also have "Suc c mod n + (j + n - Suc c mod n) = j + n"
    using \<open>Suc c mod n < n\<close> by simp
  also have "(j + n) mod n = j" using assms(2) by simp
  finally show ?thesis using assms(1) by (intro exI [of _ e]) (simp add: e_def add.commute)
qed

lemma roundRobin_None:
  assumes "GetNextBackendByRoundRobin G p = (p', None)" and "counter_room p (poolSize p)"
  shows "\<not> availableAt G p j"
proof
  assume j: "availableAt G p j"
  then have ne: "poolSize p \<noteq> 0" by (auto simp: availableAt_def)
  with assms(1) have "roundRobin_loop G (backends p) (current p) (poolSize p) = (current p', None)"
    by (auto simp: GetNextBackendByRoundRobin_def split: prod.splits)
  from roundRobin_loop_None [OF this]
  have no: "\<not> available G (backends p ! (unat (current p + of_nat (Suc e)) mod poolSize p))"
    if "e < poolSize p" for e using that by blast
  obtain e where e: "e < poolSize p" "(unat (current p) + Suc e) mod poolSize p = j"
    using residues_hit [of "poolSize p" j "unat (current p)"] j ne by (auto simp: availableAt_def)
  have "unat (current p + of_nat (Suc e)) = unat (current p) + Suc e"
    using assms(2) e(1) by (intro unat_plus_small) (simp add: counter_room_def)
  with no [OF e(1)] e(2) j show False by (simp add: availableAt_def)
qed

subsubsection \<open>Weighted round robin\<close>

definition bumpAvail :: "'cb gobreaker \<Rightarrow> 'cb Backend \<Rightarrow> 'cb Backend" where
  "bumpAvail G b = (if available G b then bump b else b)"

definition totalAvail :: "'cb gobreaker \<Rightarrow> 'cb Backend list \<Rightarrow> go_int" where
  "totalAvail G bs = sum_list (map Weight (filter (available G) bs))"

abbreviation wrrKey :: "'cb Backend \<Rightarrow> int" where
  "wrrKey b \<equiv> - sint (CurrentWeight b)"

lemma bump_frame [frame]:
  "available G (bump b) = available G b" "Addr (bump b) = Addr b" "Weight (bump b) = Weight b"
  "connections (bump b) = connections b" "healthy (bump b) = healthy b" "cb (bump b) = cb b"
  "proxy (bump b) = proxy b" "CurrentWeight (bump b) = CurrentWeight b + Weight b"
  by (simp_all add: bump_def available_def IsHealthy_def)

lemma bumpAvail_frame [frame]:
  "available G (bumpAvail G b) = available G b" "Addr (bumpAvail G b) = Addr b"
  "Weight (bumpAvail G b) = Weight b" "connections (bumpAvail G b) = connections b"
  "healthy (bumpAvail G b) = healthy b" "cb (bumpAvail G b) = cb b" "proxy (bumpAvail G b) = proxy b"
  by (simp_all add: bumpAvail_def frame)

lemma bumpAvail_unavailable: "\<not> available G b \<Longrightarrow> bumpAvail G b = b"
  by (simp add: bumpAvail_def)

lemma wrr_loop_spec:
  assumes "argmin_ok (available G) wrrKey (map (bumpAvail G) pre) best"
    and "tot = totalAvail G pre"
  shows "\<exists>best'. wrr_loop G [length pre..<length pre + length post] (map (bumpAvail G) pre @ post) best tot
      = (map (bumpAvail G) (pre @ post), best', totalAvail G (pre @ post))
    \<and> argmin_ok (available G) wrrKey (map (bumpAvail G) (pre @ post)) best'"
  using assms
proof (induction post arbitrary: pre best tot)
  case (Cons b post)
  let ?bs = "map (bumpAvail G) pre @ b # post"
  let ?pre' = "map (bumpAvail G) pre @ [bumpAvail G b]"
  let ?better = "available G b \<and> (case best of None \<Rightarrow> True
      | Some j \<Rightarrow> wrrKey (bumpAvail G b) < wrrKey (map (bumpAvail G) pre ! j))"
  let ?best' = "if ?better then Some (length pre) else best"
  have range: "[length pre..<length pre + length (b # post)]
      = length pre # [length (pre @ [b])..<length (pre @ [b]) + length post]"
    by (subst upt_conv_Cons) simp_all
  have at: "?bs ! length pre = b" using nth_append_length [of "map (bumpAvail G) pre" b post] by simp
  have upd: "?bs[length pre := x] = map (bumpAvail G) pre @ x # post" for x
    using list_update_length [of "map (bumpAvail G) pre" b post x] by simp
  have at': "(map (bumpAvail G) pre @ x # post) ! length pre = x" for x
    using nth_append_length [of "map (bumpAvail G) pre" x post] by simp
  have best_at: "(map (bumpAvail G) pre @ x # post) ! j = map (bumpAvail G) pre ! j"
    if "best = Some j" for x j
    using argmin_ok_SomeD(1) [of "available G" wrrKey "map (bumpAvail G) pre" j] Cons.prems(1) that
    by (simp add: nth_append)
  have "wrr_loop G [length pre..<length pre + length (b # post)] ?bs best tot
      = wrr_loop G [length (pre @ [b])..<length (pre @ [b]) + length post]
          (map (bumpAvail G) (pre @ [b]) @ post) ?best' (totalAvail G (pre @ [b]))"
    unfolding range
    by (cases best)
      (simp_all add: at upd at' best_at Let_def bumpAvail_def Cons.prems(2) totalAvail_def frame
        word_sless_iff_sint del: upt_Suc)
  moreover have "argmin_ok (available G) wrrKey (map (bumpAvail G) (pre @ [b])) ?best'"
    using argmin_ok_snoc [OF Cons.prems(1), of "bumpAvail G b"]
    by (simp only: bumpAvail_frame(1) length_map map_append list.map)
  ultimately show ?case
    using Cons.IH [of "pre @ [b]" ?best' "totalAvail G (pre @ [b])"] by simp
qed simp

text \<open>
  One pick: every available backend gains its weight, the first one with the largest current
  weight is chosen and pays the total of the available weights.
\<close>

definition wrrPay :: "'cb gobreaker \<Rightarrow> 'cb Backend list \<Rightarrow> nat \<Rightarrow> 'cb Backend list" where
  "wrrPay G bs i =
     (let bs' = map (bumpAvail G) bs
      in bs'[i := (bs' ! i)\<lparr>CurrentWeight := CurrentWeight (bs' ! i) - totalAvail G bs\<rparr>])"

lemma wrr_pick:
  obtains best where
    "argmin_ok (available G) wrrKey (map (bumpAvail G) (backends p)) best"
    "GetNextBackendByWeightedRoundRobin G p =
       (p\<lparr>backends := (case best of None \<Rightarrow> backends p | Some i \<Rightarrow> wrrPay G (backends p) i)\<rparr>, best)"
proof -
  have init: "argmin_ok (available G) wrrKey (map (bumpAvail G) []) None" "0 = totalAvail G []"
    by (simp_all add: totalAvail_def)
  have "\<exists>best. wrr_loop G [0..<poolSize p] (backends p) None 0
      = (map (bumpAvail G) (backends p), best, totalAvail G (backends p))
    \<and> argmin_ok (available G) wrrKey (map (bumpAvail G) (backends p)) best"
    using wrr_loop_spec [OF init, of "backends p"]
    by (simp only: list.map append.simps list.size add_0)
  then obtain best where
    loop: "wrr_loop G [0..<poolSize p] (backends p) None 0
      = (map (bumpAvail G) (backends p), best, totalAvail G (backends p))"
    and best: "argmin_ok (available G) wrrKey (map (bumpAvail G) (backends p)) best"
    by blast
  have none: "map (bumpAvail G) (backends p) = backends p" if "best = None"
  proof (rule map_idI)
    fix b assume "b \<in> set (backends p)"
    with best that have "\<not> available G (bumpAvail G b)" by (simp add: argmin_ok_None)
    then show "bumpAvail G b = b" by (simp add: bumpAvail_frame bumpAvail_unavailable)
  qed
  show thesis
    by (rule that [OF best], cases best)
      (use loop none in \<open>simp_all add: GetNextBackendByWeightedRoundRobin_def wrrPay_def Let_def\<close>)
qed

subsection \<open>What a pick leaves alone\<close>

text \<open>Everything but the smooth weights and the counter.\<close>

definition core :: "'cb Backend \<Rightarrow> string \<times> bool \<times> go_int \<times> u64 \<times> 'cb option \<times> ReverseProxy option" where
  "core b = (Addr b, healthy b, Weight b, connections b, cb b, proxy b)"

definition sameBackends :: "'cb BackendPool \<Rightarrow> 'cb BackendPool \<Rightarrow> bool" where
  "sameBackends p q \<longleftrightarrow> strategy p = strategy q \<and> map core (backends p) = map core (backends q)"

lemma sameBackends_refl [simp]: "sameBackends p p"
  by (simp add: sameBackends_def)

lemma sameBackends_trans: "sameBackends p q \<Longrightarrow> sameBackends q r \<Longrightarrow> sameBackends p r"
  by (simp add: sameBackends_def)

lemma sameBackends_size: "sameBackends p q \<Longrightarrow> poolSize q = poolSize p"
  by (metis map_eq_imp_length_eq sameBackends_def)

lemma sameBackends_nth:
  "sameBackends p q \<Longrightarrow> i < poolSize p \<Longrightarrow> core (backends q ! i) = core (backends p ! i)"
  unfolding sameBackends_def by (metis map_eq_nth)

lemma available_core: "core a = core b \<Longrightarrow> available G a = available G b"
  by (simp add: core_def available_def IsHealthy_def)

lemma sameBackends_availableAt: "sameBackends p q \<Longrightarrow> availableAt G q i = availableAt G p i"
  using sameBackends_size [of p q] sameBackends_nth [of p q i] available_core
  by (auto simp: availableAt_def)

lemma roundRobin_same: "sameBackends p (fst (GetNextBackendByRoundRobin G p))"
  by (simp add: sameBackends_def roundRobin_frame)

lemma core_bumpAvail [simp]: "core (bumpAvail G b) = core b"
  by (simp add: core_def bumpAvail_frame)

lemma core_CurrentWeight [simp]: "core (b\<lparr>CurrentWeight := w\<rparr>) = core b"
  by (simp add: core_def)

lemma map_core_wrrPay [simp]: "map core (wrrPay G bs i) = map core bs"
proof -
  have "map core (wrrPay G bs i) = map core (map (bumpAvail G) bs)"
    unfolding wrrPay_def Let_def by (rule map_list_update_same) simp
  then show ?thesis by (simp add: comp_def)
qed

lemma wrr_same: "sameBackends p (fst (GetNextBackendByWeightedRoundRobin G p))"
  by (rule wrr_pick [of G p]) (auto simp: sameBackends_def split: option.splits)

lemma wrr_best:
  assumes "argmin_ok (available G) f (map (bumpAvail G) bs) (Some i)"
  shows "i < length bs" and "available G (bs ! i)"
  using argmin_ok_SomeD(1,2) [OF assms] by (simp_all add: bumpAvail_frame)

lemma wrr_Some: "GetNextBackendByWeightedRoundRobin G p = (p', Some i) \<Longrightarrow> availableAt G p i"
  by (rule wrr_pick [of G p]) (auto simp: availableAt_def dest: wrr_best)

lemma wrr_None: "GetNextBackendByWeightedRoundRobin G p = (p', None) \<Longrightarrow> \<not> availableAt G p i"
  by (rule wrr_pick [of G p]) (auto simp: availableAt_def bumpAvail_frame argmin_ok_None)

subsection \<open>The interface of a strategy\<close>

text \<open>
  What a client of a pool may rely on.  \<open>pick\<close> returns the pool after the choice and the chosen
  index, \<open>avail\<close> says which indices may be chosen, \<open>same\<close> that a pool is the same but for the
  bookkeeping of the strategy.  An incomplete strategy may answer \<open>None\<close> although a backend is
  available; a complete one does so only where its precondition \<open>pre\<close> fails.
\<close>

locale selector =
  fixes pick :: "'p \<Rightarrow> 'p \<times> nat option" and avail :: "'p \<Rightarrow> nat \<Rightarrow> bool"
    and same :: "'p \<Rightarrow> 'p \<Rightarrow> bool"
  assumes pick_sound: "pick p = (p', Some i) \<Longrightarrow> avail p i"
    and pick_same: "same p (fst (pick p))"
    and same_refl: "same p p"
    and same_trans: "same p q \<Longrightarrow> same q r \<Longrightarrow> same p r"
    and same_avail: "same p q \<Longrightarrow> avail q i = avail p i"
begin

lemma iterate_same: "same p (fst (iterate_pick pick n p))"
  using iterate_pick_inv [of "same p" p pick n] same_refl same_trans pick_same by blast

text \<open>Every choice of a sequence of picks was available at the start of the sequence.\<close>

lemma iterate_sound:
  "Some i \<in> set (snd (iterate_pick pick n p)) \<Longrightarrow> avail p i"
proof (induction n arbitrary: p)
  case (Suc n)
  obtain p' r where pick: "pick p = (p', r)" by fastforce
  then have same: "same p p'" using pick_same [of p] by simp
  from Suc.prems pick have "r = Some i \<or> Some i \<in> set (snd (iterate_pick pick n p'))"
    by (auto simp: case_prod_beta)
  then show ?case
    using pick_sound pick Suc.IH [of p'] same_avail [OF same] by blast
qed simp

lemma none_available: "(\<And>i. \<not> avail p i) \<Longrightarrow> snd (pick p) = None"
  using pick_sound by (cases "pick p", cases "snd (pick p)") auto

end

locale complete_selector = selector pick avail same
  for pick :: "'p \<Rightarrow> 'p \<times> nat option" and avail :: "'p \<Rightarrow> nat \<Rightarrow> bool" and same :: "'p \<Rightarrow> 'p \<Rightarrow> bool" +
  fixes pre :: "'p \<Rightarrow> bool"
  assumes pick_complete: "pre p \<Longrightarrow> pick p = (p', None) \<Longrightarrow> \<not> avail p i"
begin

lemma pick_Some_iff:
  assumes "pre p"
  shows "(\<exists>i. snd (pick p) = Some i) \<longleftrightarrow> (\<exists>i. avail p i)"
proof -
  obtain p' r where pick: "pick p = (p', r)" by fastforce
  show ?thesis
    using pick_complete [OF assms, of p'] pick_sound [of p p'] pick by (cases r) auto
qed

end

text \<open>A strategy that only reads the pool.\<close>

definition pureSelect :: "('cb BackendPool \<Rightarrow> nat option) \<Rightarrow> 'cb BackendPool \<Rightarrow> 'cb BackendPool \<times> nat option" where
  "pureSelect f p = (p, f p)"

definition countersFit :: "'cb gobreaker \<Rightarrow> 'cb BackendPool \<Rightarrow> bool" where
  "countersFit G p \<longleftrightarrow>
     (\<exists>i. availableAt G p i) \<longrightarrow> (\<exists>i. availableAt G p i \<and> connections (backends p ! i) \<noteq> - 1)"

lemma leastConns_Some: "GetNextBackendByLeastConns G p = Some i \<Longrightarrow> availableAt G p i"
  using leastConns_spec [of G p] by (auto simp: availableAt_def dest: argmin_ok_SomeD(1,2))

lemma leastConns_None:
  assumes "countersFit G p" and "GetNextBackendByLeastConns G p = None"
  shows "\<not> availableAt G p i"
  using assms leastConns_spec [of G p]
  by (auto simp: availableAt_def countersFit_def argmin_ok_None)

lemma wlc_Some: "GetNextBackendByWeightedLeastConns G p = Some i \<Longrightarrow> availableAt G p i"
  using wlc_spec [of G p] by (auto simp: availableAt_def dest: argmin_ok_SomeD(1,2))

lemma wlc_None: "GetNextBackendByWeightedLeastConns G p = None \<Longrightarrow> \<not> availableAt G p i"
  using wlc_spec [of G p] by (auto simp: availableAt_def argmin_ok_None)

interpretation lc: complete_selector
  "pureSelect (GetNextBackendByLeastConns G)" "availableAt G" sameBackends "countersFit G" for G
  by unfold_locales
    (auto simp: pureSelect_def sameBackends_availableAt leastConns_Some leastConns_None
      intro: sameBackends_trans)

interpretation wlc: complete_selector
  "pureSelect (GetNextBackendByWeightedLeastConns G)" "availableAt G" sameBackends "\<lambda>_. True" for G
  by unfold_locales
    (auto simp: pureSelect_def sameBackends_availableAt wlc_Some wlc_None intro: sameBackends_trans)

interpretation iph: complete_selector
  "pureSelect (GetNextBackendByIP G ip)" "availableAt G" sameBackends "\<lambda>_. True" for G ip
  by unfold_locales
    (auto simp: pureSelect_def sameBackends_availableAt byIP_Some byIP_None intro: sameBackends_trans)

interpretation rr: complete_selector
  "GetNextBackendByRoundRobin G" "availableAt G" sameBackends "\<lambda>p. counter_room p (poolSize p)" for G
  by unfold_locales
    (auto simp: roundRobin_same sameBackends_availableAt roundRobin_Some roundRobin_None
      intro: sameBackends_trans)

interpretation wrr: complete_selector
  "GetNextBackendByWeightedRoundRobin G" "availableAt G" sameBackends "\<lambda>_. True" for G
  by unfold_locales
    (auto simp: wrr_same sameBackends_availableAt wrr_Some wrr_None intro: sameBackends_trans)

text \<open>
  The dispatcher: complete under the preconditions of the strategies it may call.
\<close>

definition selectable :: "'cb gobreaker \<Rightarrow> 'cb BackendPool \<Rightarrow> bool" where
  "selectable G p \<longleftrightarrow> countersFit G p \<and> counter_room p (poolSize p)"

definition hashHost :: "string \<Rightarrow> string" where
  "hashHost clientIP = (case SplitHostPort clientIP of Inr (host, _) \<Rightarrow> host | Inl _ \<Rightarrow> clientIP)"

lemma GetNextBackend_cases:
  obtains (iph) "GetNextBackend G ip p = pureSelect (GetNextBackendByIP G (hashHost ip)) p"
  | (lc) "GetNextBackend G ip p = pureSelect (GetNextBackendByLeastConns G) p"
  | (wlc) "GetNextBackend G ip p = pureSelect (GetNextBackendByWeightedLeastConns G) p"
  | (wrr) "GetNextBackend G ip p = GetNextBackendByWeightedRoundRobin G p"
  | (rr) "GetNextBackend G ip p = GetNextBackendByRoundRobin G p"
  by (atomize_elim) (auto simp: GetNextBackend_def pureSelect_def hashHost_def Let_def)

interpretation nb: complete_selector
  "GetNextBackend G ip" "availableAt G" sameBackends "selectable G" for G ip
proof unfold_locales
  show "availableAt G p i" if "GetNextBackend G ip p = (p', Some i)" for p p' i
    using that
    by (cases rule: GetNextBackend_cases [of G ip p])
      (auto dest: iph.pick_sound lc.pick_sound wlc.pick_sound wrr.pick_sound rr.pick_sound)
  show "sameBackends p (fst (GetNextBackend G ip p))" for p
    by (cases rule: GetNextBackend_cases [of G ip p])
      (simp_all add: iph.pick_same lc.pick_same wlc.pick_same wrr.pick_same rr.pick_same)
  show "\<not> availableAt G p i" if "selectable G p" "GetNextBackend G ip p = (p', None)" for p p' i
    using that
    by (cases rule: GetNextBackend_cases [of G ip p])
      (auto simp: selectable_def
        dest: iph.pick_complete [OF TrueI] lc.pick_complete wlc.pick_complete [OF TrueI]
          wrr.pick_complete [OF TrueI] rr.pick_complete)
qed (auto simp: sameBackends_availableAt intro: sameBackends_trans)

lemma ex_availableAt: "(\<exists>i. availableAt G p i) \<longleftrightarrow> (\<exists>b\<in>set (backends p). available G b)"
  by (metis availableAt_def in_set_conv_nth)

subsection \<open>Round robin on a healthy pool\<close>

definition allAvailable :: "'cb gobreaker \<Rightarrow> 'cb BackendPool \<Rightarrow> bool" where
  "allAvailable G p \<longleftrightarrow> backends p \<noteq> [] \<and> (\<forall>b\<in>set (backends p). available G b)"

lemma roundRobin_first_try:
  assumes "allAvailable G p"
  shows "GetNextBackendByRoundRobin G p =
    (p\<lparr>current := current p + 1\<rparr>, Some (unat (current p + 1) mod poolSize p))"
proof -
  obtain k where k: "poolSize p = Suc k" using assms by (cases "poolSize p") (auto simp: allAvailable_def)
  then have "available G (backends p ! (unat (current p + 1) mod poolSize p))"
    using assms by (simp add: allAvailable_def)
  with k show ?thesis by (simp add: GetNextBackendByRoundRobin_def Let_def)
qed

lemma roundRobin_run:
  assumes "allAvailable G p" and "counter_room p k"
  shows "iterate_pick (GetNextBackendByRoundRobin G) k p =
    (p\<lparr>current := current p + of_nat k\<rparr>, map (\<lambda>t. Some ((unat (current p) + Suc t) mod poolSize p)) [0..<k])"
  using assms(2)
proof (induction k)
  case (Suc k)
  have room: "unat (current p + of_nat k + 1) = unat (current p) + Suc k"
    using unat_plus_small [of "current p" "Suc k"] Suc.prems
    by (simp add: counter_room_def algebra_simps)
  have "allAvailable G (p\<lparr>current := current p + of_nat k\<rparr>)"
    using assms(1) by (simp add: allAvailable_def)
  from roundRobin_first_try [OF this] Suc room show ?case
    unfolding iterate_pick_Suc_last by (simp add: counter_room_def algebra_simps)
qed simp

lemma residues_bij:
  assumes "0 < n"
  shows "mset (map (\<lambda>t. (c + Suc t) mod n) [0..<n]) = mset [0..<n]"
proof -
  have "set (map (\<lambda>t. (c + Suc t) mod n) [0..<n]) = {0..<n}" (is "set ?xs = _")
    using residues_hit [OF assms, of _ c] assms by fastforce
  moreover from this have "distinct ?xs" by (intro card_distinct) simp
  ultimately show ?thesis by (metis distinct_upt mset_set_set set_upt)
qed

subsection \<open>Properties\<close>

text \<open>
  C1: Whatever the strategy and the state of the pool, a backend that is picked exists, is
  healthy and its circuit is not open, and the pick changes nothing of the pool but the smooth
  weights and the counter.
\<close>

theorem GetNextBackend_sound:
  assumes "GetNextBackend G clientIP p = (p', Some i)"
  shows "i < poolSize p \<and> IsHealthy (backends p ! i)
    \<and> (\<forall>c. cb (backends p ! i) = Some c \<longrightarrow> cbState G c \<noteq> StateOpen)
    \<and> strategy p' = strategy p \<and> map core (backends p') = map core (backends p)"
proof -
  have "sameBackends p p'" using nb.pick_same [of p G clientIP] assms by simp
  with nb.pick_sound [OF assms] show ?thesis
    by (auto simp: availableAt_def available_def sameBackends_def)
qed

theorem GetNextBackend_sound_witness:
  "\<exists>p'. GetNextBackend simpleBreaker ''10.0.0.1''
     (samplePool ''least-connections'' [plainBackend ''a'' False 1 0, plainBackend ''b'' True 1 7]) = (p', Some 1)
     \<and> strategy p' = ''least-connections''"
proof -
  let ?p = "samplePool ''least-connections'' [plainBackend ''a'' False 1 0, plainBackend ''b'' True 1 7]"
  have "GetNextBackend simpleBreaker ''10.0.0.1'' ?p = (?p, Some 1)"
    by (simp add: GetNextBackend_def GetNextBackendByLeastConns_def GetConnections_def)
  with GetNextBackend_sound [OF this] show ?thesis by simp
qed

text \<open>
  C2: The dispatcher answers \<open>nil\<close> only if no backend is available, unless the round-robin
  counter wraps around during the pick or every available backend has \<open>2 ^ 64 - 1\<close> connections.
\<close>

theorem GetNextBackend_complete:
  assumes "unat (current p) + poolSize p < 2 ^ 64"
    and "\<forall>b\<in>set (backends p). connections b \<noteq> - 1"
  shows "snd (GetNextBackend G clientIP p) = None \<longleftrightarrow> (\<forall>b\<in>set (backends p). \<not> available G b)"
proof -
  have "selectable G p"
    using assms by (auto simp: selectable_def countersFit_def counter_room_def availableAt_def)
  from nb.pick_Some_iff [OF this, of clientIP] show ?thesis
    unfolding ex_availableAt by auto
qed

theorem GetNextBackend_complete_witness:
  "snd (GetNextBackend simpleBreaker ''10.0.0.1''
     (samplePool ''weighted-round-robin'' [plainBackend ''a'' False 3 0, plainBackend ''b'' True 1 7])) \<noteq> None"
  using GetNextBackend_complete [of "samplePool ''weighted-round-robin''
      [plainBackend ''a'' False 3 0, plainBackend ''b'' True 1 7]" simpleBreaker "''10.0.0.1''"]
  by simp

text \<open>
  Round robin on a pool whose backends are all available takes them in cyclic order; as many
  picks as there are backends use each of them exactly once.
\<close>

theorem roundRobin_cycle:
  assumes "backends p \<noteq> []" and "\<forall>b\<in>set (backends p). available G b"
    and "unat (current p) + poolSize p < 2 ^ 64"
  shows "snd (iterate_pick (GetNextBackendByRoundRobin G) (poolSize p) p) =
      map (\<lambda>t. Some ((unat (current p) + Suc t) mod poolSize p)) [0..<poolSize p]
    \<and> mset (snd (iterate_pick (GetNextBackendByRoundRobin G) (poolSize p) p)) =
      image_mset Some (mset [0..<poolSize p])"
proof -
  have run: "snd (iterate_pick (GetNextBackendByRoundRobin G) (poolSize p) p) =
      map (\<lambda>t. Some ((unat (current p) + Suc t) mod poolSize p)) [0..<poolSize p]"
    using roundRobin_run [of G p "poolSize p"] assms by (simp add: allAvailable_def counter_room_def)
  have "mset (map (\<lambda>t. (unat (current p) + Suc t) mod poolSize p) [0..<poolSize p]) = mset [0..<poolSize p]"
    using assms(1) by (intro residues_bij) simp
  then have "image_mset Some (mset (map (\<lambda>t. (unat (current p) + Suc t) mod poolSize p) [0..<poolSize p]))
      = image_mset Some (mset [0..<poolSize p])" by (rule arg_cong)
  then show ?thesis unfolding run by (simp add: multiset.map_comp comp_def)
qed

theorem roundRobin_cycle_witness:
  "mset (snd (iterate_pick (GetNextBackendByRoundRobin simpleBreaker) 2
     (samplePool ''round-robin'' [plainBackend ''a'' True 1 0, plainBackend ''b'' True 1 0]))) = {# Some 0, Some 1 #}"
proof -
  let ?p = "samplePool ''round-robin'' [plainBackend ''a'' True 1 0, plainBackend ''b'' True 1 0]"
  have two: "poolSize ?p = 2" by simp
  have "mset (snd (iterate_pick (GetNextBackendByRoundRobin simpleBreaker) (poolSize ?p) ?p))
      = image_mset Some (mset [0..<poolSize ?p])"
    by (rule roundRobin_cycle [THEN conjunct2]) simp_all
  moreover have "[0..<2] = [0, 1]" by (simp add: upt_rec)
  ultimately show ?thesis unfolding two by simp
qed

text \<open>
  Where the shared counter wraps around within a pick, round robin misses an available
  backend: with three backends, of which only the last is up, it answers \<open>nil\<close>.
\<close>

theorem roundRobin_wrap_miss:
  "GetNextBackendByRoundRobin simpleBreaker
     \<lparr>backends = [plainBackend ''a'' False 1 0, plainBackend ''b'' False 1 0, plainBackend ''c'' True 1 0],
      strategy = ''round-robin'', current = - 2\<rparr> =
   (\<lparr>backends = [plainBackend ''a'' False 1 0, plainBackend ''b'' False 1 0, plainBackend ''c'' True 1 0],
     strategy = ''round-robin'', current = 1\<rparr>, None)"
proof -
  let ?bs = "[plainBackend ''a'' False 1 0, plainBackend ''b'' False 1 0, plainBackend ''c'' True 1 0]"
  have "- 2 + 1 = (- 1 :: u64)" by simp
  then have first: "unat (- 2 + 1 :: u64) mod 3 = 0"
    by (simp only: unat_max) simp
  have tries: "unat (- 2 + 1 + 1 :: u64) mod 3 = 0" "unat (- 2 + 1 + 1 + 1 :: u64) mod 3 = 1" by simp_all
  have size: "length ?bs = 3" by simp
  have "roundRobin_loop simpleBreaker ?bs (- 2) (Suc (Suc (Suc 0))) = (- 2 + 1 + 1 + 1, None)"
    unfolding roundRobin_loop.simps Let_def size first tries
    by (simp only: nth_Cons_0 nth_Cons_Suc One_nat_def plainBackend_sel if_False)
  then show ?thesis by (simp add: GetNextBackendByRoundRobin_def del: roundRobin_loop.simps)
qed

text \<open>
  Least connections picks an available backend with the fewest connections, the first such
  one in the pool.
\<close>

theorem leastConns_least:
  assumes "GetNextBackendByLeastConns G p = Some i"
  shows "availableAt G p i
    \<and> (\<forall>j. availableAt G p j \<longrightarrow> connections (backends p ! i) \<le> connections (backends p ! j))
    \<and> (\<forall>j<i. availableAt G p j \<longrightarrow> connections (backends p ! i) < connections (backends p ! j))"
proof -
  note spec = leastConns_spec [of G p, unfolded assms]
  have top: "x \<le> - 1" for x :: u64 by (rule word_order.extremum)
  have least: "connections (backends p ! i) \<noteq> - 1" using argmin_ok_SomeD(2) [OF spec] by simp
  then have strict: "connections (backends p ! i) < - 1" using top by (simp add: le_neq_trans)
  show ?thesis
    using argmin_ok_SomeD [OF spec] top strict by (fastforce simp: availableAt_def)
qed

theorem leastConns_least_witness:
  "connections (backends (samplePool ''least-connections''
      [plainBackend ''a'' True 1 5, plainBackend ''b'' True 1 2, plainBackend ''c'' True 1 2]) ! 1) \<le>
    connections (plainBackend ''a'' True 1 5)"
proof -
  let ?p = "samplePool ''least-connections''
      [plainBackend ''a'' True 1 5, plainBackend ''b'' True 1 2, plainBackend ''c'' True 1 2]"
  have "GetNextBackendByLeastConns simpleBreaker ?p = Some 1"
    by (simp add: GetNextBackendByLeastConns_def GetConnections_def)
  from leastConns_least [OF this] show ?thesis by (auto simp: availableAt_def)
qed

lemma wlcScore_exact:
  assumes "sint (Weight b) = int w" and "unat (connections b) = n" and "0 < w" and "w \<le> 2 ^ 53" and "n \<le> 2 ^ 53"
  shows "wlcScore b = float64 (of_nat n / of_nat w)"
proof -
  have "wlcScore b = (let conns = float64 (of_nat n); weight = float64 (of_nat w);
      weight = (if weight = 0 then 1 else weight) in fdiv conns weight)"
    by (simp only: wlcScore_def GetConnections_def assms(1,2) of_int_of_nat_eq)
  then show ?thesis using assms(3-5) by (simp add: Let_def fdiv_def float64_of_nat)
qed

definition wlcSmall :: "'cb BackendPool \<Rightarrow> bool" where
  "wlcSmall p \<longleftrightarrow>
     (\<forall>b\<in>set (backends p). 0 < sint (Weight b) \<and> sint (Weight b) < 2 ^ 26 \<and> unat (connections b) < 2 ^ 26)"

text \<open>
  C27: Weighted least-connections compares quotients in double precision, and yet, as long as the
  products of counters and weights stay below \<open>2 ^ 52\<close>, picks an available backend whose exact
  ratio of connections to weight is minimal.
\<close>

theorem weightedLeastConns_least:
  assumes "wlcSmall p" and "GetNextBackendByWeightedLeastConns G p = Some i" and "availableAt G p j"
  shows "availableAt G p i \<and>
    int (unat (connections (backends p ! i))) * sint (Weight (backends p ! j)) \<le>
    int (unat (connections (backends p ! j))) * sint (Weight (backends p ! i))"
proof -
  have i: "availableAt G p i" using assms(2) by (rule wlc_Some)
  let ?bi = "backends p ! i" and ?bj = "backends p ! j"
  let ?a = "unat (connections ?bj)" and ?b = "nat (sint (Weight ?bj))"
  let ?c = "unat (connections ?bi)" and ?d = "nat (sint (Weight ?bi))"
  have small: "0 < sint (Weight b) \<and> sint (Weight b) < 2 ^ 26 \<and> unat (connections b) < 2 ^ 26"
    if "b \<in> {?bi, ?bj}" for b
    using that assms(1,3) i by (auto simp: wlcSmall_def availableAt_def)
  from small [of ?bi] small [of ?bj]
  have b: "0 < ?b" "?b < 2 ^ 26" and d: "0 < ?d" "?d < 2 ^ 26" and ac: "?a < 2 ^ 26" "?c < 2 ^ 26"
    by (simp_all add: nat_less_iff)
  have score: "wlcScore ?bi = float64 (of_nat ?c / of_nat ?d)" "wlcScore ?bj = float64 (of_nat ?a / of_nat ?b)"
    by (rule wlcScore_exact; use b d ac in simp)+
  have "\<not> ?a * ?d < ?c * ?b"
  proof
    assume less: "?a * ?d < ?c * ?b"
    have "?c * ?b < 2 ^ 26 * 2 ^ 26" using ac(2) b by (intro mult_strict_mono) auto
    then have "wlcScore ?bj < wlcScore ?bi"
      unfolding score using float64_separates [OF b(1) d(1) less] by simp
    moreover have "wlcScore ?bi \<le> wlcScore ?bj"
      using argmin_ok_SomeD(3) [OF wlc_spec [of G p, unfolded assms(2)]] assms(3) by (simp add: availableAt_def)
    ultimately show False by simp
  qed
  then have "?c * ?b \<le> ?a * ?d" by simp
  then have "int (?c * ?b) \<le> int (?a * ?d)" by (simp only: of_nat_le_iff)
  with b(1) d(1) i show ?thesis by simp
qed

theorem weightedLeastConns_least_witness:
  "int 4 * 2 \<le> int 3 * 3 \<and> GetNextBackendByWeightedLeastConns simpleBreaker
     (samplePool ''weighted-least-connections'' [plainBackend ''a'' True 3 4, plainBackend ''b'' True 2 3]) = Some 0"
proof -
  let ?p = "samplePool ''weighted-least-connections'' [plainBackend ''a'' True 3 4, plainBackend ''b'' True 2 3]"
  have scores: "wlcScore (plainBackend ''a'' True 3 4) = float64 (of_nat 4 / of_nat 3)"
    "wlcScore (plainBackend ''b'' True 2 3) = float64 (of_nat 3 / of_nat 2)"
    by (rule wlcScore_exact; simp)+
  have "float64 (of_nat 4 / of_nat 3) < float64 (of_nat 3 / of_nat 2)"
    by (rule float64_separates) simp_all
  then have pick: "GetNextBackendByWeightedLeastConns simpleBreaker ?p = Some 0"
    by (simp add: GetNextBackendByWeightedLeastConns_def scores)
  have "wlcSmall ?p" by (simp add: wlcSmall_def)
  from weightedLeastConns_least [OF this pick, of 1] pick show ?thesis
    by (simp add: availableAt_def)
qed

lemma hashHost_bare: "plain_host h \<Longrightarrow> CHR '':'' \<notin> set h \<or> two_colons h \<Longrightarrow> hashHost h = h"
  by (auto simp: hashHost_def SplitHostPort_bare SplitHostPort_bare6)

lemma hashHost_joined: "plain_host h \<Longrightarrow> plain_port port \<Longrightarrow> hashHost (JoinHostPort h port) = h"
  by (simp add: hashHost_def SplitHostPort_JoinHostPort)

lemma ipHash_dispatch:
  "strategy p = ''ip-hash'' \<Longrightarrow> ip \<noteq> [] \<Longrightarrow> GetNextBackend G ip p = (p, GetNextBackendByIP G (hashHost ip) p)"
  by (simp add: GetNextBackend_def hashHost_def Let_def)

text \<open>
  C26: The hash affinity: with \<open>ip-hash\<close>, the backend of a client depends on its host alone, so a
  TCP or UDP client keeps its backend over all its ports, and an HTTP client of the same host,
  whose address reaches the strategy without a port, gets the same one.
\<close>

theorem ipHash_affinity:
  assumes "strategy p = ''ip-hash''" and "h \<noteq> []" and "plain_host h" and "CHR '':'' \<notin> set h \<or> two_colons h"
    and "plain_port port" and "plain_port port'"
  shows "GetNextBackend G (JoinHostPort h port) p = GetNextBackend G (JoinHostPort h port') p
    \<and> GetNextBackend G (splitHost (JoinHostPort h port)) p = GetNextBackend G (JoinHostPort h port) p"
proof -
  have ne: "JoinHostPort h q \<noteq> []" for q by (simp add: JoinHostPort_def)
  show ?thesis
    using assms by (simp add: ipHash_dispatch ne hashHost_joined hashHost_bare)
qed

theorem ipHash_affinity_witness:
  "GetNextBackend simpleBreaker ''10.0.0.1:4711''
     (samplePool ''ip-hash'' [plainBackend ''a'' True 1 0, plainBackend ''b'' True 1 0]) =
   GetNextBackend simpleBreaker ''10.0.0.1:80''
     (samplePool ''ip-hash'' [plainBackend ''a'' True 1 0, plainBackend ''b'' True 1 0])"
proof -
  have "JoinHostPort ''10.0.0.1'' port = ''10.0.0.1:'' @ port" for port
    by (simp add: JoinHostPort_def)
  with ipHash_affinity [of "samplePool ''ip-hash'' [plainBackend ''a'' True 1 0, plainBackend ''b'' True 1 0]"
      "''10.0.0.1''" "''4711''" "''80''" simpleBreaker]
  show ?thesis by (simp add: plain_host_def plain_port_def)
qed

end
