(* ===== verification/SmoothWRR.thy ===== *)
theory SmoothWRR
  imports Strategy
begin

text \<open>
  What smooth weighted round robin promises, and that \<open>GetNextBackendByWeightedRoundRobin\<close>
  keeps the promise on 64-bit integers.

  \<^item> \<open>spec_step\<close> is the algorithm on unbounded integers: \<open>ids\<close> are the available backends,
    \<open>w\<close> their weights, \<open>cw\<close> the current weights.
  \<^item> \<open>spec_inv\<close> is its invariant: the current weights sum to 0 and none falls to minus the
    total weight.  It bounds every current weight, so under \<open>fits\<close> (number of available
    backends times total weight below \<open>2 ^ 63\<close>) nothing overflows and the code refines the
    specification (\<open>wrr_refines\<close>).
  \<^item> Fairness of the specification: after every number of picks no backend is a whole turn ahead
    of its share (\<open>spec_quota\<close>), and in a cycle of total-weight many picks each backend is
    picked exactly as often as its weight says (\<open>spec_cycle\<close>).
\<close>

subsection \<open>The specification\<close>

fun first_max :: "('i \<Rightarrow> int) \<Rightarrow> 'i list \<Rightarrow> 'i option" where
  "first_max f [] = None"
| "first_max f (i # is) =
     (case first_max f is of
        None \<Rightarrow> Some i
      | Some j \<Rightarrow> if f i < f j then Some j else Some i)"

definition total_of :: "'i list \<Rightarrow> ('i \<Rightarrow> int) \<Rightarrow> int" where
  "total_of ids w = (\<Sum>i\<leftarrow>ids. w i)"

definition spec_step :: "'i list \<Rightarrow> ('i \<Rightarrow> int) \<Rightarrow> ('i \<Rightarrow> int) \<Rightarrow> ('i \<Rightarrow> int) \<times> 'i option" where
  "spec_step ids w cw =
     (let cw' = (\<lambda>i. if i \<in> set ids then cw i + w i else cw i)
      in case first_max cw' ids of
           None \<Rightarrow> (cw', None)
         | Some i \<Rightarrow> (cw'(i := cw' i - total_of ids w), Some i))"

definition spec_inv :: "'i list \<Rightarrow> ('i \<Rightarrow> int) \<Rightarrow> ('i \<Rightarrow> int) \<Rightarrow> bool" where
  "spec_inv ids w cw \<longleftrightarrow>
     distinct ids \<and> (\<forall>i\<in>set ids. 0 < w i) \<and> (\<Sum>i\<in>set ids. cw i) = 0
       \<and> (\<forall>i\<in>set ids. - total_of ids w < cw i)"

lemma total_of_set: "distinct ids \<Longrightarrow> total_of ids w = (\<Sum>i\<in>set ids. w i)"
  by (simp add: total_of_def sum_list_distinct_conv_sum_set)

lemma first_max_None [simp]: "first_max f ids = None \<longleftrightarrow> ids = []"
  by (cases ids) (auto split: option.splits)

lemma first_max_SomeD: "first_max f ids = Some i \<Longrightarrow> i \<in> set ids \<and> (\<forall>j\<in>set ids. f j \<le> f i)"
  by (induction ids arbitrary: i) (fastforce split: option.splits if_splits)+

lemma first_max_first:
  "sorted_wrt (<) ids \<Longrightarrow> first_max f ids = Some i \<Longrightarrow> j \<in> set ids \<Longrightarrow> j < i \<Longrightarrow> f j < f (i::nat)"
proof (induction ids arbitrary: i)
  case (Cons k ids)
  show ?case
  proof (cases "first_max f ids")
    case None
    with Cons.prems show ?thesis by auto
  next
    case (Some m)
    with first_max_SomeD [OF Some] Cons show ?thesis by (auto split: if_splits)
  qed
qed simp

text \<open>The loop of the code and the specification choose the same backend.\<close>

lemma first_max_eqI:
  assumes "sorted_wrt (<) ids" and "i \<in> set ids"
    and "\<And>j. j \<in> set ids \<Longrightarrow> f j \<le> f i" and "\<And>j. j \<in> set ids \<Longrightarrow> j < i \<Longrightarrow> f j < f (i::nat)"
  shows "first_max f ids = Some i"
proof (cases "first_max f ids")
  case None
  with assms(2) show ?thesis by simp
next
  case (Some m)
  note m = first_max_SomeD [OF Some]
  have "\<not> m < i" using assms(4) [of m] m assms(2) by force
  moreover have "\<not> i < m"
    using first_max_first [OF assms(1) Some, of i] assms(2,3) m by force
  ultimately show ?thesis using Some by simp
qed

subsection \<open>The invariant\<close>

lemma spec_invD:
  assumes "spec_inv ids w cw"
  shows "distinct ids" and "\<And>i. i \<in> set ids \<Longrightarrow> 0 < w i" and "(\<Sum>i\<in>set ids. cw i) = 0"
    and "\<And>i. i \<in> set ids \<Longrightarrow> - total_of ids w < cw i"
  using assms by (auto simp: spec_inv_def)

lemma total_pos: "spec_inv ids w cw \<Longrightarrow> ids \<noteq> [] \<Longrightarrow> 0 < total_of ids w"
  using spec_invD by (metis List.finite_set set_empty sum_pos total_of_set)

lemma weight_le_total: "spec_inv ids w cw \<Longrightarrow> i \<in> set ids \<Longrightarrow> w i \<le> total_of ids w"
  using spec_invD by (metis List.finite_set member_le_sum less_imp_le DiffE total_of_set)

text \<open>No current weight exceeds what the others can owe.\<close>

lemma spec_upper:
  assumes "spec_inv ids w cw" and "i \<in> set ids"
  shows "cw i \<le> (int (length ids) - 1) * (total_of ids w - 1)"
proof -
  note D = spec_invD [OF assms(1)]
  have "cw i = - (\<Sum>j\<in>set ids - {i}. cw j)"
    using D(3) sum.remove [OF finite_set assms(2), of cw] by simp
  also have "\<dots> = (\<Sum>j\<in>set ids - {i}. - cw j)" by (simp add: sum_negf)
  also have "\<dots> \<le> (\<Sum>j\<in>set ids - {i}. total_of ids w - 1)"
    using D(4) by (intro sum_mono) force
  also have "\<dots> = (int (length ids) - 1) * (total_of ids w - 1)"
    using assms(2) D(1) by (cases ids) (simp_all add: distinct_card)
  finally show ?thesis .
qed

lemma spec_step_eq:
  assumes "ids \<noteq> []"
  obtains i where "i \<in> set ids" "\<forall>j\<in>set ids. cw j + w j \<le> cw i + w i"
    "spec_step ids w cw =
       ((\<lambda>j. (if j \<in> set ids then cw j + w j else cw j) - (if j = i then total_of ids w else 0)), Some i)"
proof -
  let ?cw' = "\<lambda>j. if j \<in> set ids then cw j + w j else cw j"
  from assms(1) obtain i where i: "first_max ?cw' ids = Some i"
    by (cases "first_max ?cw' ids") auto
  from first_max_SomeD [OF i] have mem: "i \<in> set ids"
    and max: "\<forall>j\<in>set ids. cw j + w j \<le> cw i + w i"
    by auto
  have step: "spec_step ids w cw = ((\<lambda>j. ?cw' j - (if j = i then total_of ids w else 0)), Some i)"
    by (auto simp: spec_step_def i Let_def)
  show thesis by (rule that [OF mem max step])
qed

lemma spec_step_inv:
  assumes "spec_inv ids w cw"
  shows "spec_inv ids w (fst (spec_step ids w cw))"
proof (cases "ids = []")
  case True
  then show ?thesis by (simp add: spec_inv_def)
next
  case False
  note D = spec_invD [OF assms]
  obtain i where i: "i \<in> set ids" and max: "\<forall>j\<in>set ids. cw j + w j \<le> cw i + w i"
    and step: "spec_step ids w cw =
       ((\<lambda>j. (if j \<in> set ids then cw j + w j else cw j) - (if j = i then total_of ids w else 0)), Some i)"
    by (rule spec_step_eq [OF False, of cw w])
  let ?cw = "fst (spec_step ids w cw)"
  have sum': "(\<Sum>j\<in>set ids. cw j + w j) = total_of ids w"
    by (simp add: sum.distrib D(3) total_of_set [OF D(1)])
  have "(\<Sum>j\<in>set ids. ?cw j) = (\<Sum>j\<in>set ids. cw j + w j) - (\<Sum>j\<in>set ids. if j = i then total_of ids w else 0)"
    by (simp add: step sum_subtractf)
  then have sum0: "(\<Sum>j\<in>set ids. ?cw j) = 0"
    using i by (simp add: sum' sum.delta)
  have "0 < cw i + w i"
  proof (rule ccontr)
    assume "\<not> 0 < cw i + w i"
    with max have "\<And>j. j \<in> set ids \<Longrightarrow> cw j + w j \<le> 0" by force
    then have "(\<Sum>j\<in>set ids. cw j + w j) \<le> 0" by (rule sum_nonpos)
    with sum' total_pos [OF assms False] show False by simp
  qed
  then have "- total_of ids w < ?cw j" if "j \<in> set ids" for j
    using that D(2,4) [OF that] by (auto simp: step)
  with D sum0 show ?thesis by (auto simp: spec_inv_def)
qed

subsection \<open>Fairness of the specification\<close>

text \<open>Each pick adds the weight, and each time it is chosen a backend pays the total.\<close>

lemma spec_count:
  assumes "ids \<noteq> []" and "i \<in> set ids" and "iterate_pick (spec_step ids w) t cw = (cw', rs)"
  shows "cw' i = cw i + int t * w i - total_of ids w * int (count_list rs (Some i))"
  using assms(3)
proof (induction t arbitrary: cw rs)
  case (Suc t)
  obtain k where "spec_step ids w cw =
       ((\<lambda>j. (if j \<in> set ids then cw j + w j else cw j) - (if j = k then total_of ids w else 0)), Some k)"
    by (rule spec_step_eq [OF assms(1), of cw w])
  then obtain cw1 where step: "spec_step ids w cw = (cw1, Some k)"
    and cw1: "cw1 i = cw i + w i - (if i = k then total_of ids w else 0)"
    using assms(2) by auto
  from Suc.prems step obtain rs' where rs: "rs = Some k # rs'"
    and it: "iterate_pick (spec_step ids w) t cw1 = (cw', rs')"
    by (auto split: prod.splits)
  show ?case
    using Suc.IH [OF it] cw1 by (auto simp: rs algebra_simps)
qed simp

lemma spec_iterate_inv:
  "spec_inv ids w cw \<Longrightarrow> spec_inv ids w (fst (iterate_pick (spec_step ids w) t cw))"
  by (rule iterate_pick_inv [where I = "spec_inv ids w"]) (auto intro: spec_step_inv)

lemma spec_quota:
  assumes "spec_inv ids w cw" and "i \<in> set ids" and "cw i = 0"
    and "iterate_pick (spec_step ids w) t cw = (cw', rs)"
  shows "total_of ids w * (int (count_list rs (Some i)) - 1) < int t * w i"
proof -
  from assms(2) have "ids \<noteq> []" by auto
  from spec_count [OF this assms(2,4)] assms(3)
  have "cw' i = int t * w i - total_of ids w * int (count_list rs (Some i))" by simp
  moreover have "- total_of ids w < cw' i"
    using spec_iterate_inv [OF assms(1), of t] assms(2,4) by (simp add: spec_inv_def)
  ultimately show ?thesis by (simp add: algebra_simps)
qed

lemma spec_picks:
  assumes "ids \<noteq> []"
  shows "set (snd (iterate_pick (spec_step ids w) t cw)) \<subseteq> Some ` set ids"
proof (induction t arbitrary: cw)
  case (Suc t)
  obtain k cw1 where "spec_step ids w cw = (cw1, Some k)" "k \<in> set ids"
    by (rule spec_step_eq [OF assms, of cw w]) auto
  with Suc.IH [of cw1] show ?case by (auto simp: case_prod_beta)
qed simp

lemma sum_count_list:
  "set rs \<subseteq> f ` A \<Longrightarrow> inj_on f A \<Longrightarrow> finite A \<Longrightarrow> (\<Sum>i\<in>A. count_list rs (f i)) = length rs"
proof (induction rs)
  case (Cons r rs)
  from Cons.prems obtain a where a: "a \<in> A" "r = f a" by auto
  have "(\<Sum>i\<in>A. count_list (r # rs) (f i)) = (\<Sum>i\<in>A. count_list rs (f i) + (if i = a then 1 else 0))"
    using a Cons.prems(2) by (intro sum.cong) (auto dest: inj_onD)
  also have "\<dots> = length rs + 1"
    using Cons a by (simp add: sum.distrib)
  finally show ?case by simp
qed simp

lemma spec_cycle:
  assumes inv: "spec_inv ids w cw" and zero: "\<And>i. i \<in> set ids \<Longrightarrow> cw i = 0" and i: "i \<in> set ids"
    and it: "iterate_pick (spec_step ids w) (nat (total_of ids w)) cw = (cw', rs)"
  shows "int (count_list rs (Some i)) = w i" and "cw' i = 0"
proof -
  from i have ne: "ids \<noteq> []" by auto
  let ?W = "total_of ids w" and ?c = "\<lambda>i. int (count_list rs (Some i))"
  have W: "0 < ?W" using total_pos [OF inv ne] .
  have le: "?c j \<le> w j" if "j \<in> set ids" for j
  proof -
    have "?W * (?c j - 1) < ?W * w j"
      using spec_quota [OF inv that zero [OF that] it] W by simp
    then show ?thesis using W by simp
  qed
  have len: "length rs = nat ?W" using it by (metis iterate_pick_length snd_conv)
  have "set rs \<subseteq> Some ` set ids" using spec_picks [OF ne] it by (metis snd_conv)
  then have "(\<Sum>j\<in>set ids. count_list rs (Some j)) = nat ?W"
    using len by (simp add: sum_count_list)
  then have "(\<Sum>j\<in>set ids. ?c j) = (\<Sum>j\<in>set ids. w j)"
    using W total_of_set [OF spec_invD(1) [OF inv], of w] by (metis int_nat_eq less_imp_le of_nat_sum)
  then have "(\<Sum>j\<in>set ids. w j - ?c j) = 0" by (simp add: sum_subtractf)
  then have "w i - ?c i = 0"
    using le i by (subst (asm) sum_nonneg_eq_0_iff) auto
  then show c: "?c i = w i" by simp
  show "cw' i = 0"
    using spec_count [OF ne i it] zero [OF i] W c by simp
qed

subsection \<open>The code refines the specification\<close>

definition absCW :: "'cb BackendPool \<Rightarrow> nat \<Rightarrow> int" where
  "absCW p i = (if i < poolSize p then sint (CurrentWeight (backends p ! i)) else 0)"

definition absW :: "'cb BackendPool \<Rightarrow> nat \<Rightarrow> int" where
  "absW p i = (if i < poolSize p then sint (Weight (backends p ! i)) else 0)"

definition wrrTotal :: "'cb gobreaker \<Rightarrow> 'cb BackendPool \<Rightarrow> int" where
  "wrrTotal G p = total_of (healthyIndices G p) (absW p)"

definition fits :: "'cb gobreaker \<Rightarrow> 'cb BackendPool \<Rightarrow> bool" where
  "fits G p \<longleftrightarrow> int (length (healthyIndices G p)) * wrrTotal G p < 2 ^ 63"

definition wrrInv :: "'cb gobreaker \<Rightarrow> 'cb BackendPool \<Rightarrow> bool" where
  "wrrInv G p \<longleftrightarrow> spec_inv (healthyIndices G p) (absW p) (absCW p) \<and> fits G p"

lemma healthyIndices_sorted: "sorted_wrt (<) (healthyIndices G p)"
  by (simp add: healthyIndices_def sorted_wrt_filter)

lemma healthyIndices_distinct [simp]: "distinct (healthyIndices G p)"
  by (simp add: healthyIndices_def)

lemma map_healthyIndices: "map ((!) (backends p)) (healthyIndices G p) = filter (available G) (backends p)"
  using filter_map [of "available G" "(!) (backends p)" "[0..<poolSize p]"]
  by (simp add: healthyIndices_def comp_def map_nth)

lemma sameBackends_indices: "sameBackends p q \<Longrightarrow> healthyIndices G q = healthyIndices G p"
  by (auto simp: healthyIndices_def sameBackends_size intro!: filter_cong
      dest: sameBackends_nth [THEN available_core])

lemma sameBackends_absW: "sameBackends p q \<Longrightarrow> absW q = absW p"
  by (auto simp: absW_def fun_eq_iff sameBackends_size core_def dest: sameBackends_nth)

lemma sint_sum_list:
  "(\<forall>x\<in>set ws. 0 < sint (x::u64)) \<Longrightarrow> (\<Sum>x\<leftarrow>ws. sint x) < 2 ^ 63 \<Longrightarrow>
     sint (sum_list ws) = (\<Sum>x\<leftarrow>ws. sint x) \<and> 0 \<le> (\<Sum>x\<leftarrow>ws. sint x)"
proof (induction ws)
  case (Cons x ws)
  then have "sint (sum_list ws) = (\<Sum>x\<leftarrow>ws. sint x)" and "0 \<le> (\<Sum>x\<leftarrow>ws. sint x)"
    by (auto simp: sum_list_nonneg)
  with Cons.prems show ?case by (auto simp: sint_plus_small)
qed simp

lemma absCW_avail: "availableAt G p i \<Longrightarrow> absCW p i = sint (CurrentWeight (backends p ! i))"
  and absW_avail: "availableAt G p i \<Longrightarrow> absW p i = sint (Weight (backends p ! i))"
  by (simp_all add: availableAt_def absCW_def absW_def)

text \<open>Under the invariant no intermediate value of a pick overflows.\<close>

lemma wrr_bounds:
  assumes "wrrInv G p" and "availableAt G p i"
  shows "0 < wrrTotal G p" and "wrrTotal G p < 2 ^ 63"
    and "- wrrTotal G p < absCW p i" and "0 < absW p i" and "absCW p i + absW p i < 2 ^ 63"
proof -
  let ?ids = "healthyIndices G p" and ?W = "wrrTotal G p"
  have inv: "spec_inv ?ids (absW p) (absCW p)" and fit: "int (length ?ids) * ?W < 2 ^ 63"
    using assms(1) by (auto simp: wrrInv_def fits_def)
  have i: "i \<in> set ?ids" using assms(2) by simp
  have ne: "?ids \<noteq> []" using assms(2) by (auto simp: healthyIndices_Nil)
  then have n: "1 \<le> int (length ?ids)" by (cases ?ids) auto
  show W: "0 < ?W" using total_pos [OF inv ne] by (simp add: wrrTotal_def)
  have "1 * ?W \<le> int (length ?ids) * ?W" using n W by (intro mult_right_mono) auto
  with fit show "?W < 2 ^ 63" by simp
  show "- ?W < absCW p i" "0 < absW p i"
    using spec_invD(2,4) [OF inv] i by (simp_all add: wrrTotal_def)
  have "absCW p i + absW p i \<le> (int (length ?ids) - 1) * (?W - 1) + ?W"
    using spec_upper [OF inv i] weight_le_total [OF inv i] by (simp add: wrrTotal_def)
  also have "\<dots> \<le> int (length ?ids) * ?W" using n by (simp add: algebra_simps)
  finally show "absCW p i + absW p i < 2 ^ 63" using fit by simp
qed

lemma sint_bump:
  assumes "wrrInv G p" and "availableAt G p i"
  shows "sint (CurrentWeight (bumpAvail G (backends p ! i))) = absCW p i + absW p i"
proof -
  have "bumpAvail G (backends p ! i) = bump (backends p ! i)"
    using assms(2) by (simp add: bumpAvail_def availableAt_def)
  then show ?thesis
    using wrr_bounds [OF assms] by (simp add: bump_frame sint_plus_small
        absCW_avail [OF assms(2)] absW_avail [OF assms(2)])
qed

lemma wrrTotal_eq: "wrrTotal G p = (\<Sum>x\<leftarrow>map Weight (filter (available G) (backends p)). sint x)"
proof -
  have "wrrTotal G p = (\<Sum>i\<leftarrow>healthyIndices G p. sint (Weight (backends p ! i)))"
    unfolding wrrTotal_def total_of_def
    by (rule arg_cong [where f = sum_list], rule map_cong) (auto simp: absW_avail)
  also have "\<dots> = (\<Sum>x\<leftarrow>map Weight (map ((!) (backends p)) (healthyIndices G p)). sint x)"
    by (simp add: comp_def)
  finally show ?thesis by (simp only: map_healthyIndices)
qed

lemma sint_totalAvail:
  assumes "wrrInv G p" and "availableAt G p i"
  shows "sint (totalAvail G (backends p)) = wrrTotal G p"
proof -
  have "0 < sint (Weight b)" if "b \<in> set (filter (available G) (backends p))" for b
  proof -
    from that obtain j where "availableAt G p j" "backends p ! j = b"
      by (auto simp: in_set_conv_nth availableAt_def)
    then show ?thesis using wrr_bounds(4) [OF assms(1)] absW_avail by force
  qed
  then show ?thesis
    using sint_sum_list [of "map Weight (filter (available G) (backends p))"]
      wrr_bounds(2) [OF assms] by (auto simp: wrrTotal_eq totalAvail_def)
qed

lemma wrrPay_nth:
  assumes "i < poolSize p" and "j < poolSize p"
  shows "CurrentWeight (wrrPay G (backends p) i ! j) =
    CurrentWeight (bumpAvail G (backends p ! j)) - (if j = i then totalAvail G (backends p) else 0)"
  using assms by (simp add: wrrPay_def nth_list_update)

text \<open>The weights a pick compares, and the weights it leaves.\<close>

definition raised :: "'cb gobreaker \<Rightarrow> 'cb BackendPool \<Rightarrow> nat \<Rightarrow> int" where
  "raised G p = (\<lambda>i. if i \<in> set (healthyIndices G p) then absCW p i + absW p i else absCW p i)"

lemma raised_avail [simp]: "availableAt G p i \<Longrightarrow> raised G p i = absCW p i + absW p i"
  by (simp add: raised_def)

lemma wrr_first_max:
  assumes inv: "wrrInv G p"
    and b: "argmin_ok (available G) wrrKey (map (bumpAvail G) (backends p)) (Some i)"
  shows "first_max (raised G p) (healthyIndices G p) = Some i"
proof (rule first_max_eqI [OF healthyIndices_sorted])
  have i: "availableAt G p i" using wrr_best [OF b] by (simp add: availableAt_def)
  have key: "wrrKey (map (bumpAvail G) (backends p) ! j) = - raised G p j" if "availableAt G p j" for j
    using sint_bump [OF inv that] that by (simp add: availableAt_def raised_def)
  fix j assume "j \<in> set (healthyIndices G p)"
  then have j: "availableAt G p j" by simp
  then show "raised G p j \<le> raised G p i"
    using argmin_ok_SomeD(3) [OF b, of j] key [OF i] key [OF j] i
    by (simp add: availableAt_def bumpAvail_frame)
  show "raised G p j < raised G p i" if "j < i"
    using argmin_ok_SomeD(4) [OF b that] key [OF i] key [OF j] i j
    by (simp add: availableAt_def bumpAvail_frame)
qed (use wrr_best [OF b] in \<open>simp add: availableAt_def\<close>)

lemma absCW_wrrPay:
  assumes inv: "wrrInv G p" and i: "availableAt G p i" and pos: "0 < absCW p i + absW p i"
  shows "absCW (p\<lparr>backends := wrrPay G (backends p) i\<rparr>) = (raised G p)(i := raised G p i - wrrTotal G p)"
    (is "absCW ?p' = _")
proof
  fix j
  have size: "length (wrrPay G (backends p) i) = poolSize p" by (simp add: wrrPay_def Let_def)
  have paid: "sint (CurrentWeight (bumpAvail G (backends p ! i)) - totalAvail G (backends p))
      = absCW p i + absW p i - wrrTotal G p"
    using wrr_bounds [OF inv i] sint_bump [OF inv i] sint_totalAvail [OF inv i] pos
    by (subst sint_minus_small) simp_all
  have pay: "CurrentWeight (backends ?p' ! j) = CurrentWeight (bumpAvail G (backends p ! j))
      - (if j = i then totalAvail G (backends p) else 0)" if "j < poolSize p"
    using i that by (simp add: wrrPay_nth availableAt_def)
  have stay: "bumpAvail G (backends p ! j) = backends p ! j" if "j < poolSize p" "\<not> availableAt G p j"
    using that by (simp add: bumpAvail_def availableAt_def)
  consider "poolSize p \<le> j" | "availableAt G p j" | "j < poolSize p" "\<not> availableAt G p j" by linarith
  then show "absCW ?p' j = ((raised G p)(i := raised G p i - wrrTotal G p)) j"
  proof cases
    case 1
    then show ?thesis using i by (auto simp: absCW_def size availableAt_def raised_def)
  next
    case 2
    then have "j < poolSize p" by (simp add: availableAt_def)
    with 2 show ?thesis
      using pay paid sint_bump [OF inv 2] i by (auto simp: absCW_def [of ?p'] size)
  next
    case 3
    then have "j \<noteq> i" using i by auto
    with 3 show ?thesis using pay stay by (simp add: absCW_def size raised_def)
  qed
qed

lemma wrr_refines:
  assumes inv: "wrrInv G p" and pick: "GetNextBackendByWeightedRoundRobin G p = (p', r)"
  shows "spec_step (healthyIndices G p) (absW p) (absCW p) = (absCW p', r)"
proof -
  obtain best where best: "argmin_ok (available G) wrrKey (map (bumpAvail G) (backends p)) best"
    and eq: "GetNextBackendByWeightedRoundRobin G p =
       (p\<lparr>backends := (case best of None \<Rightarrow> backends p | Some i \<Rightarrow> wrrPay G (backends p) i)\<rparr>, best)"
    by (rule wrr_pick)
  let ?ids = "healthyIndices G p"
  have raised: "(\<lambda>i. if i \<in> set ?ids then absCW p i + absW p i else absCW p i) = raised G p"
    by (simp add: raised_def fun_eq_iff)
  show ?thesis
  proof (cases best)
    case None
    with best have "?ids = []" by (auto simp: healthyIndices_Nil availableAt_def argmin_ok_None bumpAvail_frame)
    with None eq pick show ?thesis by (simp add: spec_step_def)
  next
    case (Some i)
    with best have b: "argmin_ok (available G) wrrKey (map (bumpAvail G) (backends p)) (Some i)" by simp
    have i: "availableAt G p i" using wrr_best [OF b] by (simp add: availableAt_def)
    have step: "spec_step ?ids (absW p) (absCW p) =
        ((raised G p)(i := raised G p i - wrrTotal G p), Some i)"
      unfolding spec_step_def Let_def raised wrr_first_max [OF inv b] wrrTotal_def
      by (simp only: option.case)
    have "spec_inv ?ids (absW p) ((raised G p)(i := raised G p i - wrrTotal G p))"
      using spec_step_inv [of ?ids "absW p" "absCW p"] inv unfolding step by (simp add: wrrInv_def)
    from spec_invD(4) [OF this, of i] have "0 < absCW p i + absW p i"
      using i by (simp add: wrrTotal_def)
    from absCW_wrrPay [OF inv i this] show ?thesis using eq pick Some by (simp add: step)
  qed
qed

lemma wrr_preserves:
  assumes "wrrInv G p"
  shows "wrrInv G (fst (GetNextBackendByWeightedRoundRobin G p))"
proof -
  obtain p' r where pick: "GetNextBackendByWeightedRoundRobin G p = (p', r)" by fastforce
  have same: "sameBackends p p'" using wrr_same [of p G] pick by simp
  have "spec_inv (healthyIndices G p) (absW p) (absCW p')"
    using spec_step_inv [of "healthyIndices G p" "absW p" "absCW p"] assms wrr_refines [OF assms pick]
    by (simp add: wrrInv_def)
  then show ?thesis
    using assms by (simp add: wrrInv_def fits_def wrrTotal_def pick
        sameBackends_indices [OF same] sameBackends_absW [OF same])
qed

text \<open>A run of the code is a run of the specification.\<close>

lemma wrr_run_refines:
  assumes "wrrInv G p" and "iterate_pick (GetNextBackendByWeightedRoundRobin G) t p = (p', rs)"
  shows "iterate_pick (spec_step (healthyIndices G p) (absW p)) t (absCW p) = (absCW p', rs)"
  using assms
proof (induction t arbitrary: p rs)
  case (Suc t)
  obtain q r where pick: "GetNextBackendByWeightedRoundRobin G p = (q, r)" by fastforce
  with Suc.prems(2) obtain rs' where rs: "rs = r # rs'"
    and run: "iterate_pick (GetNextBackendByWeightedRoundRobin G) t q = (p', rs')"
    by (auto split: prod.splits)
  have same: "sameBackends p q" using wrr_same [of p G] pick by simp
  have "wrrInv G q" using wrr_preserves [OF Suc.prems(1)] pick by simp
  from Suc.IH [OF this run] wrr_refines [OF Suc.prems(1) pick] show ?case
    by (simp add: rs sameBackends_indices [OF same] sameBackends_absW [OF same])
qed simp

subsection \<open>Properties\<close>

text \<open>A pool as it is built and then checked: no smooth weight accumulated yet.\<close>

definition wrrStart :: "'cb gobreaker \<Rightarrow> 'cb BackendPool \<Rightarrow> bool" where
  "wrrStart G p \<longleftrightarrow>
     (\<forall>b\<in>set (backends p). 0 < sint (Weight b) \<and> CurrentWeight b = 0) \<and>
     int (poolSize p) * (\<Sum>b\<leftarrow>backends p. sint (Weight b)) < 2 ^ 63"

lemma wrrTotal_le:
  assumes "\<forall>b\<in>set (backends p). 0 < sint (Weight b)"
  shows "0 \<le> wrrTotal G p" and "wrrTotal G p \<le> (\<Sum>b\<leftarrow>backends p. sint (Weight b))"
proof -
  have "0 \<le> (\<Sum>b\<leftarrow>filter (available G) bs. sint (Weight b)) \<and>
      (\<Sum>b\<leftarrow>filter (available G) bs. sint (Weight b)) \<le> (\<Sum>b\<leftarrow>bs. sint (Weight b))"
    if "\<forall>b\<in>set bs. 0 < sint (Weight b)" for bs
    using that by (induction bs) auto
  from this [OF assms] show "0 \<le> wrrTotal G p" "wrrTotal G p \<le> (\<Sum>b\<leftarrow>backends p. sint (Weight b))"
    by (simp_all add: wrrTotal_eq comp_def)
qed

lemma wrrStart_inv:
  assumes "wrrStart G p"
  shows "wrrInv G p" and "absCW p i = 0"
proof -
  have w: "\<forall>b\<in>set (backends p). 0 < sint (Weight b)" and cw: "\<forall>b\<in>set (backends p). CurrentWeight b = 0"
    and fit: "int (poolSize p) * (\<Sum>b\<leftarrow>backends p. sint (Weight b)) < 2 ^ 63"
    using assms by (auto simp: wrrStart_def)
  show zero: "absCW p i = 0" for i using cw by (simp add: absCW_def)
  have pos: "0 < absW p i" if "availableAt G p i" for i
    using w that by (simp add: absW_avail [OF that]) (simp add: availableAt_def)
  have "0 < total_of (healthyIndices G p) (absW p)" if "availableAt G p i" for i
    unfolding total_of_set [OF healthyIndices_distinct] using that pos
    by (intro sum_pos) (auto simp: healthyIndices_Nil)
  then have "spec_inv (healthyIndices G p) (absW p) (absCW p)"
    by (simp add: spec_inv_def zero pos)
  moreover have "int (length (healthyIndices G p)) * wrrTotal G p
      \<le> int (poolSize p) * (\<Sum>b\<leftarrow>backends p. sint (Weight b))"
    using wrrTotal_le [OF w, of G] length_filter_le [of _ "[0..<poolSize p]"]
    by (intro mult_mono) (simp_all add: healthyIndices_def)
  ultimately show "wrrInv G p" using fit by (simp add: wrrInv_def fits_def)
qed

text \<open>Three peers of the weights 5, 1 and 1, all up; a cycle has seven picks.\<close>

definition samplePeers :: "cb_state BackendPool" where
 "samplePeers = samplePool ''weighted-round-robin''
       [plainBackend ''s1'' True 5 0, plainBackend ''s2'' True 1 0, plainBackend ''s3'' True 1 0]"

lemma samplePeers_run:
  "iterate_pick (GetNextBackendByWeightedRoundRobin simpleBreaker) 7 samplePeers =
     (samplePeers, [Some 0, Some 0, Some 1, Some 0, Some 2, Some 0, Some 0])"
  by code_simp
lemma samplePeers_start: "wrrStart simpleBreaker samplePeers" "wrrTotal simpleBreaker samplePeers = 7"
  "availableAt simpleBreaker samplePeers 0"
  by (simp_all add: samplePeers_def wrrStart_def wrrTotal_eq availableAt_def)

text \<open>
  C3: A pick of the code, on 64-bit words, is one step of the smooth algorithm on unbounded
  integers, and keeps the invariant under which nothing overflows.
\<close>

theorem wrr_refinement:
  assumes "wrrInv G p"
  shows "(case GetNextBackendByWeightedRoundRobin G p of (p', r) \<Rightarrow> (absCW p', r)) =
      spec_step (healthyIndices G p) (absW p) (absCW p)
    \<and> wrrInv G (fst (GetNextBackendByWeightedRoundRobin G p))"
  using wrr_refines [OF assms] wrr_preserves [OF assms] by (auto split: prod.splits)

theorem wrr_refinement_witness:
  "wrrInv simpleBreaker (fst (GetNextBackendByWeightedRoundRobin simpleBreaker samplePeers))"
  using wrr_refinement [OF wrrStart_inv(1) [OF samplePeers_start(1)]] by blast

text \<open>
  C4: Smooth weighted round robin is exactly fair: starting from a fresh pool, over one cycle,
  as many picks as the available weights add up to, every available backend is picked as often
  as its weight says, and all smooth weights are back at zero, so that the cycle repeats.
\<close>

theorem wrr_fair_cycle:
  assumes "wrrStart G p" and "availableAt G p i"
    and "iterate_pick (GetNextBackendByWeightedRoundRobin G) (nat (wrrTotal G p)) p = (p', rs)"
  shows "int (count_list rs (Some i)) = sint (Weight (backends p ! i)) \<and> CurrentWeight (backends p' ! i) = 0"
proof -
  note inv = wrrStart_inv(1) [OF assms(1)]
  have spec: "spec_inv (healthyIndices G p) (absW p) (absCW p)" using inv by (simp add: wrrInv_def)
  have i: "i \<in> set (healthyIndices G p)" using assms(2) by simp
  note cycle = spec_cycle [OF spec wrrStart_inv(2) [OF assms(1)] i
      wrr_run_refines [OF inv assms(3), folded wrrTotal_def, unfolded wrrTotal_def]]
  have same: "sameBackends p p'"
    using wrr.iterate_same [of p G "nat (wrrTotal G p)"] assms(3) by simp
  then have "availableAt G p' i" using sameBackends_availableAt assms(2) by blast
  with cycle(2) have "CurrentWeight (backends p' ! i) = 0" by (simp add: absCW_avail sint_eq_0)
  with cycle(1) show ?thesis by (simp add: absW_avail [OF assms(2)])
qed

theorem wrr_fair_cycle_witness:
  "int (count_list [Some 0, Some 0, Some 1, Some 0, Some 2, Some 0, Some 0] (Some (0::nat))) =
     sint (Weight (backends samplePeers ! 0))"
  using wrr_fair_cycle [OF samplePeers_start(1,3)] samplePeers_run
  by (simp only: samplePeers_start(2)) simp

text \<open>
  C37: Within a cycle the picks are spread: after any number \<open>t\<close> of picks from a fresh pool, a
  backend has had less than one pick more than its share \<open>t * weight / total\<close>.
\<close>

theorem wrr_quota:
  assumes "wrrStart G p" and "availableAt G p i"
    and "iterate_pick (GetNextBackendByWeightedRoundRobin G) t p = (p', rs)"
  shows "wrrTotal G p * (int (count_list rs (Some i)) - 1) < int t * sint (Weight (backends p ! i))"
proof -
  note inv = wrrStart_inv(1) [OF assms(1)]
  have spec: "spec_inv (healthyIndices G p) (absW p) (absCW p)" using inv by (simp add: wrrInv_def)
  have i: "i \<in> set (healthyIndices G p)" using assms(2) by simp
  from spec_quota [OF spec i wrrStart_inv(2) [OF assms(1)] wrr_run_refines [OF inv assms(3)]]
  show ?thesis by (simp add: wrrTotal_def absW_avail [OF assms(2)])
qed

theorem wrr_quota_witness:
  "wrrTotal simpleBreaker samplePeers * (int (count_list [Some 0, Some 0, Some 1] (Some (0::nat))) - 1) <
     3 * sint (Weight (backends samplePeers ! 0))"
proof -
  have "snd (iterate_pick (GetNextBackendByWeightedRoundRobin simpleBreaker) 3 samplePeers) = [Some 0, Some 0, Some 1]"
    by code_simp
  then obtain p' where "iterate_pick (GetNextBackendByWeightedRoundRobin simpleBreaker) 3 samplePeers =
      (p', [Some 0, Some 0, Some 1])" by (metis prod.collapse)
  from wrr_quota [OF samplePeers_start(1,3) this] show ?thesis by simp
qed

lemma sum_bumpAvail:
  "sum_list (map CurrentWeight (map (bumpAvail G) bs)) = sum_list (map CurrentWeight bs) + totalAvail G bs"
  by (induction bs) (auto simp: bumpAvail_def bump_def totalAvail_def algebra_simps)

lemma sum_list_pay:
  fixes xs :: "'a::ab_group_add list"
  shows "i < length xs \<Longrightarrow> sum_list (xs[i := xs ! i - x]) = sum_list xs - x"
  by (induction xs arbitrary: i) (auto simp: algebra_simps split: nat.splits)

text \<open>
  However the health of the backends changes between picks, the smooth weights of a pool
  always add up to the same 64-bit word: what the available backends gain, the chosen one pays.
\<close>

theorem wrr_sum_constant:
  "sum_list (map CurrentWeight (backends (fst (GetNextBackendByWeightedRoundRobin G p)))) =
   sum_list (map CurrentWeight (backends p))"
proof -
  obtain best where best: "argmin_ok (available G) wrrKey (map (bumpAvail G) (backends p)) best"
    and eq: "GetNextBackendByWeightedRoundRobin G p =
       (p\<lparr>backends := (case best of None \<Rightarrow> backends p | Some i \<Rightarrow> wrrPay G (backends p) i)\<rparr>, best)"
    by (rule wrr_pick)
  show ?thesis
  proof (cases best)
    case (Some i)
    have "i < poolSize p" using argmin_ok_SomeD(1) [OF best [unfolded Some]] by simp
    then have "map CurrentWeight (wrrPay G (backends p) i) =
        (map CurrentWeight (map (bumpAvail G) (backends p)))
          [i := map CurrentWeight (map (bumpAvail G) (backends p)) ! i - totalAvail G (backends p)]"
      by (simp add: wrrPay_def Let_def map_update)
    with \<open>i < poolSize p\<close> show ?thesis
      using sum_list_pay [of i "map CurrentWeight (map (bumpAvail G) (backends p))"]
      by (simp only: eq Some sum_bumpAvail length_map) (simp add: sum_bumpAvail)
  qed (simp add: eq)
qed

end
