(* ===== verification/RoundRobinConc.thy ===== *)
theory RoundRobinConc
  imports Strategy
begin

text \<open>
  \<open>GetNextBackendByRoundRobin\<close> as several goroutines run it at once.  It takes no lock: the
  goroutines share the counter, which each of them moves with an atomic add, and between the add
  and the look at the backend, and between two rounds of its loop, any other goroutine may run.

  A goroutine is at the head of its loop with \<open>i\<close> rounds behind it (\<open>RRLoop i\<close>), has drawn the
  index it will test (\<open>RRTry i k\<close>), or has returned (\<open>RRDone\<close>).  The state is the counter and
  the list of goroutines; \<open>rr_step\<close> is one atomic step of one of them.  The health of the
  backends does not change during the picks.

  The facts: what is returned is available; every goroutine returns after a bounded number of
  steps; with all backends available any interleaving hands out what a sequence of picks would;
  but a goroutine may return \<open>nil\<close> although a backend is available the whole time.
\<close>

datatype rr_pc = RRLoop nat | RRTry nat nat | RRDone "nat option"

type_synonym rr_state = "u64 \<times> rr_pc list"

inductive rr_step :: "'cb gobreaker \<Rightarrow> 'cb Backend list \<Rightarrow> rr_state \<Rightarrow> rr_state \<Rightarrow> bool"
  for G bs where
  draw: "t < length pcs \<Longrightarrow> pcs ! t = RRLoop i \<Longrightarrow> i < length bs \<Longrightarrow>
    rr_step G bs (cur, pcs) (cur + 1, pcs[t := RRTry i (unat (cur + 1) mod length bs)])"
| hit: "t < length pcs \<Longrightarrow> pcs ! t = RRTry i k \<Longrightarrow> available G (bs ! k) \<Longrightarrow>
    rr_step G bs (cur, pcs) (cur, pcs[t := RRDone (Some k)])"
| miss: "t < length pcs \<Longrightarrow> pcs ! t = RRTry i k \<Longrightarrow> \<not> available G (bs ! k) \<Longrightarrow>
    rr_step G bs (cur, pcs) (cur, pcs[t := RRLoop (Suc i)])"
| exhausted: "t < length pcs \<Longrightarrow> pcs ! t = RRLoop i \<Longrightarrow> \<not> i < length bs \<Longrightarrow>
    rr_step G bs (cur, pcs) (cur, pcs[t := RRDone None])"

inductive_cases rr_stepE: "rr_step G bs s s'"

inductive rr_run :: "'cb gobreaker \<Rightarrow> 'cb Backend list \<Rightarrow> rr_state \<Rightarrow> nat \<Rightarrow> rr_state \<Rightarrow> bool" for G bs s where
  rr_refl: "rr_run G bs s 0 s"
| rr_next: "rr_run G bs s n s' \<Longrightarrow> rr_step G bs s' s'' \<Longrightarrow> rr_run G bs s (Suc n) s''"

definition rr_start :: "u64 \<Rightarrow> nat \<Rightarrow> rr_state" where
  "rr_start cur m = (cur, replicate m (RRLoop 0))"

subsection \<open>What is returned is available\<close>

definition rr_safe :: "'cb gobreaker \<Rightarrow> 'cb Backend list \<Rightarrow> rr_state \<Rightarrow> bool" where
  "rr_safe G bs s \<longleftrightarrow>
     (\<forall>pc\<in>set (snd s). case pc of
        RRLoop i \<Rightarrow> True
      | RRTry i k \<Rightarrow> k < length bs
      | RRDone r \<Rightarrow> (\<forall>k. r = Some k \<longrightarrow> k < length bs \<and> available G (bs ! k)))"

lemma rr_safe_step:
  assumes "rr_step G bs s s'" and "rr_safe G bs s"
  shows "rr_safe G bs s'"
  using assms(1)
proof cases
  case (draw t pcs i cur)
  then have "bs \<noteq> []" by force
  with draw assms(2) show ?thesis by (auto simp: rr_safe_def dest!: set_list_update_cases)
next
  case (hit t pcs i k cur)
  then have "k < length bs" using assms(2) by (force simp: rr_safe_def dest: nth_mem)
  with hit assms(2) show ?thesis by (auto simp: rr_safe_def dest!: set_list_update_cases)
next
  case (miss t pcs i k cur)
  with assms(2) show ?thesis by (auto simp: rr_safe_def dest!: set_list_update_cases)
next
  case (exhausted t pcs i cur)
  with assms(2) show ?thesis by (auto simp: rr_safe_def dest!: set_list_update_cases)
qed

lemma rr_safe_run: "rr_run G bs s n s' \<Longrightarrow> rr_safe G bs s \<Longrightarrow> rr_safe G bs s'"
  by (induction rule: rr_run.induct) (auto intro: rr_safe_step)

lemma rr_safe_start: "rr_safe G bs (rr_start cur m)"
  by (auto simp: rr_safe_def rr_start_def)

subsection \<open>Every goroutine returns\<close>

fun rr_left :: "nat \<Rightarrow> rr_pc \<Rightarrow> nat" where
  "rr_left n (RRLoop i) = Suc (2 * (n - i))"
| "rr_left n (RRTry i k) = 2 * (n - i)"
| "rr_left n (RRDone r) = 0"

definition rr_total :: "nat \<Rightarrow> rr_state \<Rightarrow> nat" where
  "rr_total n s = (\<Sum>pc\<leftarrow>snd s. rr_left n pc)"

text \<open>A goroutine that has drawn an index is in one of its \<open>n\<close> rounds.\<close>

definition rr_inRound :: "nat \<Rightarrow> rr_state \<Rightarrow> bool" where
  "rr_inRound n s \<longleftrightarrow> (\<forall>i k. RRTry i k \<in> set (snd s) \<longrightarrow> i < n)"

lemma rr_inRound_nth: "rr_inRound n (cur, pcs) \<Longrightarrow> t < length pcs \<Longrightarrow> pcs ! t = RRTry i k \<Longrightarrow> i < n"
  by (metis nth_mem rr_inRound_def snd_conv)

lemma sum_list_lower:
  "t < length xs \<Longrightarrow> f y < f (xs ! t) \<Longrightarrow> (\<Sum>x\<leftarrow>xs[t := y]. f x) < (\<Sum>x\<leftarrow>xs. (f x :: nat))"
  by (induction xs arbitrary: t) (auto split: nat.splits simp: nth_Cons)

lemma rr_step_total:
  assumes "rr_step G bs s s'" and "rr_inRound (length bs) s"
  shows "rr_total (length bs) s' < rr_total (length bs) s \<and> rr_inRound (length bs) s'"
  using assms(1)
proof cases
  case (draw t pcs i cur)
  with assms(2) show ?thesis
    by (auto simp: rr_total_def rr_inRound_def intro!: sum_list_lower dest!: set_list_update_cases)
next
  case (hit t pcs i k cur)
  then have "i < length bs" using assms(2) rr_inRound_nth by simp
  with hit assms(2) show ?thesis
    by (auto simp: rr_total_def rr_inRound_def intro!: sum_list_lower dest!: set_list_update_cases)
next
  case (miss t pcs i k cur)
  then have "i < length bs" using assms(2) rr_inRound_nth by simp
  with miss assms(2) show ?thesis
    by (auto simp: rr_total_def rr_inRound_def intro!: sum_list_lower dest!: set_list_update_cases)
next
  case (exhausted t pcs i cur)
  with assms(2) show ?thesis
    by (auto simp: rr_total_def rr_inRound_def intro!: sum_list_lower dest!: set_list_update_cases)
qed

lemma rr_run_total:
  "rr_run G bs s n s' \<Longrightarrow> rr_inRound (length bs) s \<Longrightarrow>
     n + rr_total (length bs) s' \<le> rr_total (length bs) s \<and> rr_inRound (length bs) s'"
  by (induction rule: rr_run.induct) (auto dest!: rr_step_total)

lemma rr_start_total: "rr_total n (rr_start cur m) = m * Suc (2 * n)"
  by (simp add: rr_total_def rr_start_def sum_list_replicate)

lemma rr_start_inRound: "rr_inRound n (rr_start cur m)"
  by (auto simp: rr_inRound_def rr_start_def)

lemma rr_progress:
  assumes "rr_total (length bs) s \<noteq> 0" and "rr_inRound (length bs) s"
  shows "\<exists>s'. rr_step G bs s s'"
proof -
  obtain cur pcs where s: "s = (cur, pcs)" by fastforce
  obtain pc where "pc \<in> set pcs" "rr_left (length bs) pc \<noteq> 0"
    using assms(1) by (auto simp: rr_total_def s)
  then obtain t where t: "t < length pcs" "rr_left (length bs) (pcs ! t) \<noteq> 0"
    by (auto simp: in_set_conv_nth)
  show ?thesis
  proof (cases "pcs ! t")
    case (RRLoop i)
    with t(1) show ?thesis unfolding s by (cases "i < length bs") (blast intro: draw exhausted)+
  next
    case (RRTry i k)
    with t(1) show ?thesis unfolding s by (cases "available G (bs ! k)") (blast intro: hit miss)+
  next
    case (RRDone r)
    with t(2) show ?thesis by simp
  qed
qed

subsection \<open>A healthy pool\<close>

text \<open>
  With all backends available no goroutine misses, and the indices handed out are those of the
  counter values passed so far.
\<close>

definition ticket :: "rr_pc \<Rightarrow> nat list" where
  "ticket pc = (case pc of RRLoop _ \<Rightarrow> [] | RRTry _ k \<Rightarrow> [k] | RRDone r \<Rightarrow> (case r of None \<Rightarrow> [] | Some k \<Rightarrow> [k]))"

definition tickets :: "rr_pc list \<Rightarrow> nat multiset" where
  "tickets pcs = mset (concat (map ticket pcs))"

definition passed :: "u64 \<Rightarrow> nat \<Rightarrow> nat \<Rightarrow> nat multiset" where
  "passed c n k = mset (map (\<lambda>t. (unat c + Suc t) mod n) [0..<k])"

definition rr_healthy_inv :: "u64 \<Rightarrow> nat \<Rightarrow> rr_state \<Rightarrow> nat \<Rightarrow> bool" where
  "rr_healthy_inv c n s m \<longleftrightarrow>
     fst s = c + of_nat m \<and> tickets (snd s) = passed c n m
     \<and> (\<forall>pc\<in>set (snd s). pc \<noteq> RRDone None \<and> (\<forall>i. pc = RRLoop i \<longrightarrow> i = 0))"

lemma tickets_update:
  "t < length pcs \<Longrightarrow> tickets (pcs[t := pc]) + mset (ticket (pcs ! t)) = tickets pcs + mset (ticket pc)"
  by (induction pcs arbitrary: t) (auto simp: tickets_def nth_Cons ac_simps split: nat.splits)

lemma size_passed [simp]: "size (passed c n k) = k"
  by (simp add: passed_def)

lemma ticket_le: "length (ticket pc) \<le> 1"
  by (auto simp: ticket_def split: rr_pc.splits option.splits)

lemma tickets_bound: "size (tickets pcs) \<le> length pcs"
proof (induction pcs)
  case (Cons pc pcs)
  then show ?case using ticket_le [of pc] by (simp add: tickets_def)
qed (simp add: tickets_def)

lemma rr_healthy_step:
  assumes "rr_step G bs s s'" and "bs \<noteq> []" and "\<forall>b\<in>set bs. available G b" and "rr_safe G bs s"
    and "rr_healthy_inv c (length bs) s m" and "unat c + length (snd s) < 2 ^ 64"
  shows "(\<exists>m'. rr_healthy_inv c (length bs) s' m') \<and> length (snd s') = length (snd s)"
  using assms(1)
proof cases
  case (draw t pcs i cur)
  let ?k = "unat (cur + 1) mod length bs"
  have inv: "cur = c + of_nat m" "tickets pcs = passed c (length bs) m"
    "\<forall>pc\<in>set pcs. pc \<noteq> RRDone None \<and> (\<forall>i. pc = RRLoop i \<longrightarrow> i = 0)"
    using assms(5) draw by (auto simp: rr_healthy_inv_def)
  have new: "tickets (pcs[t := RRTry i ?k]) = tickets pcs + {# ?k #}"
    using draw tickets_update [of t pcs "RRTry i ?k"] by (simp add: ticket_def)
  then have "Suc m \<le> length pcs" using tickets_bound [of "pcs[t := RRTry i ?k]"] inv(2) by simp
  then have "unat (c + of_nat (Suc m)) = unat c + Suc m"
    using assms(6) draw by (intro unat_plus_small) simp
  then have "?k = (unat c + Suc m) mod length bs" by (simp add: inv(1) algebra_simps)
  then have "tickets (pcs[t := RRTry i ?k]) = passed c (length bs) (Suc m)"
    unfolding new inv(2) by (simp add: passed_def)
  moreover have "cur + 1 = c + of_nat (Suc m)" by (simp add: inv(1))
  moreover have "\<forall>pc\<in>set (pcs[t := RRTry i ?k]). pc \<noteq> RRDone None \<and> (\<forall>i. pc = RRLoop i \<longrightarrow> i = 0)"
    using inv(3) by (auto dest!: set_list_update_cases)
  ultimately have "rr_healthy_inv c (length bs) s' (Suc m)"
    unfolding rr_healthy_inv_def draw(2) fst_conv snd_conv by blast
  then show ?thesis using draw by auto
next
  case (hit t pcs i k cur)
  then have "tickets (pcs[t := RRDone (Some k)]) = tickets pcs"
    using tickets_update [of t pcs "RRDone (Some k)"] by (simp add: ticket_def)
  moreover have "\<forall>pc\<in>set (pcs[t := RRDone (Some k)]). pc \<noteq> RRDone None \<and> (\<forall>i. pc = RRLoop i \<longrightarrow> i = 0)"
    using assms(5) hit(1) by (auto simp: rr_healthy_inv_def dest!: set_list_update_cases)
  ultimately have "rr_healthy_inv c (length bs) s' m" using hit(1,2) assms(5) by (simp add: rr_healthy_inv_def)
  then show ?thesis using hit by auto
next
  case (miss t pcs i k cur)
  then have "RRTry i k \<in> set pcs" by (metis nth_mem)
  then have "k < length bs" using assms(4) miss by (force simp: rr_safe_def)
  with assms(3) miss show ?thesis by simp
next
  case (exhausted t pcs i cur)
  then have "RRLoop i \<in> set pcs" by (metis nth_mem)
  then have "i = 0" using assms(5) exhausted by (auto simp: rr_healthy_inv_def)
  with assms(2) exhausted show ?thesis by simp
qed

lemma rr_healthy_run:
  assumes "rr_run G bs s n s'" and "bs \<noteq> []" and "\<forall>b\<in>set bs. available G b" and "rr_safe G bs s"
    and "rr_healthy_inv c (length bs) s m" and "unat c + length (snd s) < 2 ^ 64"
  shows "(\<exists>m'. rr_healthy_inv c (length bs) s' m') \<and> length (snd s') = length (snd s)"
  using assms
proof (induction rule: rr_run.induct)
  case (rr_next n s' s'')
  then obtain m' where inv: "rr_healthy_inv c (length bs) s' m'" and len: "length (snd s') = length (snd s)" by blast
  have "rr_safe G bs s'" using rr_safe_run [OF rr_next.hyps(1) rr_next.prems(3)] .
  from rr_healthy_step [OF rr_next.hyps(2) rr_next.prems(1,2) this inv] len rr_next.prems(5)
  show ?case by simp
qed blast

lemma rr_healthy_start: "rr_healthy_inv c n (rr_start c m) 0"
proof -
  have "tickets (replicate m (RRLoop 0)) = {#}" by (induction m) (simp_all add: tickets_def ticket_def)
  then show ?thesis by (auto simp: rr_healthy_inv_def rr_start_def passed_def)
qed

lemma tickets_done: "\<forall>pc\<in>set pcs. \<exists>k. pc = RRDone (Some k) \<Longrightarrow>
    image_mset RRDone (image_mset Some (tickets pcs)) = mset pcs"
  by (induction pcs) (auto simp: tickets_def ticket_def)

subsection \<open>Properties\<close>

text \<open>
  C25: However the goroutines interleave, a backend that round robin returns to one of them
  exists and is available, and none of them can take more than \<open>2 * n + 1\<close> steps: after
  \<open>m * (2 * n + 1)\<close> steps of \<open>m\<close> goroutines at the latest, and only then if not before, all have
  returned.
\<close>

theorem rr_concurrent_sound:
  assumes "rr_run G bs (rr_start c m) k (cur, pcs)"
  shows "(\<forall>i. RRDone (Some i) \<in> set pcs \<longrightarrow> i < length bs \<and> available G (bs ! i))
    \<and> k \<le> m * (2 * length bs + 1)
    \<and> ((\<forall>s'. \<not> rr_step G bs (cur, pcs) s') \<longrightarrow> (\<forall>pc\<in>set pcs. \<exists>r. pc = RRDone r))"
proof (intro conjI impI)
  have "rr_safe G bs (cur, pcs)" by (rule rr_safe_run [OF assms rr_safe_start])
  then show "\<forall>i. RRDone (Some i) \<in> set pcs \<longrightarrow> i < length bs \<and> available G (bs ! i)"
    by (force simp: rr_safe_def)
  note total = rr_run_total [OF assms rr_start_inRound, unfolded rr_start_total]
  then show "k \<le> m * (2 * length bs + 1)" by simp
  assume "\<forall>s'. \<not> rr_step G bs (cur, pcs) s'"
  then have "rr_total (length bs) (cur, pcs) = 0" using rr_progress total by blast
  then have "rr_left (length bs) pc = 0" if "pc \<in> set pcs" for pc using that by (auto simp: rr_total_def)
  moreover have "\<exists>r. pc = RRDone r" if "pc \<in> set pcs" "rr_left (length bs) pc = 0" for pc
    by (cases pc) (use that total in \<open>auto simp: rr_inRound_def\<close>)
  ultimately show "\<forall>pc\<in>set pcs. \<exists>r. pc = RRDone r" by blast
qed

text \<open>
  C12: With all backends available, concurrent picks are as fair as sequential ones: once \<open>m\<close>
  goroutines have returned, whatever the interleaving, they hold, in some order, exactly the
  backends that \<open>m\<close> picks in sequence return, and the counter is where those would leave it.
\<close>

theorem rr_concurrent_fair:
  assumes "backends p \<noteq> []" and "\<forall>b\<in>set (backends p). available G b" and "unat (current p) + m < 2 ^ 64"
    and "rr_run G (backends p) (rr_start (current p) m) k (cur, pcs)" and "\<forall>pc\<in>set pcs. \<exists>r. pc = RRDone r"
  shows "mset pcs = image_mset RRDone (mset (snd (iterate_pick (GetNextBackendByRoundRobin G) m p)))
    \<and> cur = current (fst (iterate_pick (GetNextBackendByRoundRobin G) m p))"
proof -
  have "(\<exists>m'. rr_healthy_inv (current p) (poolSize p) (cur, pcs) m') \<and> length pcs = m"
    using rr_healthy_run [OF assms(4,1,2) rr_safe_start rr_healthy_start] assms(3) by (simp add: rr_start_def)
  then obtain m' where inv: "cur = current p + of_nat m'" "tickets pcs = passed (current p) (poolSize p) m'"
    and some: "\<forall>pc\<in>set pcs. \<exists>k. pc = RRDone (Some k)" and len: "length pcs = m"
    using assms(5) by (fastforce simp: rr_healthy_inv_def)
  have all: "image_mset RRDone (image_mset Some (tickets pcs)) = mset pcs" by (rule tickets_done [OF some])
  then have "size (image_mset RRDone (image_mset Some (tickets pcs))) = m" using len by simp
  then have inv': "cur = current p + of_nat m" "tickets pcs = passed (current p) (poolSize p) m"
    using inv by simp_all
  have run: "iterate_pick (GetNextBackendByRoundRobin G) m p = (p\<lparr>current := current p + of_nat m\<rparr>,
      map (\<lambda>t. Some ((unat (current p) + Suc t) mod poolSize p)) [0..<m])"
    using assms(1-3) by (intro roundRobin_run) (simp_all add: allAvailable_def counter_room_def)
  show ?thesis
    unfolding all [symmetric] run inv' by (simp add: passed_def multiset.map_comp comp_def)
qed

lemma mod_two: "2 mod Suc (Suc 0) = 0" "3 mod Suc (Suc 0) = Suc 0" "4 mod Suc (Suc 0) = 0"
  by (simp_all add: numeral_2_eq_2 [symmetric])

lemmas rr_moves = draw [where G = simpleBreaker] hit [where G = simpleBreaker] miss [where G = simpleBreaker]
  exhausted [where G = simpleBreaker]

definition twoUp :: "cb_state BackendPool" where
  "twoUp = samplePool ''round-robin'' [plainBackend ''a'' True 1 0, plainBackend ''b'' True 1 0]"

lemma twoUp_run:
  "rr_run simpleBreaker (backends twoUp) (rr_start 0 2) 4 (2, [RRDone (Some 1), RRDone (Some 0)])"
proof -
  let ?bs = "backends twoUp"
  have "rr_step simpleBreaker ?bs (0, [RRLoop 0, RRLoop 0]) (1, [RRTry 0 1, RRLoop 0])"
    using rr_moves(1) [of 0 "[RRLoop 0, RRLoop 0]" 0 ?bs 0] by (simp add: twoUp_def mod_two)
  moreover have "rr_step simpleBreaker ?bs (1, [RRTry 0 1, RRLoop 0]) (2, [RRTry 0 1, RRTry 0 0])"
    using rr_moves(1) [of 1 "[RRTry 0 1, RRLoop 0]" 0 ?bs 1] by (simp add: twoUp_def mod_two)
  moreover have "rr_step simpleBreaker ?bs (2, [RRTry 0 1, RRTry 0 0]) (2, [RRTry 0 1, RRDone (Some 0)])"
    using rr_moves(2) [of 1 "[RRTry 0 1, RRTry 0 0]" 0 0 ?bs 2] by (simp add: twoUp_def mod_two)
  moreover have "rr_step simpleBreaker ?bs (2, [RRTry 0 1, RRDone (Some 0)]) (2, [RRDone (Some 1), RRDone (Some 0)])"
    using rr_moves(2) [of 0 "[RRTry 0 1, RRDone (Some 0)]" 0 1 ?bs 2] by (simp add: twoUp_def mod_two)
  moreover have "rr_start 0 2 = (0, [RRLoop 0, RRLoop 0])" by (simp add: rr_start_def numeral_2_eq_2)
  ultimately show ?thesis
    by (auto simp: eval_nat_numeral intro!: rr_next rr_refl)
qed

theorem rr_concurrent_sound_witness: "available simpleBreaker (backends twoUp ! 1)"
  using rr_concurrent_sound [OF twoUp_run] by simp

theorem rr_concurrent_fair_witness:
  "mset [RRDone (Some 1), RRDone (Some 0)] =
     image_mset RRDone (mset (snd (iterate_pick (GetNextBackendByRoundRobin simpleBreaker) 2 twoUp)))"
proof -
  have run: "rr_run simpleBreaker (backends twoUp) (rr_start (current twoUp) 2) 4 (2, [RRDone (Some 1), RRDone (Some 0)])"
    using twoUp_run by (simp add: twoUp_def)
  show ?thesis
    by (rule rr_concurrent_fair [OF _ _ _ run, THEN conjunct1]) (simp_all add: twoUp_def)
qed

text \<open>
  A goroutine can be told that there is no backend although one is available throughout: with
  the first of two backends down, a second goroutine that draws the odd counter values between
  the draws of the first makes the first test the failed backend twice.
\<close>

theorem rr_concurrent_miss:
  "\<exists>cur. rr_run simpleBreaker [plainBackend ''a'' False 1 0, plainBackend ''b'' True 1 0] (rr_start 1 2) 7
     (cur, [RRDone None, RRDone (Some 1)])
   \<and> available simpleBreaker (plainBackend ''b'' True 1 0)"
proof -
  let ?bs = "[plainBackend ''a'' False 1 0, plainBackend ''b'' True 1 0]"
  have s1: "rr_step simpleBreaker ?bs (1, [RRLoop 0, RRLoop 0]) (2, [RRTry 0 0, RRLoop 0])"
    using rr_moves(1) [of 0 "[RRLoop 0, RRLoop 0]" 0 ?bs 1] by (simp add: mod_two)
  have s2: "rr_step simpleBreaker ?bs (2, [RRTry 0 0, RRLoop 0]) (3, [RRTry 0 0, RRTry 0 1])"
    using rr_moves(1) [of 1 "[RRTry 0 0, RRLoop 0]" 0 ?bs 2] by (simp add: mod_two)
  have s3: "rr_step simpleBreaker ?bs (3, [RRTry 0 0, RRTry 0 1]) (3, [RRLoop 1, RRTry 0 1])"
    using rr_moves(3) [of 0 "[RRTry 0 0, RRTry 0 1]" 0 0 ?bs 3] by (simp add: mod_two)
  have s4: "rr_step simpleBreaker ?bs (3, [RRLoop 1, RRTry 0 1]) (4, [RRTry 1 0, RRTry 0 1])"
    using rr_moves(1) [of 0 "[RRLoop 1, RRTry 0 1]" 1 ?bs 3] by (simp add: mod_two)
  have s5: "rr_step simpleBreaker ?bs (4, [RRTry 1 0, RRTry 0 1]) (4, [RRLoop 2, RRTry 0 1])"
    using rr_moves(3) [of 0 "[RRTry 1 0, RRTry 0 1]" 1 0 ?bs 4] by (simp add: numeral_2_eq_2)
  have s6: "rr_step simpleBreaker ?bs (4, [RRLoop 2, RRTry 0 1]) (4, [RRDone None, RRTry 0 1])"
    using rr_moves(4) [of 0 "[RRLoop 2, RRTry 0 1]" 2 ?bs 4] by simp
  have s7: "rr_step simpleBreaker ?bs (4, [RRDone None, RRTry 0 1]) (4, [RRDone None, RRDone (Some 1)])"
    using rr_moves(2) [of 1 "[RRDone None, RRTry 0 1]" 0 1 ?bs 4] by simp
  have "rr_start 1 2 = (1, [RRLoop 0, RRLoop 0])" by (simp add: rr_start_def numeral_2_eq_2)
  then have "rr_run simpleBreaker ?bs (rr_start 1 2) (Suc (Suc (Suc (Suc (Suc (Suc (Suc 0)))))))
      (4, [RRDone None, RRDone (Some 1)])"
    using rr_next [OF rr_next [OF rr_next [OF rr_next [OF rr_next [OF rr_next [OF rr_next
      [OF rr_refl s1] s2] s3] s4] s5] s6] s7] by simp
  then show ?thesis by (intro exI [of _ 4]) (simp add: eval_nat_numeral)
qed

end
