(* ===== verification/GoHttp.thy ===== *)
theory GoHttp
  imports GoStrings
begin

text \<open>
  The part of \<open>net/http\<close> the balancer works with.

  \<^item> Headers: \<open>http.Header\<close> is a map from canonical keys to lists of values, modelled as its
    list of entries; \<open>Get\<close>, \<open>Set\<close>, \<open>Add\<close> and \<open>Clone\<close> canonicalise the key as
    \<open>textproto.CanonicalMIMEHeaderKey\<close> does.  \<open>removeHopByHop\<close> is what \<open>httputil.ReverseProxy\<close>
    drops from the headers of a request and of a response.
  \<^item> \<open>ResponseWriter\<close>: a header map, the status once it has been sent, and the body.  The
    first \<open>WriteHeader\<close> wins, a \<open>Write\<close> without one sends status 200, and so does the server
    when a handler returns without writing.
\<close>

subsection \<open>Header keys\<close>

definition charIn :: "nat \<Rightarrow> nat \<Rightarrow> char \<Rightarrow> bool" where
  "charIn lo hi c \<longleftrightarrow> lo \<le> of_char c \<and> of_char c \<le> hi"

abbreviation isLowerChar :: "char \<Rightarrow> bool" where
  "isLowerChar \<equiv> charIn 97 122"

abbreviation isUpperChar :: "char \<Rightarrow> bool" where
  "isUpperChar \<equiv> charIn 65 90"

text \<open>\<open>validHeaderFieldByte\<close>: the token characters of RFC 7230.\<close>

definition isTokenChar :: "char \<Rightarrow> bool" where
  "isTokenChar c \<longleftrightarrow>
     charIn 48 57 c \<or> isLowerChar c \<or> isUpperChar c \<or>
     c \<in> set (''!#$%&*+-.^_|~'' @ [CHR 0x27, CHR 0x60])"

definition upChar :: "char \<Rightarrow> char" where
  "upChar c = (if isLowerChar c then char_of (of_char c - 32 :: nat) else c)"

definition downChar :: "char \<Rightarrow> char" where
  "downChar c = (if isUpperChar c then char_of (of_char c + 32 :: nat) else c)"

fun canonLoop :: "bool \<Rightarrow> string \<Rightarrow> string" where
  "canonLoop upper [] = []"
| "canonLoop upper (c # cs) =
     (let c' = (if upper then upChar c else downChar c) in c' # canonLoop (c' = CHR ''-'') cs)"

definition CanonicalKey :: "string \<Rightarrow> string" where
  "CanonicalKey s = (if list_all isTokenChar s then canonLoop True s else s)"

lemma upChar_cases: "upChar c = c \<and> \<not> isLowerChar c \<or> isLowerChar c \<and> isUpperChar (upChar c)"
  by (auto simp: upChar_def charIn_def)

lemma downChar_cases: "downChar c = c \<and> \<not> isUpperChar c \<or> isUpperChar c \<and> isLowerChar (downChar c)"
  by (auto simp: downChar_def charIn_def)

lemma up_not_low: "isUpperChar c \<Longrightarrow> \<not> isLowerChar c"
  by (simp add: charIn_def)

lemma upChar_idem [simp]: "upChar (upChar c) = upChar c"
  using upChar_cases [of c] up_not_low [of "upChar c"] by (auto simp: upChar_def)

lemma downChar_idem [simp]: "downChar (downChar c) = downChar c"
  using downChar_cases [of c] up_not_low [of "downChar c"] by (auto simp: downChar_def)

lemma canonLoop_idem [simp]: "canonLoop u (canonLoop u s) = canonLoop u s"
  by (induction u s rule: canonLoop.induct) (auto simp: Let_def)

lemma canonLoop_token: "list_all isTokenChar s \<Longrightarrow> list_all isTokenChar (canonLoop u s)"
proof (induction u s rule: canonLoop.induct)
  case (2 u c cs)
  have "isTokenChar (upChar c)" "isTokenChar (downChar c)"
    using 2(2) upChar_cases [of c] downChar_cases [of c] by (auto simp: isTokenChar_def)
  with 2 show ?case by (simp add: Let_def)
qed simp

lemma CanonicalKey_idem [simp]: "CanonicalKey (CanonicalKey s) = CanonicalKey s"
  by (simp add: CanonicalKey_def canonLoop_token)

subsection \<open>Headers\<close>

type_synonym Header = "(string \<times> string list) list"

fun hdrPut :: "Header \<Rightarrow> string \<Rightarrow> string list \<Rightarrow> Header" where
  "hdrPut [] k vs = [(k, vs)]"
| "hdrPut ((k', vs') # h) k vs = (if k' = k then (k, vs) # h else (k', vs') # hdrPut h k vs)"

definition hdrValues :: "Header \<Rightarrow> string \<Rightarrow> string list" where
  "hdrValues h key = (case map_of h (CanonicalKey key) of None \<Rightarrow> [] | Some vs \<Rightarrow> vs)"

definition hdrGet :: "Header \<Rightarrow> string \<Rightarrow> string" where
  "hdrGet h key = (case hdrValues h key of [] \<Rightarrow> [] | v # _ \<Rightarrow> v)"

definition hdrSet :: "Header \<Rightarrow> string \<Rightarrow> string \<Rightarrow> Header" where
  "hdrSet h key v = hdrPut h (CanonicalKey key) [v]"

definition hdrAdd :: "Header \<Rightarrow> string \<Rightarrow> string \<Rightarrow> Header" where
  "hdrAdd h key v = hdrPut h (CanonicalKey key) (hdrValues h key @ [v])"

definition hdrDel :: "Header \<Rightarrow> string \<Rightarrow> Header" where
  "hdrDel h key = filter (\<lambda>(k, _). k \<noteq> CanonicalKey key) h"

text \<open>The nested loop \<open>for key, values := range m { for _, v := range values { Add(key, v) } }\<close>.\<close>

definition hdrAddAll :: "Header \<Rightarrow> Header \<Rightarrow> Header" where
  "hdrAddAll h m = foldl (\<lambda>h (key, values). foldl (\<lambda>h v. hdrAdd h key v) h values) h m"

definition canonicalHeader :: "Header \<Rightarrow> bool" where
  "canonicalHeader h \<longleftrightarrow> distinct (map fst h) \<and> (\<forall>k\<in>fst ` set h. CanonicalKey k = k)"

lemma map_of_hdrPut [simp]: "map_of (hdrPut h k vs) = (map_of h)(k \<mapsto> vs)"
  by (induction h k vs rule: hdrPut.induct) (auto simp: fun_eq_iff)

lemma hdrPut_keys: "fst ` set (hdrPut h k vs) = insert k (fst ` set h)"
  by (induction h k vs rule: hdrPut.induct) auto

lemma hdrPut_distinct: "distinct (map fst h) \<Longrightarrow> distinct (map fst (hdrPut h k vs))"
proof (induction h k vs rule: hdrPut.induct)
  case (2 k' vs' h k vs)
  then show ?case using hdrPut_keys [of h k vs] by auto
qed simp

lemma canonicalHeader_put: "canonicalHeader h \<Longrightarrow> canonicalHeader (hdrPut h (CanonicalKey k) vs)"
  by (simp add: canonicalHeader_def hdrPut_distinct hdrPut_keys)

lemma canonicalHeader_Nil [simp]: "canonicalHeader []"
  by (simp add: canonicalHeader_def)

lemma canonicalHeader_set [simp]: "canonicalHeader h \<Longrightarrow> canonicalHeader (hdrSet h k v)"
  by (simp add: hdrSet_def canonicalHeader_put)

lemma canonicalHeader_add [simp]: "canonicalHeader h \<Longrightarrow> canonicalHeader (hdrAdd h k v)"
  by (simp add: hdrAdd_def canonicalHeader_put)

lemma canonicalHeader_del [simp]: "canonicalHeader h \<Longrightarrow> canonicalHeader (hdrDel h k)"
  by (auto simp: canonicalHeader_def hdrDel_def distinct_map_filter)

lemma canonicalHeader_addAll [simp]: "canonicalHeader h \<Longrightarrow> canonicalHeader (hdrAddAll h m)"
proof -
  have inner: "canonicalHeader h \<Longrightarrow> canonicalHeader (foldl (\<lambda>h v. hdrAdd h key v) h vs)" for h key vs
    by (induction vs arbitrary: h) auto
  show "canonicalHeader h \<Longrightarrow> ?thesis" unfolding hdrAddAll_def
    by (induction m arbitrary: h) (auto simp: inner)
qed

lemma hdrValues_set [simp]:
  "hdrValues (hdrSet h key v) key' = (if CanonicalKey key = CanonicalKey key' then [v] else hdrValues h key')"
  by (simp add: hdrValues_def hdrSet_def)

lemma hdrValues_add [simp]:
  "hdrValues (hdrAdd h key v) key' =
     (if CanonicalKey key = CanonicalKey key' then hdrValues h key' @ [v] else hdrValues h key')"
  by (auto simp: hdrValues_def hdrAdd_def)

lemma hdrGet_set [simp]:
  "hdrGet (hdrSet h key v) key' = (if CanonicalKey key = CanonicalKey key' then v else hdrGet h key')"
  by (simp add: hdrGet_def)

lemma hdrValues_add_loop:
  "hdrValues (foldl (\<lambda>h v. hdrAdd h key v) h vs) key' =
     (if CanonicalKey key = CanonicalKey key' then hdrValues h key' @ vs else hdrValues h key')"
  by (induction vs arbitrary: h) auto

lemma hdrValues_notin: "canonicalHeader m \<Longrightarrow> CanonicalKey k \<notin> fst ` set m \<Longrightarrow> hdrValues m k = []"
  by (simp add: hdrValues_def map_of_eq_None_iff [THEN iffD2])

lemma hdrValues_Nil [simp]: "hdrValues [] k = []"
  by (simp add: hdrValues_def)

lemma hdrValues_Cons [simp]:
  "hdrValues ((key, vs) # m) k = (if CanonicalKey k = key then vs else hdrValues m k)"
  by (simp add: hdrValues_def)

text \<open>Copying a header appends its values, key by key.\<close>

lemma hdrValues_addAll:
  "canonicalHeader m \<Longrightarrow> hdrValues (hdrAddAll h m) k = hdrValues h k @ hdrValues m k"
proof (induction m arbitrary: h)
  case Nil
  then show ?case by (simp add: hdrAddAll_def)
next
  case (Cons e m)
  obtain key vs where e: "e = (key, vs)" by fastforce
  have m: "canonicalHeader m" and key: "CanonicalKey key = key" and new: "key \<notin> fst ` set m"
    using Cons.prems by (auto simp: canonicalHeader_def e)
  let ?h = "foldl (\<lambda>h v. hdrAdd h key v) h vs"
  have "hdrValues (hdrAddAll h (e # m)) k = hdrValues ?h k @ hdrValues m k"
    using Cons.IH [OF m, of ?h] by (simp add: hdrAddAll_def e)
  then show ?case
    using hdrValues_notin [OF m, of k] new key
    by (auto simp: hdrValues_add_loop e)
qed

subsection \<open>Hop-by-hop headers\<close>

text \<open>
  What \<open>httputil.ReverseProxy\<close> removes from a header before it passes it on, in either direction:
  the names listed in the \<open>Connection\<close> header, and a fixed list.
\<close>

fun splitComma :: "string \<Rightarrow> string \<Rightarrow> string list" where
  "splitComma acc [] = [acc]"
| "splitComma acc (c # cs) = (if c = CHR '','' then acc # splitComma [] cs else splitComma (acc @ [c]) cs)"

definition isSpaceChar :: "char \<Rightarrow> bool" where
  "isSpaceChar c \<longleftrightarrow> c \<in> {CHR 0x20, CHR 0x09, CHR 0x0A, CHR 0x0D}"

definition trimSpace :: "string \<Rightarrow> string" where
  "trimSpace s = rev (dropWhile isSpaceChar (rev (dropWhile isSpaceChar s)))"

definition hopHeaders :: "string list" where
  "hopHeaders = [''Connection'', ''Proxy-Connection'', ''Keep-Alive'', ''Proxy-Authenticate'', ''Proxy-Authorization'',
     ''Te'', ''Trailer'', ''Transfer-Encoding'', ''Upgrade'']"

definition connectionHeaders :: "Header \<Rightarrow> string list" where
  "connectionHeaders h = filter (\<lambda>k. k \<noteq> []) (map trimSpace (concat (map (splitComma []) (hdrValues h ''Connection''))))"

definition removeHopByHop :: "Header \<Rightarrow> Header" where
  "removeHopByHop h = foldl hdrDel (foldl hdrDel h (connectionHeaders h)) hopHeaders"

lemma map_of_hdrDel: "map_of (hdrDel h k) = (map_of h)(CanonicalKey k := None)"
  by (induction h) (auto simp: hdrDel_def fun_eq_iff)

lemma hdrValues_del [simp]:
  "hdrValues (hdrDel h key) key' = (if CanonicalKey key = CanonicalKey key' then [] else hdrValues h key')"
  by (auto simp: hdrValues_def map_of_hdrDel)

lemma hdrValues_dels:
  "hdrValues (foldl hdrDel h ks) key = (if CanonicalKey key \<in> CanonicalKey ` set ks then [] else hdrValues h key)"
  by (induction ks arbitrary: h) auto

subsection \<open>Requests and response writers\<close>

record Request =
  rqMethod :: string
  rqHost :: string
  rqPath :: string
  rqRawQuery :: string
  rqHeader :: Header
  rqRemoteAddr :: string
  rqTLS :: bool

record ResponseWriter =
  rwHeader :: Header
  rwSent :: "(nat \<times> Header) option"
  rwBody :: string

definition newWriter :: ResponseWriter where
  "newWriter = \<lparr>rwHeader = [], rwSent = None, rwBody = []\<rparr>"

definition rwWriteHeader :: "nat \<Rightarrow> ResponseWriter \<Rightarrow> ResponseWriter" where
  "rwWriteHeader code w =
     (case rwSent w of None \<Rightarrow> w\<lparr>rwSent := Some (code, rwHeader w)\<rparr> | Some _ \<Rightarrow> w)"

definition rwWrite :: "string \<Rightarrow> ResponseWriter \<Rightarrow> ResponseWriter" where
  "rwWrite b w = (let w = rwWriteHeader 200 w in w\<lparr>rwBody := rwBody w @ b\<rparr>)"

definition httpError :: "string \<Rightarrow> nat \<Rightarrow> ResponseWriter \<Rightarrow> ResponseWriter" where
  "httpError msg code w =
     (let h = hdrDel (rwHeader w) ''Content-Length'';
          h = hdrSet h ''Content-Type'' ''text/plain; charset=utf-8'';
          h = hdrSet h ''X-Content-Type-Options'' ''nosniff'';
          w = rwWriteHeader code (w\<lparr>rwHeader := h\<rparr>)
      in rwWrite (msg @ [CHR 0x0A]) w)"

text \<open>What the client receives once the handler has returned.\<close>

definition sentStatus :: "ResponseWriter \<Rightarrow> nat" where
  "sentStatus w = (case rwSent w of None \<Rightarrow> 200 | Some (code, _) \<Rightarrow> code)"

definition sentHeader :: "ResponseWriter \<Rightarrow> Header" where
  "sentHeader w = (case rwSent w of None \<Rightarrow> rwHeader w | Some (_, h) \<Rightarrow> h)"

lemma rwWriteHeader_fresh [simp]: "rwSent w = None \<Longrightarrow> rwSent (rwWriteHeader code w) = Some (code, rwHeader w)"
  by (simp add: rwWriteHeader_def)

lemma rwWriteHeader_again [simp]: "rwSent w = Some s \<Longrightarrow> rwWriteHeader code w = w"
  by (simp add: rwWriteHeader_def)

lemma rwWriteHeader_frame [simp]:
  "rwHeader (rwWriteHeader code w) = rwHeader w" "rwBody (rwWriteHeader code w) = rwBody w"
  by (auto simp: rwWriteHeader_def split: option.splits)

lemma rwWrite_frame [simp]:
  "rwHeader (rwWrite b w) = rwHeader w" "rwBody (rwWrite b w) = rwBody w @ b"
  "rwSent (rwWrite b w) = (case rwSent w of None \<Rightarrow> Some (200, rwHeader w) | Some s \<Rightarrow> Some s)"
  by (auto simp: rwWrite_def Let_def rwWriteHeader_def split: option.splits)

lemma httpError_status: "rwSent w = None \<Longrightarrow> sentStatus (httpError msg code w) = code"
  by (simp add: httpError_def sentStatus_def Let_def)

lemma httpError_body: "rwBody (httpError msg code w) = rwBody w @ msg @ [CHR 0x0A]"
  by (simp add: httpError_def Let_def)

text \<open>A request to evaluate on.\<close>

definition sampleGet :: "string \<Rightarrow> string \<Rightarrow> string \<Rightarrow> Request" where
  "sampleGet host path query =
     \<lparr>rqMethod = ''GET'', rqHost = host, rqPath = path, rqRawQuery = query, rqHeader = [],
      rqRemoteAddr = ''10.0.0.1:4711'', rqTLS = False\<rparr>"

lemma sampleGet_sel [simp]:
  "rqMethod (sampleGet h p q) = ''GET''" "rqHost (sampleGet h p q) = h" "rqPath (sampleGet h p q) = p"
  "rqRawQuery (sampleGet h p q) = q" "rqHeader (sampleGet h p q) = []"
  "rqRemoteAddr (sampleGet h p q) = ''10.0.0.1:4711''"
  by (simp_all add: sampleGet_def)

lemma newWriter_sel [simp]: "rwHeader newWriter = []" "rwSent newWriter = None" "rwBody newWriter = []"
  by (simp_all add: newWriter_def)

end
