(* ===== verification/Forwarding.thy ===== *)
theory Forwarding
  imports GoHttp GoStrings
begin

text \<open>
  What a backend is told about the client: the \<open>Director\<close> that \<open>newL7Backend\<close>
  (\<open>internal/lb/backend.go\<close>) wraps around the one of \<open>httputil.NewSingleHostReverseProxy\<close>, and the
  demonstration backend of \<open>internal/backend/server.go\<close> and \<open>cmd/backend/main.go\<close> that reads it.

  \<^item> The wrapped director is the argument \<open>originalDirector\<close>.
  \<^item> \<open>outgoing\<close> is the part of \<open>httputil.ReverseProxy\<close> of the standard library that comes after the
    director: it drops the headers that the request's own \<open>Connection\<close> header names and the fixed
    hop-by-hop headers, and then appends the client to \<open>X-Forwarded-For\<close>.
    Upgraded connections are left out.
  \<^item> Binding the socket and the log are inputs and outputs of the backend's functions.
\<close>

subsection \<open>The director\<close>

definition Director :: "(Request \<Rightarrow> Request) \<Rightarrow> Request \<Rightarrow> Request" where
  "Director originalDirector r =
     (let originalHost = rqHost r;
          originalProto = (if rqTLS r then ''https'' else ''http'');
          r = originalDirector r;
          r = r\<lparr>rqHeader := hdrSet (rqHeader r) ''X-Forwarded-Host'' originalHost\<rparr>
      in r\<lparr>rqHeader := hdrSet (rqHeader r) ''X-Forwarded-Proto'' originalProto\<rparr>)"

subsection \<open>The rest of the reverse proxy\<close>

fun joinComma :: "string list \<Rightarrow> string" where
  "joinComma [] = []"
| "joinComma [s] = s"
| "joinComma (s # ss) = s @ '', '' @ joinComma ss"

definition outgoing :: "Request \<Rightarrow> Request" where
  "outgoing r =
     (let h = removeHopByHop (rqHeader r) in
        r\<lparr>rqHeader :=
          (case SplitHostPort (rqRemoteAddr r) of
             Inl e \<Rightarrow> h
           | Inr (clientIP, _) \<Rightarrow> hdrSet h ''X-Forwarded-For'' (joinComma (hdrValues h ''X-Forwarded-For'' @ [clientIP])))\<rparr>)"

subsection \<open>The demonstration backend\<close>

definition logRequest :: "string \<Rightarrow> Request \<Rightarrow> string" where
  "logRequest serverID r =
     ''[Server '' @ serverID @ ''] Received request. LB-IP: '' @ rqRemoteAddr r @
     '', Client-IP: '' @ hdrGet (rqHeader r) ''X-Forwarded-For'' @
     '', Host: '' @ hdrGet (rqHeader r) ''X-Forwarded-Host'' @
     '', Proto: '' @ hdrGet (rqHeader r) ''X-Forwarded-Proto''"

definition serverHandler :: "string \<Rightarrow> Request \<Rightarrow> ResponseWriter \<Rightarrow> string \<times> ResponseWriter" where
  "serverHandler serverID r w =
     (logRequest serverID r, rwWrite (''Hello from backend server: '' @ serverID @ [CHR 0x0A]) w)"

definition RunServer ::
  "(string \<Rightarrow> bool) \<Rightarrow> string \<Rightarrow> string \<Rightarrow> string + (Request \<Rightarrow> ResponseWriter \<Rightarrow> string \<times> ResponseWriter)" where
  "RunServer listen port serverID =
     (if listen (CHR '':'' # port) then Inr (serverHandler serverID) else Inl (CHR '':'' # port))"

text \<open>The echo loop of the UDP backend: a read gives a datagram and its sender, or an error.\<close>

primrec udpServe :: "string \<Rightarrow> (string \<times> string) option list \<Rightarrow> (string \<times> string) list" where
  "udpServe serverID [] = []"
| "udpServe serverID (x # xs) =
     (case x of
        None \<Rightarrow> []
      | Some (clientAddr, data) \<Rightarrow> (clientAddr, ''Hello from UDP server: '' @ serverID) # udpServe serverID xs)"

definition RunUDPServer ::
  "(string \<Rightarrow> string option) \<Rightarrow> (string \<Rightarrow> bool) \<Rightarrow> string \<Rightarrow> string
     \<Rightarrow> string + ((string \<times> string) option list \<Rightarrow> (string \<times> string) list)" where
  "RunUDPServer resolve listen port serverID =
     (case resolve (CHR '':'' # port) of
        None \<Rightarrow> Inl (CHR '':'' # port)
      | Some addr \<Rightarrow> if listen addr then Inr (udpServe serverID) else Inl addr)"

text \<open>\<open>main\<close> of the backend: the first argument, or else the name of the host, is the identity.\<close>

definition backendMain ::
  "(string \<Rightarrow> bool) \<Rightarrow> string \<Rightarrow> string \<Rightarrow> string list
     \<Rightarrow> string + (Request \<Rightarrow> ResponseWriter \<Rightarrow> string \<times> ResponseWriter)" where
  "backendMain listen hostname port args =
     RunServer listen port (case args of [] \<Rightarrow> hostname | a # _ \<Rightarrow> a)"

subsection \<open>Properties\<close>

lemma canonical_names:
  "CanonicalKey ''X-Forwarded-Host'' = ''X-Forwarded-Host''" "CanonicalKey ''X-Forwarded-Proto'' = ''X-Forwarded-Proto''"
  "CanonicalKey ''X-Forwarded-For'' = ''X-Forwarded-For''" "CanonicalKey ''Connection'' = ''Connection''"
  "set (map CanonicalKey hopHeaders) = set hopHeaders"
  by code_simp+

lemma outgoing_get:
  assumes "CanonicalKey k \<noteq> ''X-Forwarded-For''" and "CanonicalKey k \<notin> set hopHeaders"
  shows "hdrGet (rqHeader (outgoing r)) k =
    (if CanonicalKey k \<in> CanonicalKey ` set (connectionHeaders (rqHeader r)) then [] else hdrGet (rqHeader r) k)"
proof -
  have "CanonicalKey k \<notin> CanonicalKey ` set hopHeaders"
    using assms(2) canonical_names(5) by (metis list.set_map)
  then have "hdrValues (removeHopByHop (rqHeader r)) k =
      (if CanonicalKey k \<in> CanonicalKey ` set (connectionHeaders (rqHeader r)) then [] else hdrValues (rqHeader r) k)"
    by (simp add: removeHopByHop_def hdrValues_dels)
  then show ?thesis
    using assms(1) by (auto simp: outgoing_def Let_def hdrGet_def canonical_names split: sum.split prod.split)
qed

lemma Director_header:
  "rqHeader (Director od r) =
     hdrSet (hdrSet (rqHeader (od r)) ''X-Forwarded-Host'' (rqHost r)) ''X-Forwarded-Proto''
       (if rqTLS r then ''https'' else ''http'')"
  by (simp add: Director_def Let_def)

lemma connectionHeaders_Director: "connectionHeaders (rqHeader (Director od r)) = connectionHeaders (rqHeader (od r))"
  by (simp add: connectionHeaders_def Director_header canonical_names)

lemma not_hop:
  "''X-Forwarded-Host'' \<notin> set hopHeaders" "''X-Forwarded-Proto'' \<notin> set hopHeaders"
  by (simp_all add: hopHeaders_def)

lemma outgoing_forwarded:
  "hdrGet (rqHeader (outgoing r)) ''X-Forwarded-Host'' =
     (if ''X-Forwarded-Host'' \<in> CanonicalKey ` set (connectionHeaders (rqHeader r)) then []
      else hdrGet (rqHeader r) ''X-Forwarded-Host'')"
  "hdrGet (rqHeader (outgoing r)) ''X-Forwarded-Proto'' =
     (if ''X-Forwarded-Proto'' \<in> CanonicalKey ` set (connectionHeaders (rqHeader r)) then []
      else hdrGet (rqHeader r) ''X-Forwarded-Proto'')"
  using outgoing_get [of "''X-Forwarded-Host''" r] outgoing_get [of "''X-Forwarded-Proto''" r]
  by (simp_all add: canonical_names not_hop)

text \<open>
  C34: What a backend learns of the request: whatever forwarding headers the client sends, the
  backend is told the host and the scheme the client used, unless the client names these headers
  in its own \<open>Connection\<close> header; then the backend is told nothing, because the reverse proxy drops
  the headers named there after the director has set them.
\<close>

theorem forwarded_host_proto:
  "hdrGet (rqHeader (outgoing (Director od r))) ''X-Forwarded-Host'' =
     (if ''X-Forwarded-Host'' \<in> CanonicalKey ` set (connectionHeaders (rqHeader (od r))) then [] else rqHost r)
   \<and> hdrGet (rqHeader (outgoing (Director od r))) ''X-Forwarded-Proto'' =
     (if ''X-Forwarded-Proto'' \<in> CanonicalKey ` set (connectionHeaders (rqHeader (od r))) then []
      else if rqTLS r then ''https'' else ''http'')"
  by (simp add: outgoing_forwarded connectionHeaders_Director) (simp add: Director_header canonical_names)

text \<open>A client that hides its scheme from the backend.\<close>

lemma forwarded_proto_stripped:
  "hdrGet (rqHeader (outgoing (Director (\<lambda>r. r)
     ((sampleGet ''h'' ''/'' [])\<lparr>rqHeader := [(''Connection'', [''close, x-forwarded-proto''])]\<rparr>)))) ''X-Forwarded-Proto'' = []"
proof -
  have "''X-Forwarded-Proto'' \<in> CanonicalKey ` set (connectionHeaders [(''Connection'', [''close, x-forwarded-proto''])])"
    by code_simp
  then show ?thesis by (simp add: outgoing_forwarded connectionHeaders_Director)
qed

text \<open>The UDP backend answers each datagram up to the first failed read, to its sender.\<close>

lemma udpServe_eq:
  "udpServe serverID xs = map (\<lambda>x. (fst (the x), ''Hello from UDP server: '' @ serverID)) (takeWhile (\<lambda>x. x \<noteq> None) xs)"
  by (induction xs) (auto split: option.split prod.split)

end
