(* ===== verification/L7Handler.thy ===== *)
theory L7Handler
  imports Strategy GoHttp
begin

text \<open>
  One HTTP request on a route: the \<open>CachingRecorder\<close> of \<open>internal/lb/metrics.go\<close> and the
  handler closure that \<open>buildL7Routes\<close> (\<open>internal/lb/loadbalancer.go\<close>) makes for each route.

  \<^item> The cache is the third-party \<open>go-cache\<close>: the parameter record \<open>gocache\<close> over an abstract
    cache type, with the documented laws \<open>cache_laws\<close> where a fact needs them: an entry is found
    under its own key until its time is over, and other keys are left alone.  \<open>cacheAge\<close> is the
    passing of time; entries are stored with the expiration the cache was made with
    (\<open>DefaultExpiration\<close>), \<open>cacheTTL\<close>, where a value that is not positive means for ever.
  \<^item> The round trip to the backend is an input, \<open>roundTrip\<close>: the response the backend sent, in
    the chunks it was copied in, or the error of the transport.  \<open>proxyServe\<close> is what
    \<open>httputil.ReverseProxy\<close> does with it: copy the headers, less those that concern the hop only,
    write the status, copy the body; on an error call the \<open>ErrorHandler\<close> in place, by default one
    that writes status 502.  Upgraded connections, trailers and a body that breaks off are left out.
  \<^item> \<open>l7Handler\<close> is the whole handler, from the cache look-up to the deferred decrement; it
    returns the cache, the pool and the client's response writer.
\<close>

subsection \<open>CachingRecorder\<close>

record CachingRecorder =
  crWriter :: ResponseWriter
  crStatus :: nat
  crBody :: string
  crWroteHeader :: bool

definition newRecorder :: "ResponseWriter \<Rightarrow> CachingRecorder" where
  "newRecorder w = \<lparr>crWriter = w, crStatus = 200, crBody = [], crWroteHeader = False\<rparr>"

definition recWriteHeader :: "nat \<Rightarrow> CachingRecorder \<Rightarrow> CachingRecorder" where
  "recWriteHeader status rec = rec\<lparr>crStatus := status, crWroteHeader := True\<rparr>"

definition recWrite :: "string \<Rightarrow> CachingRecorder \<Rightarrow> CachingRecorder" where
  "recWrite b rec = rec\<lparr>crBody := crBody rec @ b\<rparr>"

text \<open>\<open>recorder.Header()\<close> is the header map of the embedded writer.\<close>

definition recHeader :: "CachingRecorder \<Rightarrow> Header" where
  "recHeader rec = rwHeader (crWriter rec)"

definition recSetHeader :: "Header \<Rightarrow> CachingRecorder \<Rightarrow> CachingRecorder" where
  "recSetHeader h rec = rec\<lparr>crWriter := (crWriter rec)\<lparr>rwHeader := h\<rparr>\<rparr>"

subsection \<open>The reverse proxy\<close>

datatype roundTrip = RtResponse nat Header "string list" | RtError string

definition proxyServe :: "bool \<Rightarrow> roundTrip \<Rightarrow> CachingRecorder \<Rightarrow> CachingRecorder" where
  "proxyServe customErrorHandler rt rec =
     (case rt of
        RtResponse status h chunks \<Rightarrow>
          foldl (\<lambda>rec b. recWrite b rec)
            (recWriteHeader status (recSetHeader (hdrAddAll (recHeader rec) (removeHopByHop h)) rec)) chunks
      | RtError e \<Rightarrow> if customErrorHandler then rec else recWriteHeader 502 rec)"

subsection \<open>The cache\<close>

record CacheItem =
  ciStatus :: nat
  ciHeader :: Header
  ciBody :: string

record ('c, 'v) gocache =
  cacheNew :: "duration \<Rightarrow> duration \<Rightarrow> 'c"
  cacheGet :: "'c \<Rightarrow> string \<Rightarrow> 'v option"
  cacheSet :: "'c \<Rightarrow> string \<Rightarrow> 'v \<Rightarrow> 'c"
  cacheAge :: "duration \<Rightarrow> 'c \<Rightarrow> 'c"
  cacheTTL :: "'c \<Rightarrow> duration"

definition cache_laws :: "('c, 'v) gocache \<Rightarrow> bool" where
  "cache_laws C \<longleftrightarrow>
     (\<forall>c k v d. 0 \<le> d \<longrightarrow> cacheGet C (cacheAge C d (cacheSet C c k v)) k =
        (if cacheTTL C c \<le> 0 \<or> d \<le> cacheTTL C c then Some v else None)) \<and>
     (\<forall>c k k' v d. 0 \<le> d \<longrightarrow> k' \<noteq> k \<longrightarrow>
        cacheGet C (cacheAge C d (cacheSet C c k v)) k' = cacheGet C (cacheAge C d c) k') \<and>
     (\<forall>c k d e. 0 \<le> d \<longrightarrow> 0 \<le> e \<longrightarrow>
        cacheGet C (cacheAge C d (cacheAge C e c)) k = cacheGet C (cacheAge C (e + d) c) k) \<and>
     (\<forall>c k. cacheGet C (cacheAge C 0 c) k = cacheGet C c k) \<and>
     (\<forall>c k v. cacheTTL C (cacheSet C c k v) = cacheTTL C c) \<and>
     (\<forall>c d. cacheTTL C (cacheAge C d c) = cacheTTL C c) \<and>
     (\<forall>d i. cacheTTL C (cacheNew C d i) = d)"

definition cacheKey :: "Request \<Rightarrow> string" where
  "cacheKey r = rqHost r @ rqPath r"

definition replay :: "CacheItem \<Rightarrow> ResponseWriter \<Rightarrow> ResponseWriter" where
  "replay item w =
     rwWrite (ciBody item)
       (rwWriteHeader (ciStatus item) (w\<lparr>rwHeader := hdrAddAll (rwHeader w) (ciHeader item)\<rparr>))"

subsection \<open>The call through the circuit breaker\<close>

datatype requestError = Rejected cb_error | BackendStatus nat

text \<open>
  \<open>execute\<close> performs the proxied call on the chosen backend: the backend afterwards, the
  recorder, and \<open>requestErr\<close>.  With a breaker it first installs the error handler that only
  logs, and tells the breaker whether the recorded status was below 500.
\<close>

definition customHandler :: "'cb Backend \<Rightarrow> bool" where
  "customHandler b = (case proxy b of Some rp \<Rightarrow> rpErrorHandler rp | None \<Rightarrow> False)"

definition installHandler :: "'cb Backend \<Rightarrow> 'cb Backend" where
  "installHandler b = b\<lparr>proxy := map_option (\<lambda>rp. rp\<lparr>rpErrorHandler := True\<rparr>) (proxy b)\<rparr>"

definition execute ::
  "'cb gobreaker \<Rightarrow> roundTrip \<Rightarrow> 'cb Backend \<Rightarrow> CachingRecorder
     \<Rightarrow> 'cb Backend \<times> CachingRecorder \<times> requestError option" where
  "execute G rt b rec =
     (case cb b of
        Some c \<Rightarrow>
          (case beforeRequest G c of
             Inl e \<Rightarrow> (b, rec, Some (Rejected e))
           | Inr c' \<Rightarrow>
               (let b = installHandler b;
                    rec = proxyServe True rt rec;
                    failed = 500 \<le> crStatus rec
                in (b\<lparr>cb := Some (afterRequest G c' (\<not> failed))\<rparr>, rec,
                    if failed then Some (BackendStatus (crStatus rec)) else None)))
      | None \<Rightarrow> (b, proxyServe (customHandler b) rt rec, None))"

text \<open>What is written to the client once the call has returned.\<close>

definition writeError :: "requestError \<Rightarrow> CachingRecorder \<Rightarrow> ResponseWriter" where
  "writeError e rec =
     (case e of
        Rejected _ \<Rightarrow> httpError ''Service unavailable (Circuit OPEN)'' 503 (crWriter rec)
      | BackendStatus _ \<Rightarrow>
          if \<not> crWroteHeader rec then httpError ''Bad Gateway'' 502 (crWriter rec) else crWriter rec)"

definition writeFinal :: "CachingRecorder \<Rightarrow> ResponseWriter" where
  "writeFinal rec =
     (let w = (if \<not> crWroteHeader rec then rwWriteHeader (crStatus rec) (crWriter rec) else crWriter rec)
      in rwWrite (crBody rec) w)"

definition needsConns :: "'cb BackendPool \<Rightarrow> bool" where
  "needsConns p \<longleftrightarrow> strategy p = ''least-connections'' \<or> strategy p = ''weighted-least-connections''"

subsection \<open>The handler\<close>

definition l7Forward ::
  "'cb gobreaker \<Rightarrow> ('c, CacheItem) gocache \<Rightarrow> (nat \<Rightarrow> roundTrip) \<Rightarrow> Request
     \<Rightarrow> 'c option \<Rightarrow> 'cb BackendPool \<Rightarrow> ResponseWriter
     \<Rightarrow> 'c option \<times> 'cb BackendPool \<times> ResponseWriter" where
  "l7Forward G C net r cache pool w =
     (case GetNextBackend G (splitHost (rqRemoteAddr r)) pool of
        (pool, None) \<Rightarrow> (cache, pool, httpError ''Service unavailable'' 503 w)
      | (pool, Some i) \<Rightarrow>
          (let pool = (if needsConns pool then updBackend i IncrementConnections pool else pool);
               (b, rec, requestErr) = execute G (net i) (backends pool ! i) (newRecorder w);
               pool = updBackend i (\<lambda>_. b) pool;
               done = (if needsConns pool then updBackend i DecrementConnections pool else pool)
           in case requestErr of
                Some e \<Rightarrow> (cache, done, writeError e rec)
              | None \<Rightarrow>
                  (let cache =
                     (case cache of
                        None \<Rightarrow> None
                      | Some c \<Rightarrow>
                          if rqMethod r = ''GET'' \<and> crStatus rec < 500
                          then Some (cacheSet C c (cacheKey r)
                                 \<lparr>ciStatus = crStatus rec, ciHeader = recHeader rec, ciBody = crBody rec\<rparr>)
                          else Some c)
                   in (cache, done, writeFinal rec))))"

definition cacheLookup :: "('c, CacheItem) gocache \<Rightarrow> 'c option \<Rightarrow> Request \<Rightarrow> CacheItem option" where
  "cacheLookup C cache r =
     (case cache of
        None \<Rightarrow> None
      | Some c \<Rightarrow> if rqMethod r = ''GET'' then cacheGet C c (cacheKey r) else None)"

definition l7Handler ::
  "'cb gobreaker \<Rightarrow> ('c, CacheItem) gocache \<Rightarrow> (nat \<Rightarrow> roundTrip) \<Rightarrow> Request
     \<Rightarrow> 'c option \<Rightarrow> 'cb BackendPool \<Rightarrow> ResponseWriter
     \<Rightarrow> 'c option \<times> 'cb BackendPool \<times> ResponseWriter" where
  "l7Handler G C net r cache pool w =
     (case cacheLookup C cache r of
        Some item \<Rightarrow> (cache, pool, replay item w)
      | None \<Rightarrow> l7Forward G C net r cache pool w)"

subsection \<open>What the recorder holds after the proxied call\<close>

lemma foldl_recWrite:
  "foldl (\<lambda>rec b. recWrite b rec) rec chunks = rec\<lparr>crBody := crBody rec @ concat chunks\<rparr>"
  by (induction chunks arbitrary: rec) (simp_all add: recWrite_def)

lemma proxyServe_response:
  "proxyServe custom (RtResponse status h chunks) (newRecorder w) =
     \<lparr>crWriter = w\<lparr>rwHeader := hdrAddAll (rwHeader w) (removeHopByHop h)\<rparr>, crStatus = status, crBody = concat chunks,
      crWroteHeader = True\<rparr>"
  by (simp add: proxyServe_def foldl_recWrite newRecorder_def recWriteHeader_def recSetHeader_def
      recHeader_def)

lemma proxyServe_error:
  "proxyServe True (RtError e) (newRecorder w) = newRecorder w"
  "proxyServe False (RtError e) (newRecorder w) = recWriteHeader 502 (newRecorder w)"
  by (simp_all add: proxyServe_def)

lemma proxyServe_writer:
  "rwSent (crWriter (proxyServe custom rt rec)) = rwSent (crWriter rec)"
  "rwBody (crWriter (proxyServe custom rt rec)) = rwBody (crWriter rec)"
  by (cases rt; simp add: proxyServe_def foldl_recWrite recWriteHeader_def recSetHeader_def)+

text \<open>
  Once the recorder has seen a \<open>WriteHeader\<close>, the final write does not pass the status on: the
  client's writer falls back to 200.
\<close>

lemma writeFinal_recorded:
  "crWroteHeader rec \<Longrightarrow> rwSent (crWriter rec) = None \<Longrightarrow>
     sentStatus (writeFinal rec) = 200 \<and> rwBody (writeFinal rec) = rwBody (crWriter rec) @ crBody rec"
  by (simp add: writeFinal_def sentStatus_def)

lemma writeFinal_unrecorded:
  "\<not> crWroteHeader rec \<Longrightarrow> rwSent (crWriter rec) = None \<Longrightarrow>
     sentStatus (writeFinal rec) = crStatus rec \<and> rwBody (writeFinal rec) = rwBody (crWriter rec) @ crBody rec"
  by (simp add: writeFinal_def sentStatus_def Let_def)

lemma replay_sends:
  "rwSent w = None \<Longrightarrow>
     sentStatus (replay item w) = ciStatus item \<and> rwBody (replay item w) = rwBody w @ ciBody item
     \<and> sentHeader (replay item w) = hdrAddAll (rwHeader w) (ciHeader item)"
  by (simp add: replay_def sentStatus_def sentHeader_def)

subsection \<open>The call keeps the identity of the backend\<close>

definition ident :: "'cb Backend \<Rightarrow> string \<times> bool \<times> go_int \<times> go_int \<times> u64" where
  "ident b = (Addr b, healthy b, Weight b, CurrentWeight b, connections b)"

lemma execute_ident: "ident (fst (execute G rt b rec)) = ident b"
  by (auto simp: execute_def ident_def installHandler_def Let_def split: option.splits sum.splits)

lemma execute_noBreaker:
  "cb b = None \<Longrightarrow> execute G rt b rec = (b, proxyServe (customHandler b) rt rec, None)"
  by (simp add: execute_def)

lemma execute_rejected:
  "cb b = Some c \<Longrightarrow> beforeRequest G c = Inl e \<Longrightarrow> execute G rt b rec = (b, rec, Some (Rejected e))"
  by (simp add: execute_def)

lemma execute_admitted:
  "cb b = Some c \<Longrightarrow> beforeRequest G c = Inr c' \<Longrightarrow>
     execute G rt b rec =
       (let rec' = proxyServe True rt rec; failed = 500 \<le> crStatus rec'
        in ((installHandler b)\<lparr>cb := Some (afterRequest G c' (\<not> failed))\<rparr>, rec',
            if failed then Some (BackendStatus (crStatus rec')) else None))"
  by (simp add: execute_def Let_def)

subsection \<open>One forwarded request\<close>

lemma map_updBackend:
  "map g (backends (updBackend i f p)) = (map g (backends p))[i := g (f (backends p ! i))]"
  by (simp add: updBackend_def map_update)

lemma needsConns_upd [simp]: "needsConns (updBackend i f p) = needsConns p"
  by (simp add: needsConns_def updBackend_frame)

lemma l7Forward_none:
  "GetNextBackend G (splitHost (rqRemoteAddr r)) pool = (pool', None) \<Longrightarrow>
     l7Forward G C net r cache pool w = (cache, pool', httpError ''Service unavailable'' 503 w)"
  by (simp add: l7Forward_def)

text \<open>The chosen backend, as the call finds it.\<close>

definition entered :: "'cb BackendPool \<Rightarrow> nat \<Rightarrow> 'cb Backend" where
  "entered pool i =
     (if needsConns pool then IncrementConnections (backends pool ! i) else backends pool ! i)"

definition leave :: "'cb BackendPool \<Rightarrow> nat \<Rightarrow> 'cb Backend \<Rightarrow> 'cb BackendPool" where
  "leave pool i b =
     updBackend i (\<lambda>_. if needsConns pool then DecrementConnections b else b) pool"

lemma l7Forward_some:
  assumes "GetNextBackend G (splitHost (rqRemoteAddr r)) pool = (pool', Some i)"
  shows "l7Forward G C net r cache pool w =
    (let (b, rec, requestErr) = execute G (net i) (entered pool' i) (newRecorder w)
     in case requestErr of
          Some e \<Rightarrow> (cache, leave pool' i b, writeError e rec)
        | None \<Rightarrow>
            (case cache of
               None \<Rightarrow> None
             | Some c \<Rightarrow>
                 if rqMethod r = ''GET'' \<and> crStatus rec < 500
                 then Some (cacheSet C c (cacheKey r)
                        \<lparr>ciStatus = crStatus rec, ciHeader = recHeader rec, ciBody = crBody rec\<rparr>)
                 else Some c,
             leave pool' i b, writeFinal rec))"
proof -
  have i: "i < poolSize pool'"
    using nb.pick_sound [OF assms] sameBackends_size [OF nb.pick_same, of G "splitHost (rqRemoteAddr r)" pool]
    by (simp add: assms availableAt_def)
  have twice: "updBackend i g (updBackend i f p) = updBackend i (\<lambda>x. g (f x)) p"
    if "poolSize p = poolSize pool'" for f g and p :: "'a BackendPool"
    using that i by (simp add: updBackend_def)
  show ?thesis
    using i by (simp add: l7Forward_def assms entered_def leave_def Let_def case_prod_beta twice
        updBackend_frame split: option.splits)
qed

lemma ident_leave:
  assumes "ident b = ident (entered pool i)"
  shows "map ident (backends (leave pool i b)) = map ident (backends pool)"
proof -
  have "ident (if needsConns pool then DecrementConnections b else b) = ident (backends pool ! i)"
    using assms by (auto simp: entered_def ident_def frame split: if_splits)
  then show ?thesis
    unfolding leave_def updBackend_def by (simp add: map_list_update_same)
qed

text \<open>Every forwarded request gives back what it took: the connection counters are balanced.\<close>

lemma l7Forward_ident:
  assumes "GetNextBackend G (splitHost (rqRemoteAddr r)) pool = (pool', r')"
  shows "map ident (backends (fst (snd (l7Forward G C net r cache pool w)))) = map ident (backends pool')"
proof (cases r')
  case None
  with assms show ?thesis by (simp add: l7Forward_none)
next
  case (Some i)
  obtain b rec requestErr where ex: "execute G (net i) (entered pool' i) (newRecorder w) = (b, rec, requestErr)"
    by (metis prod_cases3)
  then have "ident b = ident (entered pool' i)"
    using execute_ident [of G "net i" "entered pool' i" "newRecorder w"] by simp
  then have "map ident (backends (leave pool' i b)) = map ident (backends pool')" by (rule ident_leave)
  with assms Some ex show ?thesis
    by (simp add: l7Forward_some Let_def split: option.splits)
qed

lemma entered_cb [simp]: "cb (entered pool i) = cb (backends pool ! i)"
  "customHandler (entered pool i) = customHandler (backends pool ! i)"
  by (simp_all add: entered_def frame customHandler_def)

subsection \<open>What a request leaves alone\<close>

text \<open>Strategy, addresses, health, weights and, once the request is over, the counters.\<close>

definition stat :: "'cb BackendPool \<Rightarrow> string \<times> (string \<times> bool \<times> go_int \<times> u64) list" where
  "stat p = (strategy p, map (\<lambda>b. (Addr b, healthy b, Weight b, connections b)) (backends p))"

lemma stat_same: "sameBackends p q \<Longrightarrow> stat q = stat p"
proof -
  have proj: "map (\<lambda>b. (Addr b, healthy b, Weight b, connections b)) bs
      = map (\<lambda>(a, h, w, n, _). (a, h, w, n)) (map core bs)" for bs :: "'a Backend list"
    by (simp add: core_def)
  show "sameBackends p q \<Longrightarrow> stat q = stat p" by (simp add: stat_def sameBackends_def proj)
qed

lemma stat_ident:
  fixes p q :: "'cb BackendPool"
  shows "strategy p = strategy q \<Longrightarrow> map ident (backends p) = map ident (backends q) \<Longrightarrow> stat p = stat q"
proof -
  have proj: "map (\<lambda>b. (Addr b, healthy b, Weight b, connections b)) bs
      = map (\<lambda>(a, h, w, _, n). (a, h, w, n)) (map ident bs)" for bs :: "'cb Backend list"
    by (simp add: ident_def)
  show "strategy p = strategy q \<Longrightarrow> map ident (backends p) = map ident (backends q) \<Longrightarrow> ?thesis"
    unfolding stat_def proj by simp
qed

lemma l7Forward_strategy:
  "GetNextBackend G (splitHost (rqRemoteAddr r)) pool = (pool', r') \<Longrightarrow>
     strategy (fst (snd (l7Forward G C net r cache pool w))) = strategy pool'"
  by (cases r') (auto simp: l7Forward_none l7Forward_some leave_def updBackend_frame Let_def
      split: prod.splits option.splits)

lemma l7Forward_stat: "stat (fst (snd (l7Forward G C net r cache pool w))) = stat pool"
proof -
  obtain pool' r' where pick: "GetNextBackend G (splitHost (rqRemoteAddr r)) pool = (pool', r')"
    by fastforce
  then have "stat pool' = stat pool"
    using stat_same [OF nb.pick_same, of G "splitHost (rqRemoteAddr r)" pool] by simp
  with stat_ident [OF l7Forward_strategy [OF pick] l7Forward_ident [OF pick]] show ?thesis by metis
qed

lemma l7Handler_stat [frame]: "stat (fst (snd (l7Handler G C net r cache pool w))) = stat pool"
  by (simp add: l7Handler_def l7Forward_stat split: option.splits)

lemma GetNextBackend_index: "GetNextBackend G ip pool = (pool', Some i) \<Longrightarrow> i < poolSize pool'"
  using nb.pick_sound [of G ip pool pool' i] sameBackends_size [OF nb.pick_same, of G ip pool]
  by (simp add: availableAt_def)

lemma stat_backends:
  "stat p = stat q \<Longrightarrow> map (\<lambda>b. (Addr b, healthy b, Weight b, connections b)) (backends p) =
     map (\<lambda>b. (Addr b, healthy b, Weight b, connections b)) (backends q)"
  by (simp add: stat_def)

lemma stat_connections:
  fixes p q :: "'cb BackendPool"
  assumes "stat p = stat q"
  shows "map connections (backends p) = map connections (backends q)"
proof -
  have proj: "map connections bs = map (\<lambda>(_, _, _, n). n) (map (\<lambda>b. (Addr b, healthy b, Weight b, connections b)) bs)"
    for bs :: "'cb Backend list" by simp
  show ?thesis unfolding proj stat_backends [OF assms] ..
qed

lemma stat_others:
  fixes p q :: "'cb BackendPool"
  assumes "stat p = stat q"
  shows "map (\<lambda>b. (Addr b, healthy b, Weight b)) (backends p) = map (\<lambda>b. (Addr b, healthy b, Weight b)) (backends q)
    \<and> strategy p = strategy q"
proof -
  have proj: "map (\<lambda>b. (Addr b, healthy b, Weight b)) bs
      = map (\<lambda>(a, h, w, _). (a, h, w)) (map (\<lambda>b. (Addr b, healthy b, Weight b, connections b)) bs)"
    for bs :: "'cb Backend list" by simp
  have "strategy p = strategy q" using assms by (simp add: stat_def)
  then show ?thesis unfolding proj stat_backends [OF assms] by blast
qed

lemma newRecorder_sel [simp]:
  "crWriter (newRecorder w) = w" "crStatus (newRecorder w) = 200" "crBody (newRecorder w) = []"
  "crWroteHeader (newRecorder w) = False"
  by (simp_all add: newRecorder_def)

subsection \<open>Concrete values to evaluate on\<close>

text \<open>A cache as a table of the entries with their ages, beside the expiration.\<close>

type_synonym tableCache_state = "duration \<times> (string \<Rightarrow> (CacheItem \<times> duration) option)"

definition tableCache :: "(tableCache_state, CacheItem) gocache" where
  "tableCache =
     \<lparr>cacheNew = (\<lambda>expiration _. (expiration, \<lambda>_. None)),
      cacheGet = (\<lambda>(ttl, m) k. case m k of
          None \<Rightarrow> None
        | Some (v, age) \<Rightarrow> if ttl \<le> 0 \<or> age \<le> ttl then Some v else None),
      cacheSet = (\<lambda>(ttl, m) k v. (ttl, m(k := Some (v, 0)))),
      cacheAge = (\<lambda>d (ttl, m). (ttl, \<lambda>k. map_option (\<lambda>(v, age). (v, age + d)) (m k))),
      cacheTTL = fst\<rparr>"

lemma tableCache_laws: "cache_laws tableCache"
  unfolding cache_laws_def
  by (intro conjI allI impI) (auto simp: tableCache_def ac_simps split: option.splits)

definition onePool :: "cb_state option \<Rightarrow> cb_state BackendPool" where
  "onePool c = samplePool ''least-connections'' [(plainBackend ''a'' True 1 0)\<lparr>cb := c\<rparr>]"

lemma onePool_pick:
  "c \<noteq> Some StateOpen \<Longrightarrow> GetNextBackend simpleBreaker ip (onePool c) = (onePool c, Some 0)"
  by (auto simp: onePool_def GetNextBackend_def GetNextBackendByLeastConns_def GetConnections_def
      available_def IsHealthy_def plainBackend_def simpleBreaker_def word_gt_0 split: option.splits)

lemma onePool_sel [simp]: "backends (onePool c) ! 0 = (plainBackend ''a'' True 1 0)\<lparr>cb := c\<rparr>"
  by (simp add: onePool_def)

subsection \<open>Properties\<close>

text \<open>What the client of a forwarded request gets, case by case.\<close>

lemma l7Handler_miss: "cacheLookup C cache r = None \<Longrightarrow> l7Handler G C net r cache pool w = l7Forward G C net r cache pool w"
  by (simp add: l7Handler_def)

lemma forwarded_response:
  assumes "GetNextBackend G (splitHost (rqRemoteAddr r)) pool = (pool', Some i)"
    and "cb (backends pool' ! i) = None \<or>
      (\<exists>c c'. cb (backends pool' ! i) = Some c \<and> beforeRequest G c = Inr c' \<and> status < 500)"
    and "net i = RtResponse status h chunks"
  shows "fst (l7Forward G C net r cache pool w) =
      (case cache of None \<Rightarrow> None
       | Some c \<Rightarrow> if rqMethod r = ''GET'' \<and> status < 500
                  then Some (cacheSet C c (cacheKey r)
                    \<lparr>ciStatus = status, ciHeader = hdrAddAll (rwHeader w) (removeHopByHop h), ciBody = concat chunks\<rparr>)
                  else Some c)
    \<and> snd (snd (l7Forward G C net r cache pool w)) =
      rwWrite (concat chunks) (w\<lparr>rwHeader := hdrAddAll (rwHeader w) (removeHopByHop h)\<rparr>)"
  using assms(2)
proof
  assume "cb (backends pool' ! i) = None"
  then show ?thesis
    by (cases cache) (auto simp: l7Forward_some [OF assms(1)] execute_noBreaker assms(3)
        proxyServe_response writeFinal_def recHeader_def)
next
  assume "\<exists>c c'. cb (backends pool' ! i) = Some c \<and> beforeRequest G c = Inr c' \<and> status < 500"
  then show ?thesis
    by (cases cache) (auto simp: l7Forward_some [OF assms(1)] execute_admitted assms(3)
        proxyServe_response writeFinal_def recHeader_def Let_def)
qed

text \<open>Fresh for a time: an entry that is found again at any moment within that time.\<close>

definition keeps :: "('c, 'v) gocache \<Rightarrow> 'c \<Rightarrow> string \<Rightarrow> 'v \<Rightarrow> (duration \<Rightarrow> bool) \<Rightarrow> bool" where
  "keeps C c k v during \<longleftrightarrow> (\<forall>d\<ge>0. during d \<longrightarrow> cacheGet C (cacheAge C d c) k = Some v)"

lemma keeps_stored:
  "cache_laws C \<Longrightarrow> keeps C (cacheSet C c k v) k v (\<lambda>d. cacheTTL C c \<le> 0 \<or> d \<le> cacheTTL C c)"
  unfolding keeps_def cache_laws_def by (meson cache_laws_def)

lemma keeps_now:
  assumes "cache_laws C" and "keeps C c k v during" and "during 0"
  shows "cacheGet C c k = Some v"
proof -
  have "cacheGet C (cacheAge C 0 c) k = Some v" using assms(2,3) by (simp add: keeps_def)
  with assms(1) show ?thesis unfolding cache_laws_def by metis
qed

lemma keeps_age:
  assumes "cache_laws C" and "keeps C c k v during" and "0 \<le> e"
  shows "keeps C (cacheAge C e c) k v (\<lambda>d. during (e + d))"
  unfolding keeps_def
proof (intro allI impI)
  fix d :: duration assume d: "0 \<le> d" "during (e + d)"
  then have "cacheGet C (cacheAge C (e + d) c) k = Some v" using assms(2,3) by (simp add: keeps_def)
  with assms(1,3) d(1) show "cacheGet C (cacheAge C d (cacheAge C e c)) k = Some v"
    unfolding cache_laws_def by metis
qed

lemma keeps_other:
  assumes "cache_laws C" and "keeps C c k v during" and "k' \<noteq> k"
  shows "keeps C (cacheSet C c k' v') k v during"
  using assms unfolding keeps_def cache_laws_def by metis

text \<open>
  What may happen to the cache between two requests: time passes, and other requests are served,
  on any route and whatever their backends answer.
\<close>

inductive cacheRun :: "'cb gobreaker \<Rightarrow> ('c, CacheItem) gocache \<Rightarrow> duration \<Rightarrow> 'c \<Rightarrow> 'c \<Rightarrow> bool" for G C where
  begins: "cacheRun G C 0 c c"
| elapses: "cacheRun G C t c c' \<Longrightarrow> 0 \<le> d \<Longrightarrow> cacheRun G C (t + d) c (cacheAge C d c')"
| serves: "cacheRun G C t c c' \<Longrightarrow> fst (l7Handler G C net r (Some c') pool w) = Some c'' \<Longrightarrow> cacheRun G C t c c''"

text \<open>A request changes the cache only under its own key, and only when it found nothing there.\<close>

lemma l7Forward_cache:
  "fst (l7Forward G C net r (Some c) pool w) = Some c \<or>
   rqMethod r = ''GET'' \<and> (\<exists>item. fst (l7Forward G C net r (Some c) pool w) = Some (cacheSet C c (cacheKey r) item))"
proof -
  obtain pool' p where pick: "GetNextBackend G (splitHost (rqRemoteAddr r)) pool = (pool', p)" by fastforce
  show ?thesis
    by (cases p) (auto simp: pick l7Forward_some l7Forward_none Let_def
        split: prod.splits option.splits)
qed

lemma l7Handler_cache:
  assumes "fst (l7Handler G C net r (Some c) pool w) = Some c'"
  shows "c' = c \<or> (cacheGet C c (cacheKey r) = None \<and> (\<exists>item. c' = cacheSet C c (cacheKey r) item))"
  using assms l7Forward_cache [of G C net r c pool w]
  by (auto simp: l7Handler_def cacheLookup_def split: option.splits if_splits)

lemma cacheRun_keeps:
  assumes "cache_laws C" and "cacheRun G C t c c'" and "keeps C c k v during" and "\<And>d. 0 \<le> d \<Longrightarrow> d \<le> t \<Longrightarrow> during d"
  shows "0 \<le> t \<and> keeps C c' k v (\<lambda>d. during (t + d))"
  using assms(2-4)
proof (induction rule: cacheRun.induct)
  case (begins c)
  then show ?case by simp
next
  case (elapses t c c' d)
  have "0 \<le> t \<and> keeps C c' k v (\<lambda>d. during (t + d))" using elapses by simp
  then show ?case
    using keeps_age [OF assms(1), of c' k v "\<lambda>d. during (t + d)" d] elapses.hyps(2) by (simp add: add.assoc)
next
  case (serves t c c' net r pool w c'')
  have IH: "0 \<le> t \<and> keeps C c' k v (\<lambda>d. during (t + d))" using serves by simp
  then have "cacheGet C c' k = Some v"
    using keeps_now [OF assms(1), of c' k v "\<lambda>d. during (t + d)"] serves.prems(2) [of t] by simp
  then consider "c'' = c'" | item where "k \<noteq> cacheKey r" "c'' = cacheSet C c' (cacheKey r) item"
    using l7Handler_cache [OF serves.hyps(2)] by (metis option.distinct(1))
  then show ?case
  proof cases
    case 1
    with IH show ?thesis by simp
  next
    case 2
    with keeps_other [OF assms(1) conjunct2 [OF IH]] IH show ?thesis by metis
  qed
qed

text \<open>
  C13: A cached answer: once a GET has been answered by a backend with a status below 500, every
  later GET with the same host and path is answered from the cache, with the backend's status,
  headers (but those of the hop) and body, whatever the backends would say then and without
  touching a pool, as long as no more time has passed than the expiration of the cache allows,
  and whatever requests have been served in between.
\<close>

theorem cache_replays:
  assumes "cache_laws C"
    and "GetNextBackend G (splitHost (rqRemoteAddr r)) pool = (pool', Some i)"
    and "cb (backends pool' ! i) = None \<or> (\<exists>b b'. cb (backends pool' ! i) = Some b \<and> beforeRequest G b = Inr b')"
    and "net i = RtResponse status h chunks"
    and "rqMethod r = ''GET''" and "cacheGet C c (cacheKey r) = None" and "status < 500"
    and "l7Handler G C net r (Some c) pool w = (Some c1, pool1, w1)"
    and "cacheRun G C t c1 c2" and "cacheTTL C c \<le> 0 \<or> t \<le> cacheTTL C c"
    and "rqMethod r2 = ''GET''" and "rqHost r2 @ rqPath r2 = rqHost r @ rqPath r" and "rwSent w2 = None"
  shows "\<exists>w3. l7Handler G C net2 r2 (Some c2) pool2 w2 = (Some c2, pool2, w3)
    \<and> sentStatus w3 = status \<and> rwBody w3 = rwBody w2 @ concat chunks
    \<and> sentHeader w3 = hdrAddAll (rwHeader w2) (hdrAddAll (rwHeader w) (removeHopByHop h))"
proof -
  let ?item = "\<lparr>ciStatus = status, ciHeader = hdrAddAll (rwHeader w) (removeHopByHop h), ciBody = concat chunks\<rparr>"
  let ?k = "cacheKey r"
  have "cacheLookup C (Some c) r = None" using assms(6) by (simp add: cacheLookup_def)
  then have "c1 = cacheSet C c ?k ?item"
    using forwarded_response [where C = C and net = net and cache = "Some c" and w = w, OF assms(2) _ assms(4)]
      assms(3,5,7,8) by (auto simp: l7Handler_miss)
  then have "keeps C c1 ?k ?item (\<lambda>d. cacheTTL C c \<le> 0 \<or> d \<le> cacheTTL C c)"
    using keeps_stored [OF assms(1)] by simp
  from cacheRun_keeps [OF assms(1,9) this] assms(10)
  have "keeps C c2 ?k ?item (\<lambda>d. cacheTTL C c \<le> 0 \<or> t + d \<le> cacheTTL C c)" by auto
  then have "cacheGet C c2 ?k = Some ?item" using keeps_now [OF assms(1)] assms(10) by simp
  then have "cacheLookup C (Some c2) r2 = Some ?item"
    using assms(11,12) by (simp add: cacheLookup_def cacheKey_def)
  then have "l7Handler G C net2 r2 (Some c2) pool2 w2 = (Some c2, pool2, replay ?item w2)"
    by (simp add: l7Handler_def)
  then show ?thesis using replay_sends [OF assms(13), of ?item] by simp
qed

text \<open>The same five seconds after the first request, under an expiration of ten.\<close>

theorem cache_replays_witness:
  "\<exists>c1 w3. fst (l7Handler simpleBreaker tableCache (\<lambda>_. RtResponse 404 [] [''no'']) (sampleGet ''h'' ''/p'' ''q=1'')
      (Some (10, \<lambda>_. None)) (onePool None) newWriter) = Some c1
    \<and> l7Handler simpleBreaker tableCache (\<lambda>_. RtError ''down'') (sampleGet ''h'' ''/p'' ''q=2'')
      (Some (cacheAge tableCache 5 c1)) (onePool None) newWriter = (Some (cacheAge tableCache 5 c1), onePool None, w3)
    \<and> sentStatus w3 = 404"
proof -
  let ?first = "l7Handler simpleBreaker tableCache (\<lambda>_. RtResponse 404 [] [''no'']) (sampleGet ''h'' ''/p'' ''q=1'')
        (Some (10, \<lambda>_. None)) (onePool None) newWriter"
  have pick: "GetNextBackend simpleBreaker (splitHost (rqRemoteAddr (sampleGet ''h'' ''/p'' ''q=1''))) (onePool None)
      = (onePool None, Some 0)" by (simp add: onePool_pick)
  have miss: "cacheGet tableCache (10, \<lambda>_. None) (cacheKey (sampleGet ''h'' ''/p'' ''q=1'')) = None"
    by (simp add: tableCache_def)
  have "fst ?first \<noteq> None"
    using forwarded_response [where C = tableCache and net = "\<lambda>_. RtResponse 404 [] [''no'']"
        and cache = "Some (10, \<lambda>_. None)" and w = newWriter, OF pick _ refl] miss
    by (simp add: l7Handler_miss cacheLookup_def)
  then obtain c1 pool1 w1 where first: "?first = (Some c1, pool1, w1)" by (metis option.exhaust prod.exhaust_sel)
  have run: "cacheRun simpleBreaker tableCache 5 c1 (cacheAge tableCache 5 c1)"
    using cacheRun.elapses [OF cacheRun.begins, of 5] by simp
  note replayed = cache_replays [OF tableCache_laws pick _ _ _ miss _ first run, of 404 "[]" "[''no'']"
      "sampleGet ''h'' ''/p'' ''q=2''" newWriter "\<lambda>_. RtError ''down''" "onePool None"]
  have "cacheTTL tableCache (10, \<lambda>_. None) = 10" by (simp add: tableCache_def)
  with replayed show ?thesis by (auto simp: first)
qed

text \<open>
  C24: The status of a backend's answer does not reach the client that caused it: whatever the
  backend answered, or a status below 500 where a breaker let the request through, the client
  receives status 200 with the backend's headers (but those of the hop) and body, as the recorder
  keeps the status to itself.
\<close>

theorem forwarded_status_lost:
  assumes "GetNextBackend G (splitHost (rqRemoteAddr r)) pool = (pool', Some i)"
    and "cacheLookup C cache r = None" and "rwSent w = None"
    and "cb (backends pool' ! i) = None \<or>
      (\<exists>c c'. cb (backends pool' ! i) = Some c \<and> beforeRequest G c = Inr c' \<and> status < 500)"
    and "net i = RtResponse status h chunks"
  shows "let w' = snd (snd (l7Handler G C net r cache pool w)) in
    sentStatus w' = 200 \<and> rwBody w' = rwBody w @ concat chunks
    \<and> sentHeader w' = hdrAddAll (rwHeader w) (removeHopByHop h)"
  using forwarded_response [where C = C and net = net and cache = cache and w = w, OF assms(1,4,5)] assms(2,3)
  by (simp add: l7Handler_miss sentStatus_def sentHeader_def Let_def)

theorem forwarded_status_lost_witness:
  "sentStatus (snd (snd (l7Handler simpleBreaker tableCache (\<lambda>_. RtResponse 404 [] [''no''])
     (sampleGet ''h'' ''/p'' []) None (onePool (Some StateClosed)) newWriter))) = 200"
  using forwarded_status_lost [of simpleBreaker "sampleGet ''h'' ''/p'' []" "onePool (Some StateClosed)"
      "onePool (Some StateClosed)" 0 tableCache None newWriter 404 "\<lambda>_. RtResponse 404 [] [''no'']"]
  by (simp add: onePool_pick cacheLookup_def Let_def) (simp add: simpleBreaker_def)

text \<open>
  C22: With a circuit breaker, an answer of 500 or more is counted as a failure and is not cached,
  but the client gets neither it nor a 502: it receives an empty answer of status 200.
\<close>

theorem breaker_failure_hidden:
  assumes "GetNextBackend G (splitHost (rqRemoteAddr r)) pool = (pool', Some i)"
    and "cacheLookup C cache r = None" and "rwSent w = None"
    and "cb (backends pool' ! i) = Some c" and "beforeRequest G c = Inr c'"
    and "net i = RtResponse status h chunks" and "500 \<le> status"
  shows "case l7Handler G C net r cache pool w of (cache', pool1, w') \<Rightarrow>
    sentStatus w' = 200 \<and> rwBody w' = rwBody w \<and> cache' = cache
    \<and> cb (backends pool1 ! i) = Some (afterRequest G c' False)"
proof -
  have i: "i < poolSize pool'"
    using GetNextBackend_index [OF assms(1)] .
  show ?thesis
    using assms(3-7) i
    by (simp add: l7Handler_miss [OF assms(2)] l7Forward_some [OF assms(1)] execute_admitted
        proxyServe_response Let_def writeError_def sentStatus_def leave_def frame)
qed

theorem breaker_failure_hidden_witness:
  "case l7Handler simpleBreaker tableCache (\<lambda>_. RtResponse 500 [] [''oops''])
     (sampleGet ''h'' ''/p'' []) None (onePool (Some StateClosed)) newWriter of (_, pool1, w') \<Rightarrow>
   sentStatus w' = 200 \<and> rwBody w' = [] \<and> cb (backends pool1 ! 0) = Some StateOpen"
  using breaker_failure_hidden [of simpleBreaker "sampleGet ''h'' ''/p'' []" "onePool (Some StateClosed)"
      "onePool (Some StateClosed)" 0 tableCache None newWriter StateClosed StateClosed
      "\<lambda>_. RtResponse 500 [] [''oops'']"]
  by (simp add: onePool_pick cacheLookup_def split_beta) (simp add: simpleBreaker_def)

text \<open>
  C23: With a circuit breaker that lets the request through, a backend that cannot be reached at
  all is reported to the breaker as a success, and the client gets an empty answer of status 200;
  for a GET with the cache on that answer is stored, otherwise the cache is left alone.
\<close>

theorem breaker_dial_error_success:
  assumes "GetNextBackend G (splitHost (rqRemoteAddr r)) pool = (pool', Some i)"
    and "cacheLookup C cache r = None" and "rwSent w = None"
    and "cb (backends pool' ! i) = Some c" and "beforeRequest G c = Inr c'" and "net i = RtError e"
  shows "case l7Handler G C net r cache pool w of (cache', pool1, w') \<Rightarrow>
    sentStatus w' = 200 \<and> rwBody w' = rwBody w
    \<and> cb (backends pool1 ! i) = Some (afterRequest G c' True)
    \<and> cache' = (case cache of
         None \<Rightarrow> None
       | Some ca \<Rightarrow> if rqMethod r = ''GET''
                   then Some (cacheSet C ca (rqHost r @ rqPath r)
                          \<lparr>ciStatus = 200, ciHeader = rwHeader w, ciBody = []\<rparr>)
                   else Some ca)"
  unfolding l7Handler_miss [OF assms(2)]
  using assms(3-6) GetNextBackend_index [OF assms(1)]
  by (cases cache) (simp_all add: l7Forward_some [OF assms(1)] execute_admitted proxyServe_error Let_def writeFinal_def recHeader_def sentStatus_def leave_def
      frame cacheKey_def)

theorem breaker_dial_error_success_witness:
  "case l7Handler simpleBreaker tableCache (\<lambda>_. RtError ''connection refused'')
     (sampleGet ''h'' ''/p'' []) (Some (0, \<lambda>_. None)) (onePool (Some StateClosed)) newWriter of (_, pool1, w') \<Rightarrow>
   sentStatus w' = 200 \<and> cb (backends pool1 ! 0) = Some StateClosed"
  using breaker_dial_error_success [of simpleBreaker "sampleGet ''h'' ''/p'' []" "onePool (Some StateClosed)"
      "onePool (Some StateClosed)" 0 tableCache "Some (0, \<lambda>_. None)" newWriter StateClosed StateClosed
      "\<lambda>_. RtError ''connection refused''" "''connection refused''"]
  by (simp add: onePool_pick cacheLookup_def split_beta) (simp add: simpleBreaker_def tableCache_def)

text \<open>
  Where the breaker of the chosen backend rejects the call, the client gets status 503, no
  backend is contacted, and breaker, cache and counters are left alone.
\<close>

theorem breaker_rejects:
  assumes "GetNextBackend G (splitHost (rqRemoteAddr r)) pool = (pool', Some i)"
    and "cacheLookup C cache r = None" and "rwSent w = None"
    and "cb (backends pool' ! i) = Some c" and "beforeRequest G c = Inl e"
  shows "case l7Handler G C net r cache pool w of (cache', pool1, w') \<Rightarrow>
    sentStatus w' = 503 \<and> rwBody w' = rwBody w @ ''Service unavailable (Circuit OPEN)'' @ [CHR 0x0A]
    \<and> cache' = cache \<and> cb (backends pool1 ! i) = Some c
    \<and> map connections (backends pool1) = map connections (backends pool)
    \<and> l7Handler G C net' r cache pool w = l7Handler G C net r cache pool w"
proof -
  have conns: "map connections (backends (fst (snd (l7Handler G C net r cache pool w)))) = map connections (backends pool)"
    using stat_connections [OF l7Handler_stat] .
  then show ?thesis
    using assms(3-5) GetNextBackend_index [OF assms(1)]
    by (simp add: l7Handler_miss [OF assms(2)] l7Forward_some [OF assms(1)] execute_rejected
        Let_def writeError_def httpError_status httpError_body leave_def frame entered_cb)
qed

theorem breaker_rejects_witness:
  "sentStatus (snd (snd (l7Handler
     (simpleBreaker\<lparr>beforeRequest := (\<lambda>c. if c = StateHalfOpen then Inl ErrTooManyRequests else Inr c)\<rparr>) tableCache
     (\<lambda>_. RtResponse 200 [] []) (sampleGet ''h'' ''/p'' []) None (onePool (Some StateHalfOpen)) newWriter))) = 503"
proof -
  let ?G = "simpleBreaker\<lparr>beforeRequest := (\<lambda>c. if c = StateHalfOpen then Inl ErrTooManyRequests else Inr c)\<rparr>"
  have "GetNextBackend ?G ip (onePool (Some StateHalfOpen)) = (onePool (Some StateHalfOpen), Some 0)" for ip
    by (simp add: onePool_def GetNextBackend_def GetNextBackendByLeastConns_def GetConnections_def
        available_def IsHealthy_def plainBackend_def simpleBreaker_def word_gt_0)
  from breaker_rejects [OF this, where C = tableCache and cache = None and r = "sampleGet ''h'' ''/p'' []"
      and w = newWriter and net = "\<lambda>_. RtResponse 200 [] []" and net' = "\<lambda>_. RtError []"]
  show ?thesis by (simp add: cacheLookup_def split_beta)
qed

text \<open>The breakers after a request: only the one of the chosen backend can have moved.\<close>

definition breakerAfter :: "'cb gobreaker \<Rightarrow> roundTrip \<Rightarrow> 'cb option \<Rightarrow> 'cb option" where
  "breakerAfter G rt entry =
     (case entry of
        None \<Rightarrow> None
      | Some c \<Rightarrow> (case beforeRequest G c of
          Inl e \<Rightarrow> Some c
        | Inr c' \<Rightarrow> Some (afterRequest G c'
            (case rt of RtResponse status h chunks \<Rightarrow> status < 500 | RtError e \<Rightarrow> True))))"

lemma execute_breaker: "cb (fst (execute G rt b (newRecorder w))) = breakerAfter G rt (cb b)"
proof -
  have "crStatus (proxyServe True rt (newRecorder w)) < 500 \<longleftrightarrow>
      (case rt of RtResponse status h chunks \<Rightarrow> status < 500 | RtError e \<Rightarrow> True)"
    by (cases rt) (simp_all add: proxyServe_response proxyServe_error)
  then show ?thesis
    by (auto simp: execute_def breakerAfter_def Let_def not_le split: option.splits sum.splits)
qed

lemma l7Forward_breakers:
  "map cb (backends (fst (snd (l7Forward G C net r cache pool w)))) =
     (case snd (GetNextBackend G (splitHost (rqRemoteAddr r)) pool) of
        None \<Rightarrow> map cb (backends pool)
      | Some i \<Rightarrow> (map cb (backends pool))[i := breakerAfter G (net i) (cb (backends pool ! i))])"
proof -
  obtain pool' p where pick: "GetNextBackend G (splitHost (rqRemoteAddr r)) pool = (pool', p)" by fastforce
  have same: "sameBackends pool pool'" using nb.pick_same [of pool G "splitHost (rqRemoteAddr r)"] pick by simp
  have cbs: "map cb (backends pool') = map cb (backends pool)"
  proof -
    have proj: "map cb bs = map (\<lambda>(_, _, _, _, c, _). c) (map core bs)" for bs :: "'a Backend list"
      by (simp add: core_def)
    show ?thesis using same unfolding sameBackends_def proj by simp
  qed
  show ?thesis
  proof (cases p)
    case None
    then show ?thesis using pick cbs by (simp add: l7Forward_none)
  next
    case (Some i)
    have i: "i < poolSize pool'" using GetNextBackend_index pick Some by blast
    obtain b rec requestErr where ex: "execute G (net i) (entered pool' i) (newRecorder w) = (b, rec, requestErr)"
      by (metis prod_cases3)
    have "cb b = breakerAfter G (net i) (cb (backends pool' ! i))"
      using execute_breaker [of G "net i" "entered pool' i" w] ex by simp
    also have "cb (backends pool' ! i) = cb (backends pool ! i)"
      using cbs i sameBackends_size [OF same] by (metis nth_map)
    finally have "map cb (backends (leave pool' i b)) =
        (map cb (backends pool))[i := breakerAfter G (net i) (cb (backends pool ! i))]"
      by (simp add: leave_def map_updBackend cbs frame)
    then show ?thesis using pick Some ex by (simp add: l7Forward_some Let_def split: option.splits)
  qed
qed

lemma l7Handler_breakers:
  "map cb (backends (fst (snd (l7Handler G C net r cache pool w)))) =
     (case (cacheLookup C cache r, snd (GetNextBackend G (splitHost (rqRemoteAddr r)) pool)) of
        (None, Some i) \<Rightarrow> (map cb (backends pool))[i := breakerAfter G (net i) (cb (backends pool ! i))]
      | _ \<Rightarrow> map cb (backends pool))"
  by (simp add: l7Handler_def l7Forward_breakers split: option.splits)

text \<open>
  C5: Every request gives back what it took: once it is over, the connection counters, and with
  them the strategy, addresses, health and weights of the pool, are as they were, on every path
  through the handler.  The same holds of the circuit breakers: one that let the request through
  has been told its outcome (a failure where the backend answered 500 or more), and every other
  one is in the state it was in.
\<close>

theorem handler_balanced:
  "map connections (backends (fst (snd (l7Handler G C net r cache pool w)))) = map connections (backends pool)
   \<and> map (\<lambda>b. (Addr b, healthy b, Weight b)) (backends (fst (snd (l7Handler G C net r cache pool w)))) =
     map (\<lambda>b. (Addr b, healthy b, Weight b)) (backends pool)
   \<and> strategy (fst (snd (l7Handler G C net r cache pool w))) = strategy pool
   \<and> map cb (backends (fst (snd (l7Handler G C net r cache pool w)))) =
     (case (cacheLookup C cache r, snd (GetNextBackend G (splitHost (rqRemoteAddr r)) pool)) of
        (None, Some i) \<Rightarrow> (map cb (backends pool))[i := (case cb (backends pool ! i) of
            None \<Rightarrow> None
          | Some c \<Rightarrow> (case beforeRequest G c of
              Inl e \<Rightarrow> Some c
            | Inr c' \<Rightarrow> Some (afterRequest G c'
                (case net i of RtResponse status h chunks \<Rightarrow> status < 500 | RtError e \<Rightarrow> True))))]
      | _ \<Rightarrow> map cb (backends pool))"
  using stat_connections [OF l7Handler_stat] stat_others [OF l7Handler_stat]
    l7Handler_breakers [of G C net r cache pool w, unfolded breakerAfter_def]
  by blast

lemma no_backend_status:
  assumes "\<forall>b\<in>set (backends pool). \<not> available G b" and "cacheLookup C cache r = None" and "rwSent w = None"
  shows "sentStatus (snd (snd (l7Handler G C net r cache pool w))) = 503
    \<and> fst (l7Handler G C net r cache pool w) = cache"
proof -
  have "snd (GetNextBackend G (splitHost (rqRemoteAddr r)) pool) = None"
    by (rule nb.none_available) (use assms(1) in \<open>auto simp: availableAt_def\<close>)
  then obtain pool' where "GetNextBackend G (splitHost (rqRemoteAddr r)) pool = (pool', None)"
    by (metis prod.collapse)
  then show ?thesis
    by (simp add: l7Handler_miss [OF assms(2)] l7Forward_none httpError_status [OF assms(3)])
qed

text \<open>
  Without an available backend, and without a cached answer, the client gets status 503.
\<close>

theorem no_backend_503:
  assumes "\<forall>b\<in>set (backends pool). \<not> available G b" and "cacheLookup C cache r = None" and "rwSent w = None"
  shows "sentStatus (snd (snd (l7Handler G C net r cache pool w))) = 503
    \<and> fst (l7Handler G C net r cache pool w) = cache"
  by (rule no_backend_status [OF assms])

theorem no_backend_503_witness:
  "sentStatus (snd (snd (l7Handler simpleBreaker tableCache (\<lambda>_. RtResponse 200 [] [])
     (sampleGet ''h'' ''/p'' []) None (onePool (Some StateOpen)) newWriter))) = 503"
  using no_backend_503 [of "onePool (Some StateOpen)" simpleBreaker tableCache None "sampleGet ''h'' ''/p'' []" newWriter
      "\<lambda>_. RtResponse 200 [] []"]
  by (simp add: onePool_def available_def simpleBreaker_def cacheLookup_def)

end
