(* ===== verification/GoSort.thy ===== *)
theory GoSort
  imports Prelude "HOL-Library.Multiset"
begin

text \<open>
  \<open>sort.Slice\<close> of Go's standard library.  A slice of at most 12 elements is sorted by
  \<open>insertionSort_func\<close>, which swaps adjacent elements and is stable; a longer one goes to
  pattern-defeating quicksort, whose result is only promised to be sorted.  The longer case
  is the parameter \<open>pdq\<close>, with the documented promise \<open>sort_contract\<close> as the hypothesis.
  The locale \<open>slice_sort\<close> is the interface the route builder uses; it is interpreted on
  \<open>insertionSort\<close>.
\<close>

subsection \<open>Insertion sort by adjacent swaps\<close>

primrec sift :: "('a \<Rightarrow> 'a \<Rightarrow> bool) \<Rightarrow> 'a list \<Rightarrow> nat \<Rightarrow> 'a list" where
  "sift lt xs 0 = xs"
| "sift lt xs (Suc j) =
     (if lt (xs ! Suc j) (xs ! j)
      then sift lt (xs[Suc j := xs ! j, j := xs ! Suc j]) j
      else xs)"

definition insertionSort :: "('a \<Rightarrow> 'a \<Rightarrow> bool) \<Rightarrow> 'a list \<Rightarrow> 'a list" where
  "insertionSort lt xs = foldl (sift lt) xs [1..<length xs]"

definition sortSlice ::
  "(('a \<Rightarrow> 'a \<Rightarrow> bool) \<Rightarrow> 'a list \<Rightarrow> 'a list) \<Rightarrow> ('a \<Rightarrow> 'a \<Rightarrow> bool) \<Rightarrow> 'a list \<Rightarrow> 'a list" where
  "sortSlice pdq lt xs = (if length xs \<le> 12 then insertionSort lt xs else pdq lt xs)"

text \<open>
  What \<open>sort.Slice\<close> promises for a \<open>less\<close> function \<open>lt\<close> that is a strict weak order: the same elements,
  and nothing later in the result is less than anything earlier.
\<close>

definition strict_weak :: "('a \<Rightarrow> 'a \<Rightarrow> bool) \<Rightarrow> bool" where
  "strict_weak lt \<longleftrightarrow>
     (\<forall>x y. lt x y \<longrightarrow> \<not> lt y x) \<and>
     (\<forall>x y z. lt x y \<longrightarrow> lt x z \<or> lt z y)"

definition sort_contract :: "(('a \<Rightarrow> 'a \<Rightarrow> bool) \<Rightarrow> 'a list \<Rightarrow> 'a list) \<Rightarrow> bool" where
  "sort_contract srt \<longleftrightarrow>
     (\<forall>lt xs. strict_weak lt \<longrightarrow>
        mset (srt lt xs) = mset xs \<and> sorted_wrt (\<lambda>a b. \<not> lt b a) (srt lt xs))"

text \<open>The swaps move one element left past the elements it is less than.\<close>

fun insr :: "('a \<Rightarrow> 'a \<Rightarrow> bool) \<Rightarrow> 'a \<Rightarrow> 'a list \<Rightarrow> 'a list" where
  "insr lt x [] = [x]"
| "insr lt x (y # ys) = (if lt x y then y # insr lt x ys else x # y # ys)"

lemma sift_insr:
  "sift lt (rev ys @ x # post) (length ys) = rev (insr lt x ys) @ post"
proof (induction ys arbitrary: post)
  case Nil
  then show ?case by simp
next
  case (Cons y ys)
  let ?xs = "rev ys @ y # x # post"
  have at: "?xs ! Suc (length ys) = x" "?xs ! length ys = y"
    by (simp_all add: nth_append)
  have swap: "?xs[Suc (length ys) := y, length ys := x] = rev ys @ x # y # post"
    by (simp add: list_update_append)
  show ?case
    using Cons.IH [of "y # post"] by (simp add: at swap)
qed

lemma mset_insr [simp]: "mset (insr lt x ys) = add_mset x (mset ys)"
  by (induction ys) auto

lemma set_insr [simp]: "set (insr lt x ys) = insert x (set ys)"
  using mset_insr [of lt x ys] by (metis set_mset_add_mset_insert set_mset_mset)

lemma length_insr [simp]: "length (insr lt x ys) = Suc (length ys)"
  by (induction ys) auto

lemma sorted_insr:
  assumes "strict_weak lt" and "sorted_wrt (\<lambda>a b. \<not> lt a b) ys"
  shows "sorted_wrt (\<lambda>a b. \<not> lt a b) (insr lt x ys)"
  using assms(2)
proof (induction ys)
  case (Cons y ys)
  have asym: "\<not> lt y x" if "lt x y"
    using assms(1) that by (auto simp: strict_weak_def)
  have trans: "\<not> lt x z" if "\<not> lt x y" and "\<not> lt y z" for z
    using assms(1) that unfolding strict_weak_def by blast
  show ?case using Cons asym trans by auto
qed simp

text \<open>The whole loop: after round \<open>i\<close> the first \<open>i + 1\<close> elements are sorted.\<close>

primrec insort_rev :: "('a \<Rightarrow> 'a \<Rightarrow> bool) \<Rightarrow> 'a list \<Rightarrow> 'a list \<Rightarrow> 'a list" where
  "insort_rev lt acc [] = acc"
| "insort_rev lt acc (x # xs) = insort_rev lt (insr lt x acc) xs"

lemma foldl_sift:
  "acc \<noteq> [] \<Longrightarrow>
     foldl (sift lt) (rev acc @ xs) [length acc..<length acc + length xs] = rev (insort_rev lt acc xs)"
proof (induction xs arbitrary: acc)
  case Nil
  then show ?case by simp
next
  case (Cons x xs)
  have "[length acc..<length acc + length (x # xs)]
      = length acc # [length (insr lt x acc)..<length (insr lt x acc) + length xs]"
    by (subst upt_conv_Cons) simp_all
  moreover have "insr lt x acc \<noteq> []" by (cases acc) auto
  ultimately show ?case
    using Cons.IH [of "insr lt x acc"] by (simp add: sift_insr del: upt_Suc)
qed

lemma insertionSort_eq: "insertionSort lt xs = rev (insort_rev lt [] xs)"
proof (cases xs)
  case (Cons x ys)
  have "foldl (sift lt) (rev [x] @ ys) [length [x]..<length [x] + length ys]
      = rev (insort_rev lt [x] ys)"
    by (rule foldl_sift) simp
  with Cons show ?thesis by (simp add: insertionSort_def)
qed (simp add: insertionSort_def)

lemma mset_insort_rev: "mset (insort_rev lt acc xs) = mset acc + mset xs"
  by (induction xs arbitrary: acc) auto

lemma sorted_insort_rev:
  "strict_weak lt \<Longrightarrow> sorted_wrt (\<lambda>a b. \<not> lt a b) acc \<Longrightarrow>
     sorted_wrt (\<lambda>a b. \<not> lt a b) (insort_rev lt acc xs)"
  by (induction xs arbitrary: acc) (auto intro: sorted_insr)

lemma mset_insertionSort: "mset (insertionSort lt xs) = mset xs"
  by (simp add: insertionSort_eq mset_insort_rev)

lemma sorted_insertionSort:
  "strict_weak lt \<Longrightarrow> sorted_wrt (\<lambda>a b. \<not> lt b a) (insertionSort lt xs)"
  using sorted_insort_rev [of lt "[]" xs] by (simp add: insertionSort_eq sorted_wrt_rev)

lemma insertionSort_contract: "sort_contract insertionSort"
  by (simp add: sort_contract_def mset_insertionSort sorted_insertionSort)

lemma sortSlice_contract: "sort_contract pdq \<Longrightarrow> sort_contract (sortSlice pdq)"
  by (simp add: sort_contract_def sortSlice_def mset_insertionSort sorted_insertionSort)

subsection \<open>Stability\<close>

text \<open>
  Elements that \<open>lt\<close> does not distinguish keep their order.  For a class \<open>Q\<close> of mutually
  incomparable elements, the sub-list of the class is unchanged.
\<close>

lemma filter_insr:
  assumes "Q x \<Longrightarrow> (\<And>y. y \<in> set ys \<Longrightarrow> Q y \<Longrightarrow> \<not> lt x y)"
  shows "filter Q (insr lt x ys) = filter Q (x # ys)"
  using assms by (induction ys) auto

lemma filter_insort_rev:
  assumes "\<And>x y. x \<in> set acc \<union> set xs \<Longrightarrow> y \<in> set acc \<union> set xs \<Longrightarrow> Q x \<Longrightarrow> Q y \<Longrightarrow> \<not> lt x y"
  shows "filter Q (insort_rev lt acc xs) = filter Q (rev xs @ acc)"
  using assms
proof (induction xs arbitrary: acc)
  case (Cons x xs)
  have "filter Q (insr lt x acc) = filter Q (x # acc)"
    by (rule filter_insr) (use Cons.prems in auto)
  moreover have "filter Q (insort_rev lt (insr lt x acc) xs) = filter Q (rev xs @ insr lt x acc)"
    by (rule Cons.IH) (use Cons.prems in auto)
  ultimately show ?case by simp
qed simp

lemma insertionSort_stable:
  assumes "\<And>x y. x \<in> set xs \<Longrightarrow> y \<in> set xs \<Longrightarrow> Q x \<Longrightarrow> Q y \<Longrightarrow> \<not> lt x y"
  shows "filter Q (insertionSort lt xs) = filter Q xs"
  using filter_insort_rev [of "[]" xs Q lt] assms
  by (simp add: insertionSort_eq rev_filter [symmetric])

subsection \<open>The interface\<close>

locale slice_sort =
  fixes lt :: "'a \<Rightarrow> 'a \<Rightarrow> bool" and srt :: "'a list \<Rightarrow> 'a list"
  assumes srt_mset: "mset (srt xs) = mset xs"
    and srt_sorted: "sorted_wrt (\<lambda>a b. \<not> lt b a) (srt xs)"
begin

lemma srt_set: "set (srt xs) = set xs"
  using srt_mset [of xs] by (metis set_mset_mset)

lemma srt_length: "length (srt xs) = length xs"
  using srt_mset [of xs] by (metis size_mset)

text \<open>The first element with a property is not beaten by any other element with it.\<close>

lemma find_srt_best:
  assumes "find P (srt xs) = Some x"
  shows "x \<in> set xs \<and> P x \<and> (\<forall>y\<in>set xs. P y \<longrightarrow> \<not> lt y x \<or> y = x)"
proof -
  from assms obtain i where i: "i < length (srt xs)" "P (srt xs ! i)" "x = srt xs ! i"
    and before: "\<And>j. j < i \<Longrightarrow> \<not> P (srt xs ! j)"
    by (auto simp: find_Some_iff)
  have "\<not> lt y x \<or> y = x" if y: "y \<in> set xs" "P y" for y
  proof -
    from y(1) obtain k where k: "k < length (srt xs)" "srt xs ! k = y"
      by (metis in_set_conv_nth srt_set)
    with y(2) before have "i \<le> k" by (metis not_le)
    then show ?thesis
      using srt_sorted [of xs] k i by (cases "i = k") (auto simp: sorted_wrt_iff_nth_less)
  qed
  then show ?thesis using i by (metis nth_mem srt_set)
qed

lemma find_srt_None: "find P (srt xs) = None \<longleftrightarrow> (\<forall>x\<in>set xs. \<not> P x)"
  by (auto simp: find_None_iff srt_set)

end

end
