(* ===== verification/Routing.thy ===== *)
theory Routing
  imports Config GoHttp GoSort
begin

text \<open>
  The routing half of \<open>internal/lb/loadbalancer.go\<close>: \<open>Route.Matches\<close>, the order in which
  \<open>buildL7Routes\<close> sorts the routes, and the loop of \<open>ServeHTTP\<close> that takes the first route
  that matches.  A route holds its configuration and, as the reference \<open>rtPool\<close>, its pool.

  The facts: the order is a strict weak order, so \<open>sort.Slice\<close> may be used; the route that
  serves a request is one of the most specific routes that match it (host before no host, then
  the longest path); with at most 12 routes, the configured order decides between equally
  specific routes, as \<open>sort.Slice\<close> is stable there, but not beyond.
\<close>

record Route =
  rtConfig :: RouteConfig
  rtPool :: nat

subsection \<open>Matches\<close>

fun headersMatch :: "(string \<times> string) list \<Rightarrow> Header \<Rightarrow> bool" where
  "headersMatch [] h = True"
| "headersMatch ((key, value) # kvs) h = (if hdrGet h key \<noteq> value then False else headersMatch kvs h)"

definition Matches :: "Request \<Rightarrow> Route \<Rightarrow> bool" where
  "Matches r rt =
     (let c = rtConfig rt in
        if rcHost c \<noteq> [] \<and> rcHost c \<noteq> rqHost r then False
        else if rcPath c \<noteq> [] \<and> \<not> HasPrefix (rqPath r) (rcPath c) then False
        else headersMatch (rcHeaders c) (rqHeader r))"

lemma headersMatch_iff: "headersMatch kvs h \<longleftrightarrow> (\<forall>(k, v)\<in>set kvs. hdrGet h k = v)"
  by (induction kvs h rule: headersMatch.induct) auto

lemma Matches_iff:
  "Matches r rt \<longleftrightarrow>
     (rcHost (rtConfig rt) = [] \<or> rcHost (rtConfig rt) = rqHost r)
     \<and> prefix (rcPath (rtConfig rt)) (rqPath r)
     \<and> (\<forall>(k, v)\<in>set (rcHeaders (rtConfig rt)). hdrGet (rqHeader r) k = v)"
  by (auto simp: Matches_def Let_def headersMatch_iff HasPrefix_iff)

subsection \<open>The order of the routes\<close>

definition routeLess :: "Route \<Rightarrow> Route \<Rightarrow> bool" where
  "routeLess a b =
     (let r1 = rtConfig a; r2 = rtConfig b in
        if rcHost r1 \<noteq> [] \<and> rcHost r2 = [] then True
        else if rcHost r1 = [] \<and> rcHost r2 \<noteq> [] then False
        else if length (rcPath r2) < length (rcPath r1) then True
        else if length (rcPath r1) < length (rcPath r2) then False
        else length (rcHost r2) < length (rcHost r1))"

definition sortRoutes :: "((Route \<Rightarrow> Route \<Rightarrow> bool) \<Rightarrow> Route list \<Rightarrow> Route list) \<Rightarrow> Route list \<Rightarrow> Route list" where
  "sortRoutes pdq = sortSlice pdq routeLess"

text \<open>The specificity of a route; a smaller key comes first.\<close>

definition routeKey :: "Route \<Rightarrow> nat \<times> int \<times> int" where
  "routeKey rt =
     ((if rcHost (rtConfig rt) = [] then 1 else 0),
      - int (length (rcPath (rtConfig rt))), - int (length (rcHost (rtConfig rt))))"

definition keyLess :: "nat \<times> int \<times> int \<Rightarrow> nat \<times> int \<times> int \<Rightarrow> bool" where
  "keyLess k l = (case (k, l) of ((a, b, c), (a', b', c')) \<Rightarrow>
     a < a' \<or> a = a' \<and> (b < b' \<or> b = b' \<and> c < c'))"

lemma routeLess_key: "routeLess a b \<longleftrightarrow> keyLess (routeKey a) (routeKey b)"
  by (auto simp: routeLess_def keyLess_def routeKey_def Let_def)

lemma strict_weak_routeLess: "strict_weak routeLess"
  unfolding strict_weak_def routeLess_key keyLess_def by (auto simp: split_beta)

lemma sortRoutes_slice_sort: "sort_contract pdq \<Longrightarrow> slice_sort routeLess (sortRoutes pdq)"
  using sortSlice_contract [of pdq] strict_weak_routeLess
  by (unfold_locales) (auto simp: sortRoutes_def sort_contract_def)

interpretation routes12: slice_sort routeLess "insertionSort routeLess"
  by unfold_locales (simp_all add: mset_insertionSort sorted_insertionSort strict_weak_routeLess)

subsection \<open>Dispatch\<close>

text \<open>The loop of \<open>ServeHTTP\<close>: the first route that matches.\<close>

primrec firstMatch :: "Request \<Rightarrow> Route list \<Rightarrow> Route option" where
  "firstMatch r [] = None"
| "firstMatch r (rt # rts) = (if Matches r rt then Some rt else firstMatch r rts)"

lemma firstMatch_find: "firstMatch r rts = find (Matches r) rts"
  by (induction rts) auto

definition atLeastAsSpecific :: "Route \<Rightarrow> Route \<Rightarrow> bool" where
  "atLeastAsSpecific a b \<longleftrightarrow>
     (rcHost (rtConfig b) \<noteq> [] \<longrightarrow> rcHost (rtConfig a) \<noteq> []) \<and>
     ((rcHost (rtConfig a) = []) = (rcHost (rtConfig b) = []) \<longrightarrow>
        length (rcPath (rtConfig b)) \<le> length (rcPath (rtConfig a)))"

lemma not_routeLess_specific: "\<not> routeLess b a \<Longrightarrow> atLeastAsSpecific a b"
  by (auto simp: routeLess_def atLeastAsSpecific_def Let_def split: if_splits)

lemma firstMatch_best:
  assumes "sort_contract pdq" and "firstMatch r (sortRoutes pdq rts) = Some rt"
  shows "rt \<in> set rts" and "Matches r rt"
    and "\<And>rt'. rt' \<in> set rts \<Longrightarrow> Matches r rt' \<Longrightarrow> atLeastAsSpecific rt rt'"
proof -
  note best = slice_sort.find_srt_best [OF sortRoutes_slice_sort [OF assms(1)], of "Matches r" rts rt]
  from best assms(2) show "rt \<in> set rts" "Matches r rt" by (simp_all add: firstMatch_find)
  show "atLeastAsSpecific rt rt'" if "rt' \<in> set rts" "Matches r rt'" for rt'
    using best assms(2) that not_routeLess_specific [of rt' rt]
    by (auto simp: firstMatch_find atLeastAsSpecific_def)
qed

lemma firstMatch_None:
  "sort_contract pdq \<Longrightarrow> firstMatch r (sortRoutes pdq rts) = None \<longleftrightarrow> (\<forall>rt\<in>set rts. \<not> Matches r rt)"
  using slice_sort.find_srt_None [OF sortRoutes_slice_sort] by (simp add: firstMatch_find)

text \<open>Stable up to 12 routes: the first configured route of the winning specificity is taken.\<close>

definition equallySpecific :: "Route \<Rightarrow> Route \<Rightarrow> bool" where
  "equallySpecific a b \<longleftrightarrow> routeKey a = routeKey b"

lemma find_filter: "find P xs = (case filter P xs of [] \<Rightarrow> None | x # _ \<Rightarrow> Some x)"
  by (induction xs) auto

lemma find_restrict: "find P xs = Some x \<Longrightarrow> Q x \<Longrightarrow> find P (filter Q xs) = Some x"
  by (induction xs) (auto split: if_splits)

lemma firstMatch_stable:
  assumes "length rts \<le> 12" and "firstMatch r (sortRoutes pdq rts) = Some rt"
  shows "find (\<lambda>rt'. Matches r rt' \<and> equallySpecific rt rt') rts = Some rt"
proof -
  let ?Q = "equallySpecific rt"
  have "filter ?Q (insertionSort routeLess rts) = filter ?Q rts"
    by (rule insertionSort_stable) (auto simp: equallySpecific_def routeLess_key keyLess_def split_beta)
  moreover have "find (Matches r) (filter ?Q (insertionSort routeLess rts)) = Some rt"
    using assms by (intro find_restrict)
      (auto simp: firstMatch_find sortRoutes_def sortSlice_def equallySpecific_def)
  ultimately have "find (Matches r) (filter ?Q rts) = Some rt" by simp
  then show ?thesis by (simp add: find_filter conj_commute)
qed

subsection \<open>Properties\<close>

text \<open>
  C11: A request is served by a configured route that matches it, and by none that is less
  specific than another matching one: a route bound to a host wins over one that is not, and
  then the longer path prefix wins.  No route is found only if none matches.
\<close>

theorem dispatch_most_specific:
  assumes "sort_contract pdq"
  shows "case firstMatch r (sortRoutes pdq rts) of
    None \<Rightarrow> \<forall>rt\<in>set rts. \<not> Matches r rt
  | Some rt \<Rightarrow> rt \<in> set rts \<and> Matches r rt \<and>
      (\<forall>rt'\<in>set rts. Matches r rt' \<longrightarrow>
         (rcHost (rtConfig rt') \<noteq> [] \<longrightarrow> rcHost (rtConfig rt) \<noteq> []) \<and>
         ((rcHost (rtConfig rt) = []) = (rcHost (rtConfig rt') = []) \<longrightarrow>
            length (rcPath (rtConfig rt')) \<le> length (rcPath (rtConfig rt))))"
  using firstMatch_None [OF assms, of r rts] firstMatch_best [OF assms, of r rts]
  by (auto simp: atLeastAsSpecific_def split: option.split)

definition sampleRoute :: "string \<Rightarrow> string \<Rightarrow> nat \<Rightarrow> Route" where
  "sampleRoute host path ref =
     \<lparr>rtConfig = \<lparr>rcHost = host, rcPath = path, rcHeaders = [], rcStrategy = [], rcBackends = []\<rparr>, rtPool = ref\<rparr>"

lemma sampleRoute_sel [simp]:
  "rcHost (rtConfig (sampleRoute h p n)) = h" "rcPath (rtConfig (sampleRoute h p n)) = p"
  "rcHeaders (rtConfig (sampleRoute h p n)) = []" "rtPool (sampleRoute h p n) = n"
  by (simp_all add: sampleRoute_def)

theorem dispatch_most_specific_witness:
  "\<exists>rt. firstMatch (sampleGet ''h'' ''/api/v1'' [])
      (sortRoutes insertionSort [sampleRoute [] ''/'' 0, sampleRoute [] ''/api'' 1, sampleRoute ''h'' ''/'' 2]) = Some rt
    \<and> rcHost (rtConfig rt) = ''h''"
  using dispatch_most_specific [OF insertionSort_contract, where r = "sampleGet ''h'' ''/api/v1'' []"
      and rts = "[sampleRoute [] ''/'' 0, sampleRoute [] ''/api'' 1, sampleRoute ''h'' ''/'' 2]"]
  by (auto simp: Matches_iff split: option.splits)

text \<open>
  With up to twelve routes, the first one in configured order wins among the matching routes
  that the order cannot tell apart, as the sort then is an insertion sort.
\<close>

theorem dispatch_configured_order:
  assumes "length rts \<le> 12" and "firstMatch r (sortRoutes pdq rts) = Some rt"
  shows "find (\<lambda>rt'. Matches r rt' \<and> routeKey rt' = routeKey rt) rts = Some rt"
proof -
  have "(\<lambda>rt'. Matches r rt' \<and> equallySpecific rt rt') = (\<lambda>rt'. Matches r rt' \<and> routeKey rt' = routeKey rt)"
    by (auto simp: equallySpecific_def fun_eq_iff)
  with firstMatch_stable [OF assms] show ?thesis by (simp only:)
qed

theorem dispatch_configured_order_witness:
  "find (\<lambda>rt'. Matches (sampleGet ''h'' ''/api/v1'' []) rt' \<and> routeKey rt' = routeKey (sampleRoute [] ''/api'' 1))
    [sampleRoute [] ''/'' 0, sampleRoute [] ''/api'' 1, sampleRoute [] ''/ap*'' 3, sampleRoute [] ''/api'' 2] =
   Some (sampleRoute [] ''/api'' 1)"
proof -
  let ?rts = "[sampleRoute [] ''/'' 0, sampleRoute [] ''/api'' 1, sampleRoute [] ''/ap*'' 3, sampleRoute [] ''/api'' 2]"
  have "firstMatch (sampleGet ''h'' ''/api/v1'' []) (sortRoutes (\<lambda>_ xs. xs) ?rts) = Some (sampleRoute [] ''/api'' 1)"
    by (simp add: sortRoutes_def sortSlice_def insertionSort_def sift_def routeLess_def Let_def Matches_iff)
  from dispatch_configured_order [OF _ this] show ?thesis by simp
qed

end
