(* ===== verification/RateLimit.thy ===== *)
theory RateLimit
  imports Config Prelude
begin

text \<open>
  \<open>internal/lb/ratelimit.go\<close>: the per-client limiter that counts in Redis.

  The server is a parameter, the record \<open>redis\<close> over an abstract server state: \<open>rdExec\<close> is the
  pipeline \<open>INCR key; EXPIRE key d\<close>, which answers the new count or an error, and \<open>rdPass\<close> the
  passing of time.  \<open>rdVal\<close> (0 for an absent key) and \<open>rdTTL\<close> observe the state, so that
  \<open>redis_laws\<close> can state the documented effect of the two commands and of expiry.

  The limit is the configured \<open>float64\<close> truncated to an \<open>int\<close>; \<open>Burst\<close> is not read by the code.
  The facts: the limiter fails open, and as each request also renews the expiry, requests that
  keep coming less than a second apart are counted together, however long that goes on.
\<close>

subsection \<open>The server\<close>

record 'r redis =
  rdExec :: "'r \<Rightarrow> string \<Rightarrow> duration \<Rightarrow> 'r \<times> (string + go_int)"
  rdPass :: "duration \<Rightarrow> 'r \<Rightarrow> 'r"
  rdVal :: "'r \<Rightarrow> string \<Rightarrow> int"
  rdTTL :: "'r \<Rightarrow> string \<Rightarrow> duration"

definition redis_laws :: "'r redis \<Rightarrow> bool" where
  "redis_laws R \<longleftrightarrow>
     (\<forall>r k d r' c. rdExec R r k d = (r', Inr c) \<longrightarrow>
        c = word_of_int (rdVal R r k + 1) \<and>
        rdVal R r' = (rdVal R r)(k := rdVal R r k + 1) \<and> rdTTL R r' = (rdTTL R r)(k := d)) \<and>
     (\<forall>r d k. rdVal R (rdPass R d r) k = (if d < rdTTL R r k then rdVal R r k else 0)
            \<and> rdTTL R (rdPass R d r) k = rdTTL R r k - d)"

definition redis_up :: "'r redis \<Rightarrow> bool" where
  "redis_up R \<longleftrightarrow> (\<forall>r k d. \<exists>r' c. rdExec R r k d = (r', Inr c))"

subsection \<open>The limiter\<close>

definition truncRat :: "rat \<Rightarrow> int" where
  "truncRat q = (if 0 \<le> q then \<lfloor>q\<rfloor> else \<lceil>q\<rceil>)"

definition NewRateLimiter ::
  "(RedisConfig \<Rightarrow> bool) \<Rightarrow> RateLimitConfig option \<Rightarrow> RedisConfig option \<Rightarrow> go_int option" where
  "NewRateLimiter ping rlCfg redisCfg =
     (case redisCfg of
        None \<Rightarrow> None
      | Some rd \<Rightarrow>
          (case rlCfg of
             None \<Rightarrow> None
           | Some rl \<Rightarrow>
               if rlRequestsPerSecond rl = 0 then None
               else if \<not> ping rd then None
               else Some (word_of_int (truncRat (rlRequestsPerSecond rl)))))"

definition second :: duration where
  "second = 1000000000"

definition limitKey :: "string \<Rightarrow> string" where
  "limitKey ip = ''ratelimit:'' @ ip"

definition Allow :: "'r redis \<Rightarrow> go_int \<Rightarrow> string \<Rightarrow> 'r \<Rightarrow> 'r \<times> bool" where
  "Allow R limit ip r =
     (case rdExec R r (limitKey ip) second of
        (r', Inl e) \<Rightarrow> (r', True)
      | (r', Inr count) \<Rightarrow> (r', \<not> limit <s count))"

text \<open>A client that sends a request after each of the given gaps, and the answers it gets.\<close>

primrec allowRun :: "'r redis \<Rightarrow> go_int \<Rightarrow> string \<Rightarrow> duration list \<Rightarrow> 'r \<Rightarrow> 'r \<times> bool list" where
  "allowRun R limit ip [] r = (r, [])"
| "allowRun R limit ip (gap # gaps) r =
     (case Allow R limit ip (rdPass R gap r) of
        (r', a) \<Rightarrow> case allowRun R limit ip gaps r' of (r'', as) \<Rightarrow> (r'', a # as))"

subsection \<open>Facts\<close>

lemma limitKey_inj [simp]: "limitKey a = limitKey b \<longleftrightarrow> a = b"
  by (simp add: limitKey_def)

lemma Allow_error: "rdExec R r (limitKey ip) second = (r', Inl e) \<Longrightarrow> Allow R limit ip r = (r', True)"
  by (simp add: Allow_def)

lemma Allow_counts:
  assumes "redis_laws R" and "redis_up R" and "0 \<le> rdVal R r (limitKey ip)"
    and "rdVal R r (limitKey ip) + 1 < 2 ^ 63"
  obtains r' where "Allow R limit ip r = (r', rdVal R r (limitKey ip) + 1 \<le> sint limit)"
    "rdVal R r' = (rdVal R r)(limitKey ip := rdVal R r (limitKey ip) + 1)"
    "rdTTL R r' = (rdTTL R r)(limitKey ip := second)"
proof -
  obtain r' c where ex: "rdExec R r (limitKey ip) second = (r', Inr c)"
    using assms(2) unfolding redis_up_def by blast
  with assms(1) have c: "c = word_of_int (rdVal R r (limitKey ip) + 1)"
    and r': "rdVal R r' = (rdVal R r)(limitKey ip := rdVal R r (limitKey ip) + 1)"
      "rdTTL R r' = (rdTTL R r)(limitKey ip := second)"
    unfolding redis_laws_def by blast+
  have "sint c = rdVal R r (limitKey ip) + 1"
    unfolding c using assms(3,4) by (intro sint_of_int_small) simp_all
  then have "Allow R limit ip r = (r', rdVal R r (limitKey ip) + 1 \<le> sint limit)"
    by (simp add: Allow_def ex word_sless_iff_sint not_less)
  then show thesis using r' by (rule that)
qed

text \<open>
  A client whose requests come less than a second apart: the \<open>k\<close>-th one since the counter
  started is allowed if and only if \<open>k\<close> is at most the limit.
\<close>

lemma allowRun_window:
  assumes laws: "redis_laws R" and up: "redis_up R"
    and gaps: "\<forall>g\<in>set gaps. g < second"
    and val: "0 \<le> rdVal R r (limitKey ip)" "rdVal R r (limitKey ip) + int (length gaps) < 2 ^ 63"
    and ttl: "rdTTL R r (limitKey ip) = second"
  shows "snd (allowRun R limit ip gaps r) =
    map (\<lambda>k. rdVal R r (limitKey ip) + int k \<le> sint limit) [1..<Suc (length gaps)]"
  using gaps val ttl
proof (induction gaps arbitrary: r)
  case (Cons g gaps)
  let ?k = "limitKey ip" and ?r = "rdPass R g r"
  have v: "rdVal R ?r ?k = rdVal R r ?k"
    using laws Cons.prems(1,4) unfolding redis_laws_def by simp
  obtain r' where step: "Allow R limit ip ?r = (r', rdVal R r ?k + 1 \<le> sint limit)"
    and r': "rdVal R r' ?k = rdVal R r ?k + 1" "rdTTL R r' ?k = second"
  proof (rule Allow_counts [OF laws up, of ?r ip limit])
    show "0 \<le> rdVal R ?r ?k" "rdVal R ?r ?k + 1 < 2 ^ 63"
      unfolding v using Cons.prems(2,3) by simp_all
  qed (simp add: v)
  have shift: "map (\<lambda>k. rdVal R r ?k + int k \<le> sint limit) [1..<Suc (length (g # gaps))]
      = (rdVal R r ?k + 1 \<le> sint limit)
        # map (\<lambda>k. rdVal R r' ?k + int k \<le> sint limit) [1..<Suc (length gaps)]"
    unfolding list.size(4) add_Suc_right add_0_right map_upt_shift r'(1)
    by (simp add: add.assoc del: upt_Suc)
  have "snd (allowRun R limit ip gaps r') =
      map (\<lambda>k. rdVal R r' ?k + int k \<le> sint limit) [1..<Suc (length gaps)]"
    by (rule Cons.IH) (use Cons.prems r' in simp_all)
  then show ?case unfolding shift by (simp add: step case_prod_beta)
qed simp

lemma Allow_other:
  assumes "redis_laws R" and "redis_up R" and "ip' \<noteq> ip"
  shows "rdVal R (fst (Allow R limit ip r)) (limitKey ip') = rdVal R r (limitKey ip')"
    and "rdTTL R (fst (Allow R limit ip r)) (limitKey ip') = rdTTL R r (limitKey ip')"
proof -
  obtain r' c where ex: "rdExec R r (limitKey ip) second = (r', Inr c)"
    using assms(2) unfolding redis_up_def by blast
  with assms(1) have "rdVal R r' = (rdVal R r)(limitKey ip := rdVal R r (limitKey ip) + 1)"
    "rdTTL R r' = (rdTTL R r)(limitKey ip := second)"
    unfolding redis_laws_def by blast+
  with ex assms(3) show "rdVal R (fst (Allow R limit ip r)) (limitKey ip') = rdVal R r (limitKey ip')"
    "rdTTL R (fst (Allow R limit ip r)) (limitKey ip') = rdTTL R r (limitKey ip')"
    by (simp_all add: Allow_def)
qed

subsection \<open>A server to evaluate on\<close>

text \<open>A concrete server: each key with its value and the time it has left.\<close>

definition tableRedis :: "(string \<Rightarrow> int \<times> duration) redis" where
  "tableRedis =
     \<lparr>rdExec = (\<lambda>r k d. (r(k := (fst (r k) + 1, d)), Inr (word_of_int (fst (r k) + 1)))),
      rdPass = (\<lambda>d r k. if d < snd (r k) then (fst (r k), snd (r k) - d) else (0, snd (r k) - d)),
      rdVal = (\<lambda>r k. fst (r k)), rdTTL = (\<lambda>r k. snd (r k))\<rparr>"

lemma tableRedis_laws: "redis_laws tableRedis"
  by (auto simp: redis_laws_def tableRedis_def)

lemma tableRedis_up: "redis_up tableRedis"
  by (simp add: redis_up_def tableRedis_def)

subsection \<open>Properties\<close>

text \<open>
  C21: A client that is new, or has been silent until its counter expired, and from then on sends
  requests that follow each other by less than a second is counted in one single window, however
  long that lasts, because every request renews the expiry of its counter: with a limit of \<open>n\<close>
  per second, its first \<open>n\<close> requests are allowed and all later ones are denied.
\<close>

theorem rate_window:
  assumes "redis_laws R" and "redis_up R"
    and "rdTTL R r (''ratelimit:'' @ ip) \<le> silence" and "\<forall>gap\<in>set gaps. gap < 1000000000"
    and "int (length gaps) + 1 < 2 ^ 63"
  shows "snd (allowRun R limit ip (silence # gaps) r) = map (\<lambda>k. int k \<le> sint limit) [1..<length gaps + 2]"
proof -
  have zero: "rdVal R (rdPass R silence r) (limitKey ip) = 0"
    using assms(1,3) by (simp add: redis_laws_def limitKey_def)
  obtain r' where first: "Allow R limit ip (rdPass R silence r) = (r', 1 \<le> sint limit)"
    and r': "rdVal R r' (limitKey ip) = 1" "rdTTL R r' (limitKey ip) = second"
    by (rule Allow_counts [OF assms(1,2), of "rdPass R silence r" ip limit]) (simp_all add: zero)
  have "snd (allowRun R limit ip gaps r') = map (\<lambda>k. 1 + int k \<le> sint limit) [1..<Suc (length gaps)]"
    using allowRun_window [OF assms(1,2), of gaps r' ip limit] assms(4,5) r' by (simp add: second_def)
  moreover have "map (\<lambda>k. int k \<le> sint limit) [1..<Suc (Suc (length gaps))] =
      (1 \<le> sint limit) # map (\<lambda>k. 1 + int k \<le> sint limit) [1..<Suc (length gaps)]"
    unfolding map_upt_shift by (simp add: add.commute del: upt_Suc)
  ultimately show ?thesis by (simp add: first case_prod_beta del: upt_Suc)
qed

text \<open>A first request with no counter there, and three more, 0.8 seconds apart.\<close>

theorem rate_window_witness:
  "snd (allowRun tableRedis 2 ''ip'' [0, 800000000, 800000000, 800000000] (\<lambda>_. (0, 0))) = [True, True, False, False]"
  using rate_window [OF tableRedis_laws tableRedis_up, of "\<lambda>_. (0, 0)" "''ip''" 0 "[800000000, 800000000, 800000000]" 2]
  by (simp add: tableRedis_def upt_rec)

text \<open>
  Once a client has been silent for the time its counter had left, its next request is the
  first of a new window; and no request of one client touches the counter of another.
\<close>

theorem rate_isolation:
  assumes "redis_laws R" and "redis_up R" and "rdTTL R r (''ratelimit:'' @ ip) \<le> gap" and "ip' \<noteq> ip"
  shows "snd (Allow R limit ip (rdPass R gap r)) = (1 \<le> sint limit)
    \<and> rdVal R (fst (Allow R limit ip r)) (''ratelimit:'' @ ip') = rdVal R r (''ratelimit:'' @ ip')"
proof -
  have zero: "rdVal R (rdPass R gap r) (limitKey ip) = 0"
    using assms(1,3) by (simp add: redis_laws_def limitKey_def)
  obtain r' where "Allow R limit ip (rdPass R gap r) = (r', 1 \<le> sint limit)"
    by (rule Allow_counts [OF assms(1,2), of "rdPass R gap r" ip limit]) (simp_all add: zero)
  then show ?thesis
    using Allow_other(1) [OF assms(1,2,4), of limit r] by (simp add: limitKey_def)
qed

theorem rate_isolation_witness:
  "snd (Allow tableRedis 1 ''a'' (rdPass tableRedis 5 (\<lambda>_. (9, 5))))"
  using rate_isolation [OF tableRedis_laws tableRedis_up, of "\<lambda>_. (9, 5)" "''a''" 5 "''b''" 1]
  by (simp add: tableRedis_def)

text \<open>
  The limiter fails open: a request whose pipeline fails is allowed, whatever the limit.
  And a rate between 0 and 1 request per second is truncated to the limit 0: while Redis
  answers, such a limiter denies every request.
\<close>

theorem fractional_rate_blocks:
  assumes "0 < rlRequestsPerSecond rl" and "rlRequestsPerSecond rl < 1" and "ping rd"
    and "redis_laws R" and "0 \<le> rdVal R r (''ratelimit:'' @ ip)" and "rdVal R r (''ratelimit:'' @ ip) + 1 < 2 ^ 63"
  shows "NewRateLimiter ping (Some rl) (Some rd) = Some 0
    \<and> snd (Allow R 0 ip r) = (\<exists>r' e. rdExec R r (''ratelimit:'' @ ip) 1000000000 = (r', Inl e))"
proof -
  have "\<lfloor>rlRequestsPerSecond rl\<rfloor> = 0" using assms(1,2) by (simp add: floor_eq_iff)
  then have new: "NewRateLimiter ping (Some rl) (Some rd) = Some 0"
    using assms(1-3) by (simp add: NewRateLimiter_def truncRat_def)
  have "0 <s (word_of_int (rdVal R r (limitKey ip) + 1) :: go_int)"
    unfolding word_sless_iff_sint using assms(5,6)
    by (subst sint_of_int_small) (simp_all add: limitKey_def)
  then have "snd (Allow R 0 ip r) = (\<exists>r' e. rdExec R r (limitKey ip) second = (r', Inl e))"
    using assms(4) unfolding Allow_def redis_laws_def
    by (cases "rdExec R r (limitKey ip) second"; cases "snd (rdExec R r (limitKey ip) second)") auto
  with new show ?thesis by (simp add: limitKey_def second_def)
qed

theorem fractional_rate_blocks_witness:
  "\<not> snd (Allow tableRedis 0 ''ip'' (\<lambda>_. (0, 0)))"
  using fractional_rate_blocks [of "\<lparr>rlEnabled = True, rlRequestsPerSecond = 1 / 2, rlBurst = 5\<rparr>" "\<lambda>_. True"
      "\<lparr>rdAddr = [], rdPassword = [], rdDB = 0\<rparr>" tableRedis "\<lambda>_. (0, 0)" "''ip''", OF _ _ _ tableRedis_laws]
  by (simp add: tableRedis_def)

end
