(* ===== verification/LoadBalancer.thy ===== *)
theory LoadBalancer
  imports L7Handler Routing RateLimit "HOL-Library.AList"
begin

text \<open>
  \<open>internal/lb/loadbalancer.go\<close>: the \<open>LoadBalancer\<close> struct, how routes and layer-4 pools are
  built from a configuration, reloading, and \<open>ServeHTTP\<close>.

  The program shares its configurations and pools by pointers, so both live in heaps:
  \<^item> \<open>cfgHeap\<close> holds every \<open>*Config\<close> that was ever loaded; a pointer is an index.  A
    \<open>*ListenerConfig\<close> is the pair of a configuration and the index of the listener in it.
  \<^item> \<open>poolHeap\<close> holds every \<open>*BackendPool\<close>; \<open>rtPool\<close> of a route and the entries of
    \<open>lbL4Pools\<close> point into it.  \<open>healthLoops\<close> lists the pools that have a ticker goroutine.
  \<^item> The Go map \<open>l4Pools\<close> is the association list \<open>lbL4Pools\<close>, with \<open>AList.update\<close> for its
    assignment.

  The record \<open>world\<close> bundles the third-party parameters.  Map iteration order may differ from
  one construction to the next, so \<open>wMapOrder\<close> is given the pool under construction.

  One call of \<open>ServeHTTP\<close> is one transition here; picks that overlap on the shared
  counter of round robin, which has no lock, are the subject of \<open>RoundRobinConc\<close>.
\<close>

record ('cb, 'c, 'r) world =
  wBreaker :: "'cb gobreaker"
  wCache :: "('c, CacheItem) gocache"
  wRedis :: "'r redis"
  wPing :: "RedisConfig \<Rightarrow> bool"
  wUrlParse :: "string \<Rightarrow> string option"
  wMapOrder :: "nat \<Rightarrow> string list \<Rightarrow> string list"
  wSort :: "(Route \<Rightarrow> Route \<Rightarrow> bool) \<Rightarrow> Route list \<Rightarrow> Route list"

record ('cb, 'c, 'r) LoadBalancer =
  cfgHeap :: "Config list"
  poolHeap :: "'cb BackendPool list"
  healthLoops :: "nat list"
  lbCfg :: nat
  lbRoutes :: "Route list"
  lbL4Pools :: "(string \<times> nat) list"
  lbRl :: "go_int option"
  lbCache :: "'c option"
  lbRedis :: 'r

subsection \<open>Building\<close>

text \<open>
  Allocation of a pool, with \<open>StartHealthChecks\<close> where the code calls it: where it has backends to
  check (\<open>startChecks\<close>) it leaves a loop running.
\<close>

definition newPool :: "'cb BackendPool \<Rightarrow> bool \<Rightarrow> ('cb, 'c, 'r) LoadBalancer \<Rightarrow> ('cb, 'c, 'r) LoadBalancer" where
  "newPool p checks s =
     s\<lparr>poolHeap := poolHeap s @ [p],
       healthLoops := (if checks \<and> startChecks p \<noteq> [] then healthLoops s @ [length (poolHeap s)]
                       else healthLoops s)\<rparr>"

definition l7Pool :: "('cb, 'c, 'r) world \<Rightarrow> Config \<Rightarrow> nat \<Rightarrow> RouteConfig \<Rightarrow> 'cb BackendPool" where
  "l7Pool W cfg ref routeCfg =
     NewL7BackendPool (wBreaker W) (wUrlParse W) (wMapOrder W ref) routeCfg
       (cfCircuitBreaker cfg) (cfConnectionPool cfg)"

definition l4Pool :: "('cb, 'c, 'r) world \<Rightarrow> Config \<Rightarrow> nat \<Rightarrow> ListenerConfig \<Rightarrow> 'cb BackendPool" where
  "l4Pool W cfg ref listenerCfg =
     NewL4BackendPool (wBreaker W) (wMapOrder W ref) listenerCfg (cfCircuitBreaker cfg)"

text \<open>The two nested loops of \<open>buildL7Routes\<close>, then the sort.\<close>

primrec l7Routes_loop ::
  "('cb, 'c, 'r) world \<Rightarrow> Config \<Rightarrow> RouteConfig list \<Rightarrow> Route list \<times> ('cb, 'c, 'r) LoadBalancer
     \<Rightarrow> Route list \<times> ('cb, 'c, 'r) LoadBalancer" where
  "l7Routes_loop W cfg [] a = a"
| "l7Routes_loop W cfg (routeCfg # rcs) a =
     (case a of (routes, s) \<Rightarrow>
        (let ref = length (poolHeap s)
         in l7Routes_loop W cfg rcs
              (routes @ [\<lparr>rtConfig = routeCfg, rtPool = ref\<rparr>],
               newPool (l7Pool W cfg ref routeCfg) True s)))"

primrec l7Listeners_loop ::
  "('cb, 'c, 'r) world \<Rightarrow> Config \<Rightarrow> ListenerConfig list \<Rightarrow> Route list \<times> ('cb, 'c, 'r) LoadBalancer
     \<Rightarrow> Route list \<times> ('cb, 'c, 'r) LoadBalancer" where
  "l7Listeners_loop W cfg [] a = a"
| "l7Listeners_loop W cfg (listenerCfg # ls) a =
     (if \<not> isL7 listenerCfg then l7Listeners_loop W cfg ls a
      else l7Listeners_loop W cfg ls (l7Routes_loop W cfg (lcRoutes listenerCfg) a))"

definition buildL7Routes ::
  "('cb, 'c, 'r) world \<Rightarrow> Config \<Rightarrow> ('cb, 'c, 'r) LoadBalancer
     \<Rightarrow> Route list \<times> ('cb, 'c, 'r) LoadBalancer" where
  "buildL7Routes W cfg s =
     (case l7Listeners_loop W cfg (cfListeners cfg) ([], s) of
        (routes, s) \<Rightarrow> (sortRoutes (wSort W) routes, s))"

primrec l4Pools_loop ::
  "('cb, 'c, 'r) world \<Rightarrow> Config \<Rightarrow> ListenerConfig list
     \<Rightarrow> (string \<times> nat) list \<times> ('cb, 'c, 'r) LoadBalancer
     \<Rightarrow> (string \<times> nat) list \<times> ('cb, 'c, 'r) LoadBalancer" where
  "l4Pools_loop W cfg [] a = a"
| "l4Pools_loop W cfg (listenerCfg # ls) a =
     (case a of (pools, s) \<Rightarrow>
        if isL4 listenerCfg then
          (let ref = length (poolHeap s)
           in l4Pools_loop W cfg ls
                (AList.update (lcName listenerCfg) ref pools,
                 newPool (l4Pool W cfg ref listenerCfg) (lcProtocol listenerCfg = ''tcp'') s))
        else l4Pools_loop W cfg ls a)"

definition buildL4Pools ::
  "('cb, 'c, 'r) world \<Rightarrow> Config \<Rightarrow> ('cb, 'c, 'r) LoadBalancer
     \<Rightarrow> (string \<times> nat) list \<times> ('cb, 'c, 'r) LoadBalancer" where
  "buildL4Pools W cfg s = l4Pools_loop W cfg (cfListeners cfg) ([], s)"

definition reloadConfig_unsafe ::
  "('cb, 'c, 'r) world \<Rightarrow> nat \<Rightarrow> ('cb, 'c, 'r) LoadBalancer \<Rightarrow> ('cb, 'c, 'r) LoadBalancer" where
  "reloadConfig_unsafe W ref s =
     (let cfg = cfgHeap s ! ref;
          (newRoutes, s) = buildL7Routes W cfg s;
          (newL4Pools, s) = buildL4Pools W cfg s
      in s\<lparr>lbCfg := ref, lbRoutes := newRoutes, lbL4Pools := newL4Pools\<rparr>)"

text \<open>A configuration freshly loaded, and then put in force.\<close>

definition ReloadConfig ::
  "('cb, 'c, 'r) world \<Rightarrow> Config \<Rightarrow> ('cb, 'c, 'r) LoadBalancer \<Rightarrow> ('cb, 'c, 'r) LoadBalancer" where
  "ReloadConfig W cfg s =
     reloadConfig_unsafe W (length (cfgHeap s)) (s\<lparr>cfgHeap := cfgHeap s @ [cfg]\<rparr>)"

text \<open>Only the first http or https listener sets up the limiter and the cache.\<close>

definition initialLimiter :: "('cb, 'c, 'r) world \<Rightarrow> Config \<Rightarrow> ListenerConfig \<Rightarrow> go_int option" where
  "initialLimiter W cfg l =
     (case lcRateLimit l of
        Some rl \<Rightarrow> if rlEnabled rl then NewRateLimiter (wPing W) (Some rl) (cfRedis cfg) else None
      | None \<Rightarrow> None)"

definition initialCache :: "('cb, 'c, 'r) world \<Rightarrow> ListenerConfig \<Rightarrow> 'c option" where
  "initialCache W l =
     (case lcCache l of
        Some c \<Rightarrow> if caEnabled c
                  then Some (cacheNew (wCache W) (caDefaultExpiration c) (caCleanupInterval c)) else None
      | None \<Rightarrow> None)"

definition NewLoadBalancer :: "('cb, 'c, 'r) world \<Rightarrow> Config \<Rightarrow> 'r \<Rightarrow> ('cb, 'c, 'r) LoadBalancer" where
  "NewLoadBalancer W cfg redis =
     (let first = find isL7 (cfListeners cfg);
          s = \<lparr>cfgHeap = [cfg], poolHeap = [], healthLoops = [], lbCfg = 0, lbRoutes = [], lbL4Pools = [],
               lbRl = Option.bind first (initialLimiter W cfg),
               lbCache = Option.bind first (initialCache W),
               lbRedis = redis\<rparr>;
          (routes, s) = buildL7Routes W cfg s;
          (l4Pools, s) = buildL4Pools W cfg s
      in s\<lparr>lbRoutes := routes, lbL4Pools := l4Pools, lbCfg := 0\<rparr>)"

subsection \<open>ServeHTTP\<close>

text \<open>
  The arguments \<open>reqIDBytes\<close> (what \<open>rand.Read\<close> gave) and \<open>net\<close> (what each backend would answer)
  are the inputs of the call from outside.
\<close>

definition limit ::
  "('cb, 'c, 'r) world \<Rightarrow> string \<Rightarrow> ('cb, 'c, 'r) LoadBalancer \<Rightarrow> ('cb, 'c, 'r) LoadBalancer \<times> bool" where
  "limit W clientIP s =
     (case lbRl s of
        None \<Rightarrow> (s, True)
      | Some l \<Rightarrow> (case Allow (wRedis W) l clientIP (lbRedis s) of (r, ok) \<Rightarrow> (s\<lparr>lbRedis := r\<rparr>, ok)))"

definition serveRoute ::
  "('cb, 'c, 'r) world \<Rightarrow> (nat \<Rightarrow> roundTrip) \<Rightarrow> Request \<Rightarrow> Route \<Rightarrow> ResponseWriter
     \<Rightarrow> ('cb, 'c, 'r) LoadBalancer \<Rightarrow> ('cb, 'c, 'r) LoadBalancer \<times> ResponseWriter" where
  "serveRoute W net r rt w s =
     (case l7Handler (wBreaker W) (wCache W) net r (lbCache s) (poolHeap s ! rtPool rt) w of
        (cache, pool, w) \<Rightarrow> (s\<lparr>lbCache := cache, poolHeap := (poolHeap s)[rtPool rt := pool]\<rparr>, w))"

definition withRequestID :: "u8 list \<Rightarrow> ResponseWriter \<Rightarrow> ResponseWriter" where
  "withRequestID reqIDBytes w =
     w\<lparr>rwHeader := hdrSet (rwHeader w) ''X-Request-ID'' (hexEncode reqIDBytes)\<rparr>"

definition ServeHTTP ::
  "('cb, 'c, 'r) world \<Rightarrow> u8 list \<Rightarrow> (nat \<Rightarrow> roundTrip) \<Rightarrow> Request \<Rightarrow> ResponseWriter
     \<Rightarrow> ('cb, 'c, 'r) LoadBalancer \<Rightarrow> ('cb, 'c, 'r) LoadBalancer \<times> ResponseWriter" where
  "ServeHTTP W reqIDBytes net r w s =
     (let clientIP = splitHost (rqRemoteAddr r);
          w = withRequestID reqIDBytes w;
          (s, allowed) = limit W clientIP s
      in if \<not> allowed then (s, httpError ''429 Too Many Requests'' 429 w)
         else case firstMatch r (lbRoutes s) of
                None \<Rightarrow> (s, httpError ''404 page not found'' 404 w)
              | Some rt \<Rightarrow> serveRoute W net r rt w s)"

subsection \<open>What building computes\<close>

text \<open>\<open>grow\<close> allocates a list of pools, each with the flag that starts its health checks.\<close>

definition grow :: "('cb BackendPool \<times> bool) list \<Rightarrow> ('cb, 'c, 'r) LoadBalancer \<Rightarrow> ('cb, 'c, 'r) LoadBalancer" where
  "grow ps s = foldl (\<lambda>s (p, checks). newPool p checks s) s ps"

lemma grow_simps [simp]: "grow [] s = s" "grow ((p, c) # ps) s = grow ps (newPool p c s)"
  by (simp_all add: grow_def)

lemma grow_append: "grow (ps @ qs) s = grow qs (grow ps s)"
  by (simp add: grow_def)

lemma newPool_frame [frame]:
  "poolHeap (newPool p c s) = poolHeap s @ [p]" "cfgHeap (newPool p c s) = cfgHeap s"
  "lbCfg (newPool p c s) = lbCfg s" "lbRoutes (newPool p c s) = lbRoutes s"
  "lbL4Pools (newPool p c s) = lbL4Pools s" "lbRl (newPool p c s) = lbRl s"
  "lbCache (newPool p c s) = lbCache s" "lbRedis (newPool p c s) = lbRedis s"
  by (simp_all add: newPool_def)

lemma grow_frame [frame]:
  "poolHeap (grow ps s) = poolHeap s @ map fst ps" "cfgHeap (grow ps s) = cfgHeap s"
  "lbCfg (grow ps s) = lbCfg s" "lbRoutes (grow ps s) = lbRoutes s"
  "lbL4Pools (grow ps s) = lbL4Pools s" "lbRl (grow ps s) = lbRl s"
  "lbCache (grow ps s) = lbCache s" "lbRedis (grow ps s) = lbRedis s"
  by (induction ps arbitrary: s) (auto simp: newPool_frame)

lemma grow_loops:
  "i \<in> set (healthLoops (grow ps s)) \<longleftrightarrow>
     i \<in> set (healthLoops s) \<or>
     (\<exists>j<length ps. i = length (poolHeap s) + j \<and> snd (ps ! j) \<and> backends (fst (ps ! j)) \<noteq> [])"
proof (induction ps arbitrary: s)
  case (Cons e ps)
  obtain p c where e: "e = (p, c)" by fastforce
  show ?case
    unfolding e grow_simps Cons.IH
    by (auto simp: newPool_def Ex_less_Suc2 split: if_splits)
qed simp

definition l7Configs :: "Config \<Rightarrow> RouteConfig list" where
  "l7Configs cfg = concat (map lcRoutes (filter isL7 (cfListeners cfg)))"

definition l4Configs :: "Config \<Rightarrow> ListenerConfig list" where
  "l4Configs cfg = filter isL4 (cfListeners cfg)"

definition routesAt :: "nat \<Rightarrow> RouteConfig list \<Rightarrow> Route list" where
  "routesAt n rcs = map2 (\<lambda>ref rc. \<lparr>rtConfig = rc, rtPool = ref\<rparr>) [n..<n + length rcs] rcs"

definition l7Alloc :: "('cb, 'c, 'r) world \<Rightarrow> Config \<Rightarrow> nat \<Rightarrow> RouteConfig list \<Rightarrow> ('cb BackendPool \<times> bool) list" where
  "l7Alloc W cfg n rcs = map2 (\<lambda>ref rc. (l7Pool W cfg ref rc, True)) [n..<n + length rcs] rcs"

definition l4Alloc :: "('cb, 'c, 'r) world \<Rightarrow> Config \<Rightarrow> nat \<Rightarrow> ListenerConfig list \<Rightarrow> ('cb BackendPool \<times> bool) list" where
  "l4Alloc W cfg n ls = map2 (\<lambda>ref l. (l4Pool W cfg ref l, lcProtocol l = ''tcp'')) [n..<n + length ls] ls"

definition l4Names :: "nat \<Rightarrow> ListenerConfig list \<Rightarrow> (string \<times> nat) list \<Rightarrow> (string \<times> nat) list" where
  "l4Names n ls pools =
     foldl (\<lambda>m (ref, l). AList.update (lcName l) ref m) pools (zip [n..<n + length ls] ls)"

lemma upt_shift_Cons: "[n..<n + length (x # xs)] = n # [Suc n..<Suc n + length xs]"
  by (simp add: upt_conv_Cons del: upt_Suc)

lemma routesAt_simps [simp]:
  "routesAt n [] = []"
  "routesAt n (rc # rcs) = \<lparr>rtConfig = rc, rtPool = n\<rparr> # routesAt (Suc n) rcs"
  unfolding routesAt_def upt_shift_Cons by simp_all

lemma l7Alloc_simps [simp]:
  "l7Alloc W cfg n [] = []"
  "l7Alloc W cfg n (rc # rcs) = (l7Pool W cfg n rc, True) # l7Alloc W cfg (Suc n) rcs"
  unfolding l7Alloc_def upt_shift_Cons by simp_all

lemma l4Alloc_simps [simp]:
  "l4Alloc W cfg n [] = []"
  "l4Alloc W cfg n (l # ls) = (l4Pool W cfg n l, lcProtocol l = ''tcp'') # l4Alloc W cfg (Suc n) ls"
  unfolding l4Alloc_def upt_shift_Cons by simp_all

lemma l4Names_simps [simp]:
  "l4Names n [] m = m"
  "l4Names n (l # ls) m = l4Names (Suc n) ls (AList.update (lcName l) n m)"
  unfolding l4Names_def upt_shift_Cons by simp_all

lemma l7Routes_loop_eq:
  "l7Routes_loop W cfg rcs (routes, s) =
     (routes @ routesAt (length (poolHeap s)) rcs, grow (l7Alloc W cfg (length (poolHeap s)) rcs) s)"
  by (induction rcs arbitrary: routes s) (simp_all add: Let_def newPool_frame)

lemma l7Routes_loop_append: "l7Routes_loop W cfg (xs @ ys) a = l7Routes_loop W cfg ys (l7Routes_loop W cfg xs a)"
  by (induction xs arbitrary: a) (auto simp: Let_def split: prod.splits)

lemma l7Listeners_loop_eq:
  "l7Listeners_loop W cfg ls a = l7Routes_loop W cfg (concat (map lcRoutes (filter isL7 ls))) a"
  by (induction ls arbitrary: a) (auto simp: l7Routes_loop_append)

lemma l4Pools_loop_eq:
  "l4Pools_loop W cfg ls (pools, s) =
     (l4Names (length (poolHeap s)) (filter isL4 ls) pools,
      grow (l4Alloc W cfg (length (poolHeap s)) (filter isL4 ls)) s)"
  by (induction ls arbitrary: pools s) (simp_all add: Let_def newPool_frame)

lemma alloc_length [simp]:
  "length (routesAt n rcs) = length rcs" "length (l7Alloc W cfg n rcs) = length rcs"
  "length (l4Alloc W cfg n ls) = length ls"
  by (simp_all add: routesAt_def l7Alloc_def l4Alloc_def)

text \<open>Everything a build allocates, in one list.\<close>

definition allocated :: "('cb, 'c, 'r) world \<Rightarrow> Config \<Rightarrow> nat \<Rightarrow> ('cb BackendPool \<times> bool) list" where
  "allocated W cfg n =
     l7Alloc W cfg n (l7Configs cfg) @ l4Alloc W cfg (n + length (l7Configs cfg)) (l4Configs cfg)"

lemma reloadConfig_unsafe_eq:
  "reloadConfig_unsafe W ref s =
     (let cfg = cfgHeap s ! ref; n = length (poolHeap s) in
        (grow (allocated W cfg n) s)
          \<lparr>lbCfg := ref, lbRoutes := sortRoutes (wSort W) (routesAt n (l7Configs cfg)),
           lbL4Pools := l4Names (n + length (l7Configs cfg)) (l4Configs cfg) []\<rparr>)"
  by (simp add: reloadConfig_unsafe_def buildL7Routes_def buildL4Pools_def l7Listeners_loop_eq
      l7Routes_loop_eq l4Pools_loop_eq l7Configs_def l4Configs_def allocated_def grow_append Let_def
      grow_frame)

text \<open>The first construction is a reload of an empty balancer, with the limiter and the cache.\<close>

definition emptyBalancer :: "('cb, 'c, 'r) world \<Rightarrow> Config \<Rightarrow> 'r \<Rightarrow> ('cb, 'c, 'r) LoadBalancer" where
  "emptyBalancer W cfg redis =
     \<lparr>cfgHeap = [cfg], poolHeap = [], healthLoops = [], lbCfg = 0, lbRoutes = [], lbL4Pools = [],
      lbRl = Option.bind (find isL7 (cfListeners cfg)) (initialLimiter W cfg),
      lbCache = Option.bind (find isL7 (cfListeners cfg)) (initialCache W), lbRedis = redis\<rparr>"

lemma NewLoadBalancer_eq: "NewLoadBalancer W cfg redis = reloadConfig_unsafe W 0 (emptyBalancer W cfg redis)"
  by (simp add: NewLoadBalancer_def reloadConfig_unsafe_def emptyBalancer_def Let_def split: prod.splits)

subsection \<open>Coherence of the balancer with its configuration\<close>

text \<open>What of a pool no request and no health check changes.\<close>

definition shape :: "'cb BackendPool \<Rightarrow> string \<times> (string \<times> go_int) list" where
  "shape p = (strategy p, map (\<lambda>b. (Addr b, Weight b)) (backends p))"

definition coherent :: "('cb, 'c, 'r) world \<Rightarrow> ('cb, 'c, 'r) LoadBalancer \<Rightarrow> bool" where
  "coherent W s \<longleftrightarrow>
     lbCfg s < length (cfgHeap s) \<and>
     mset (map rtConfig (lbRoutes s)) = mset (l7Configs (cfgHeap s ! lbCfg s)) \<and>
     distinct (map rtPool (lbRoutes s)) \<and>
     (\<forall>rt\<in>set (lbRoutes s). rtPool rt < length (poolHeap s) \<and>
        shape (poolHeap s ! rtPool rt) = shape (l7Pool W (cfgHeap s ! lbCfg s) (rtPool rt) (rtConfig rt)))"

lemma routesAt_nth: "j < length rcs \<Longrightarrow> routesAt n rcs ! j = \<lparr>rtConfig = rcs ! j, rtPool = n + j\<rparr>"
  by (simp add: routesAt_def)

lemma map_routesAt [simp]: "map rtConfig (routesAt n rcs) = rcs" "map rtPool (routesAt n rcs) = [n..<n + length rcs]"
  by (rule nth_equalityI; simp add: routesAt_nth)+

lemma l7Alloc_nth: "j < length rcs \<Longrightarrow> l7Alloc W cfg n rcs ! j = (l7Pool W cfg (n + j) (rcs ! j), True)"
  by (simp add: l7Alloc_def)

lemma l4Alloc_nth:
  "j < length ls \<Longrightarrow> l4Alloc W cfg n ls ! j = (l4Pool W cfg (n + j) (ls ! j), lcProtocol (ls ! j) = ''tcp'')"
  by (simp add: l4Alloc_def)

lemma in_routesAt:
  "rt \<in> set (routesAt n rcs) \<longleftrightarrow> (\<exists>j<length rcs. rt = \<lparr>rtConfig = rcs ! j, rtPool = n + j\<rparr>)"
  by (auto simp: in_set_conv_nth routesAt_nth)

lemma sortRoutes_mset: "sort_contract pdq \<Longrightarrow> mset (sortRoutes pdq rts) = mset rts"
  using slice_sort.srt_mset [OF sortRoutes_slice_sort] .

text \<open>The pool of a route right after it was built.\<close>

lemma reload_pool:
  assumes "sort_contract (wSort W)" and "rt \<in> set (lbRoutes (reloadConfig_unsafe W ref s))"
  shows "length (poolHeap s) \<le> rtPool rt"
    and "rtPool rt < length (poolHeap (reloadConfig_unsafe W ref s))"
    and "poolHeap (reloadConfig_unsafe W ref s) ! rtPool rt = l7Pool W (cfgHeap s ! ref) (rtPool rt) (rtConfig rt)"
proof -
  let ?rcs = "l7Configs (cfgHeap s ! ref)" and ?n = "length (poolHeap s)"
  have "rt \<in> set (routesAt ?n ?rcs)"
    using assms(2) sortRoutes_mset [OF assms(1), THEN mset_eq_setD]
    by (simp add: reloadConfig_unsafe_eq Let_def)
  then obtain j where j: "j < length ?rcs" and rt: "rt = \<lparr>rtConfig = ?rcs ! j, rtPool = ?n + j\<rparr>"
    by (auto simp: in_routesAt)
  then show "length (poolHeap s) \<le> rtPool rt" by simp
  from j rt show "rtPool rt < length (poolHeap (reloadConfig_unsafe W ref s))"
    by (simp add: reloadConfig_unsafe_eq Let_def grow_frame allocated_def)
  from j rt show "poolHeap (reloadConfig_unsafe W ref s) ! rtPool rt
      = l7Pool W (cfgHeap s ! ref) (rtPool rt) (rtConfig rt)"
    by (simp add: reloadConfig_unsafe_eq Let_def grow_frame allocated_def nth_append l7Alloc_nth)
qed

lemma reload_frame [frame]:
  "cfgHeap (reloadConfig_unsafe W ref s) = cfgHeap s" "lbCfg (reloadConfig_unsafe W ref s) = ref"
  "lbRl (reloadConfig_unsafe W ref s) = lbRl s" "lbCache (reloadConfig_unsafe W ref s) = lbCache s"
  "lbRedis (reloadConfig_unsafe W ref s) = lbRedis s"
  "poolHeap (reloadConfig_unsafe W ref s) =
     poolHeap s @ map fst (allocated W (cfgHeap s ! ref) (length (poolHeap s)))"
  by (simp_all add: reloadConfig_unsafe_eq Let_def grow_frame)

lemma reload_coherent:
  assumes "sort_contract (wSort W)" and "ref < length (cfgHeap s)"
  shows "coherent W (reloadConfig_unsafe W ref s)"
proof -
  let ?s = "reloadConfig_unsafe W ref s" and ?rts = "routesAt (length (poolHeap s)) (l7Configs (cfgHeap s ! ref))"
  have m: "mset (lbRoutes ?s) = mset ?rts"
    by (simp add: reloadConfig_unsafe_eq Let_def sortRoutes_mset assms(1))
  have "mset (map rtConfig (lbRoutes ?s)) = mset (map rtConfig ?rts)" "mset (map rtPool (lbRoutes ?s)) = mset (map rtPool ?rts)"
    unfolding mset_map m by simp_all
  moreover from this(2) have "distinct (map rtPool (lbRoutes ?s))"
    using mset_eq_imp_distinct_iff by (metis distinct_upt map_routesAt(2))
  ultimately show ?thesis
    using assms reload_pool [OF assms(1), of _ ref s]
    by (simp add: coherent_def reload_frame(1,2))
qed

lemma NewLoadBalancer_coherent: "sort_contract (wSort W) \<Longrightarrow> coherent W (NewLoadBalancer W cfg redis)"
  unfolding NewLoadBalancer_eq by (rule reload_coherent) (simp_all add: emptyBalancer_def)

lemma ReloadConfig_coherent: "sort_contract (wSort W) \<Longrightarrow> coherent W (ReloadConfig W cfg s)"
  unfolding ReloadConfig_def by (rule reload_coherent) simp_all

subsection \<open>What a request changes\<close>

lemma stat_shape:
  fixes p q :: "'cb BackendPool"
  shows "stat p = stat q \<Longrightarrow> shape p = shape q"
proof -
  have proj: "map (\<lambda>b. (Addr b, Weight b)) bs
      = map (\<lambda>(a, _, w, _). (a, w)) (map (\<lambda>b. (Addr b, healthy b, Weight b, connections b)) bs)"
    for bs :: "'cb Backend list"
    by simp
  show "stat p = stat q \<Longrightarrow> ?thesis" unfolding shape_def stat_def proj by simp
qed

lemma limit_frame [frame]:
  "poolHeap (fst (limit W ip s)) = poolHeap s" "cfgHeap (fst (limit W ip s)) = cfgHeap s"
  "lbCfg (fst (limit W ip s)) = lbCfg s" "lbRoutes (fst (limit W ip s)) = lbRoutes s"
  "lbL4Pools (fst (limit W ip s)) = lbL4Pools s" "lbRl (fst (limit W ip s)) = lbRl s"
  "lbCache (fst (limit W ip s)) = lbCache s" "healthLoops (fst (limit W ip s)) = healthLoops s"
  by (auto simp: limit_def split: option.splits prod.splits)

lemma serveRoute_frame [frame]:
  "cfgHeap (fst (serveRoute W net r rt w s)) = cfgHeap s"
  "lbCfg (fst (serveRoute W net r rt w s)) = lbCfg s" "lbRoutes (fst (serveRoute W net r rt w s)) = lbRoutes s"
  "lbL4Pools (fst (serveRoute W net r rt w s)) = lbL4Pools s" "lbRl (fst (serveRoute W net r rt w s)) = lbRl s"
  "healthLoops (fst (serveRoute W net r rt w s)) = healthLoops s"
  by (auto simp: serveRoute_def split: prod.splits)

lemma serveRoute_stat: "map stat (poolHeap (fst (serveRoute W net r rt w s))) = map stat (poolHeap s)"
proof -
  let ?pool = "fst (snd (l7Handler (wBreaker W) (wCache W) net r (lbCache s) (poolHeap s ! rtPool rt) w))"
  have "poolHeap (fst (serveRoute W net r rt w s)) = (poolHeap s)[rtPool rt := ?pool]"
    by (auto simp: serveRoute_def split: prod.splits)
  then show ?thesis by (simp add: map_list_update_same l7Handler_stat)
qed

lemma ServeHTTP_cases:
  obtains (denied) "ServeHTTP W ids net r w s =
      (fst (limit W (splitHost (rqRemoteAddr r)) s), httpError ''429 Too Many Requests'' 429 (withRequestID ids w))"
    "\<not> snd (limit W (splitHost (rqRemoteAddr r)) s)"
  | (noRoute) "ServeHTTP W ids net r w s =
      (fst (limit W (splitHost (rqRemoteAddr r)) s), httpError ''404 page not found'' 404 (withRequestID ids w))"
    "snd (limit W (splitHost (rqRemoteAddr r)) s)" "firstMatch r (lbRoutes s) = None"
  | (route) rt where "ServeHTTP W ids net r w s =
      serveRoute W net r rt (withRequestID ids w) (fst (limit W (splitHost (rqRemoteAddr r)) s))"
    "snd (limit W (splitHost (rqRemoteAddr r)) s)" "firstMatch r (lbRoutes s) = Some rt"
proof -
  obtain s1 ok where l: "limit W (splitHost (rqRemoteAddr r)) s = (s1, ok)" by fastforce
  then have r: "lbRoutes s1 = lbRoutes s" using limit_frame(4) [of W _ s] by (metis fst_conv)
  note eq = ServeHTTP_def [of W ids net r w s] Let_def l r
  show thesis
  proof (cases ok)
    case False
    then show thesis by (intro denied) (simp_all add: eq)
  next
    case True
    then show thesis
      by (cases "firstMatch r (lbRoutes s)") (auto simp: eq intro: noRoute route)
  qed
qed

lemma ServeHTTP_frame [frame]:
  "cfgHeap (fst (ServeHTTP W ids net r w s)) = cfgHeap s"
  "lbCfg (fst (ServeHTTP W ids net r w s)) = lbCfg s"
  "lbRoutes (fst (ServeHTTP W ids net r w s)) = lbRoutes s"
  "lbL4Pools (fst (ServeHTTP W ids net r w s)) = lbL4Pools s"
  "lbRl (fst (ServeHTTP W ids net r w s)) = lbRl s"
  "healthLoops (fst (ServeHTTP W ids net r w s)) = healthLoops s"
  by (cases rule: ServeHTTP_cases [of W ids net r w s]; simp add: limit_frame serveRoute_frame)+

lemma ServeHTTP_stat [frame]: "map stat (poolHeap (fst (ServeHTTP W ids net r w s))) = map stat (poolHeap s)"
  by (cases rule: ServeHTTP_cases [of W ids net r w s]) (simp_all add: limit_frame serveRoute_stat)

lemma coherent_cong:
  assumes "coherent W s" and "cfgHeap s' = cfgHeap s" and "lbCfg s' = lbCfg s" and "lbRoutes s' = lbRoutes s"
    and "map shape (poolHeap s') = map shape (poolHeap s)"
  shows "coherent W s'"
proof -
  have "length (poolHeap s') = length (poolHeap s)" using assms(5) map_eq_imp_length_eq by blast
  with assms(1) show ?thesis
    using map_eq_nth [OF assms(5)] by (simp add: coherent_def assms(2-4))
qed

lemma map_stat_shape:
  fixes ps qs :: "'cb BackendPool list"
  assumes "map stat ps = map stat qs"
  shows "map shape ps = map shape qs"
  by (rule nth_equalityI)
    (use map_eq_imp_length_eq [OF assms] map_eq_nth [OF assms, THEN stat_shape] in simp_all)

lemma ServeHTTP_coherent: "coherent W s \<Longrightarrow> coherent W (fst (ServeHTTP W ids net r w s))"
  by (erule coherent_cong) (simp_all only: ServeHTTP_frame map_stat_shape [OF ServeHTTP_stat])

subsection \<open>Concrete values to evaluate on\<close>

definition sampleWorld :: "(cb_state, tableCache_state, string \<Rightarrow> int \<times> duration) world" where
  "sampleWorld =
     \<lparr>wBreaker = simpleBreaker, wCache = tableCache, wRedis = tableRedis, wPing = (\<lambda>_. True),
      wUrlParse = Some, wMapOrder = (\<lambda>_ ks. ks), wSort = insertionSort\<rparr>"

lemma sampleWorld_sel [simp]:
  "wBreaker sampleWorld = simpleBreaker" "wCache sampleWorld = tableCache" "wRedis sampleWorld = tableRedis"
  "wPing sampleWorld = (\<lambda>_. True)" "wUrlParse sampleWorld = Some" "wMapOrder sampleWorld = (\<lambda>_ ks. ks)"
  "wSort sampleWorld = insertionSort" "sort_contract (wSort sampleWorld)"
  by (simp_all add: sampleWorld_def insertionSort_contract)

definition sampleRC :: "string \<Rightarrow> BackendConfig list \<Rightarrow> RouteConfig" where
  "sampleRC path bs =
     \<lparr>rcHost = [], rcPath = path, rcHeaders = [], rcStrategy = ''round-robin'', rcBackends = bs\<rparr>"

definition sampleListener :: "string \<Rightarrow> string \<Rightarrow> RouteConfig list \<Rightarrow> BackendConfig list \<Rightarrow> ListenerConfig" where
  "sampleListener name proto rcs bs =
     \<lparr>lcName = name, lcProtocol = proto, lcListenAddr = '':80'', lcTLS = None, lcAutocert = None,
      lcRateLimit = None, lcCache = None, lcRoutes = rcs, lcStrategy = ''round-robin'', lcBackends = bs\<rparr>"

definition sampleConfig :: "ListenerConfig list \<Rightarrow> Config" where
  "sampleConfig ls =
     \<lparr>cfListeners = ls, cfMetricsAddr = [], cfAdminAddr = '':9000'', cfAdminToken = ''secret'',
      cfCircuitBreaker = None, cfConnectionPool = None, cfRedis = None\<rparr>"

lemma sample_sel [simp]:
  "rcHost (sampleRC path bs) = []" "rcPath (sampleRC path bs) = path" "rcHeaders (sampleRC path bs) = []"
  "rcBackends (sampleRC path bs) = bs" "rcStrategy (sampleRC path bs) = ''round-robin''"
  "lcName (sampleListener n p rcs bs) = n"
  "lcProtocol (sampleListener n p rcs bs) = p" "lcRoutes (sampleListener n p rcs bs) = rcs"
  "lcRateLimit (sampleListener n p rcs bs) = None" "lcCache (sampleListener n p rcs bs) = None"
  "lcBackends (sampleListener n p rcs bs) = bs"
  "cfListeners (sampleConfig ls) = ls" "cfAdminToken (sampleConfig ls) = ''secret''"
  by (simp_all add: sampleRC_def sampleListener_def sampleConfig_def)

text \<open>A balancer with one route and one backend, as it is when it has just been built.\<close>

definition sampleLB :: "(cb_state, tableCache_state, string \<Rightarrow> int \<times> duration) LoadBalancer" where
  "sampleLB =
     NewLoadBalancer sampleWorld
       (sampleConfig [sampleListener ''web'' ''http'' [sampleRC ''/'' [\<lparr>bcAddr = ''a'', bcWeight = 1\<rparr>]] []])
       (\<lambda>_. (0, 0))"

lemma sampleLB_sel:
  "cfgHeap sampleLB = [sampleConfig [sampleListener ''web'' ''http'' [sampleRC ''/'' [\<lparr>bcAddr = ''a'', bcWeight = 1\<rparr>]] []]]"
  "lbRoutes sampleLB = [\<lparr>rtConfig = sampleRC ''/'' [\<lparr>bcAddr = ''a'', bcWeight = 1\<rparr>], rtPool = 0\<rparr>]"
  "lbCfg sampleLB = 0" "lbRl sampleLB = None" "lbCache sampleLB = None"
  by (simp_all add: sampleLB_def NewLoadBalancer_eq reloadConfig_unsafe_eq Let_def grow_frame emptyBalancer_def
      initialLimiter_def initialCache_def isL7_def l7Configs_def sortRoutes_def sortSlice_def insertionSort_def)

subsection \<open>Properties\<close>

text \<open>
  A request over the limit is answered with 429, before any route is looked at: no backend is
  chosen, and neither a pool nor the cache changes.
\<close>

theorem limited_request:
  assumes "lbRl s = Some l" and "\<not> snd (Allow (wRedis W) l (splitHost (rqRemoteAddr r)) (lbRedis s))"
    and "rwSent w = None"
  shows "case ServeHTTP W ids net r w s of (s', w') \<Rightarrow>
    sentStatus w' = 429 \<and> poolHeap s' = poolHeap s \<and> lbCache s' = lbCache s"
proof -
  have "rwSent (withRequestID ids w) = None" using assms(3) by (simp add: withRequestID_def)
  with assms(1,2) show ?thesis
    by (simp add: ServeHTTP_def limit_def split_beta httpError_status)
qed

theorem limited_request_witness:
  "sentStatus (snd (ServeHTTP sampleWorld [] (\<lambda>_. RtResponse 200 [] []) (sampleGet ''h'' ''/p'' []) newWriter
     (sampleLB\<lparr>lbRl := Some 0, lbRedis := (\<lambda>_. (0, 0))\<rparr>))) = 429"
  using limited_request [of "sampleLB\<lparr>lbRl := Some 0, lbRedis := (\<lambda>_. (0, 0))\<rparr>" 0 sampleWorld
      "sampleGet ''h'' ''/p'' []" newWriter "[]" "\<lambda>_. RtResponse 200 [] []"]
  by (simp add: split_beta Allow_def tableRedis_def word_sless_iff_sint)

text \<open>
  An answer from the cache carries two request identifiers: the one of the request itself and
  the one of the request whose answer was stored, since the stored header is added to the
  header that \<open>ServeHTTP\<close> has already set.
\<close>

theorem cached_request_id:
  assumes "lbRl s = None" and "lbCache s = Some c" and "rqMethod r = ''GET''"
    and "cacheGet (wCache W) c (rqHost r @ rqPath r) = Some item"
    and "canonicalHeader (ciHeader item)" and "hdrValues (ciHeader item) ''X-Request-ID'' = [old]"
    and "firstMatch r (lbRoutes s) = Some rt" and "rwSent w = None"
  shows "hdrValues (sentHeader (snd (ServeHTTP W ids net r w s))) ''X-Request-ID'' = [hexEncode ids, old]"
proof -
  let ?w = "withRequestID ids w"
  have "rwSent ?w = None" using assms(8) by (simp add: withRequestID_def)
  from replay_sends [OF this, of item]
  have "hdrValues (sentHeader (replay item ?w)) ''X-Request-ID'' = [hexEncode ids, old]"
    by (simp add: hdrValues_addAll [OF assms(5)] assms(6) withRequestID_def)
  moreover have "snd (ServeHTTP W ids net r w s) = replay item ?w"
    using assms(1-4,7) by (simp add: ServeHTTP_def limit_def serveRoute_def l7Handler_def cacheLookup_def cacheKey_def)
  ultimately show ?thesis by simp
qed

theorem cached_request_id_witness:
  "hdrValues (sentHeader (snd (ServeHTTP sampleWorld [255] (\<lambda>_. RtError []) (sampleGet ''h'' ''/p'' []) newWriter
     (sampleLB\<lparr>lbCache := Some (0, [''h/p'' \<mapsto> (\<lparr>ciStatus = 200, ciHeader = [(''X-Request-Id'', [''00''])], ciBody = []\<rparr>, 0)])\<rparr>))))
   ''X-Request-ID'' = [''ff'', ''00'']"
proof -
  have "CanonicalKey ''X-Request-Id'' = ''X-Request-Id''" "CanonicalKey ''X-Request-ID'' = ''X-Request-Id''"
    by code_simp+
  moreover have "hexEncode [255] = ''ff''" by code_simp
  ultimately show ?thesis
    using cached_request_id [of "sampleLB\<lparr>lbCache := Some (0, [''h/p'' \<mapsto>
          (\<lparr>ciStatus = 200, ciHeader = [(''X-Request-Id'', [''00''])], ciBody = []\<rparr>, 0)])\<rparr>"
        "(0, [''h/p'' \<mapsto> (\<lparr>ciStatus = 200, ciHeader = [(''X-Request-Id'', [''00''])], ciBody = []\<rparr>, 0)])"
        "sampleGet ''h'' ''/p'' []" sampleWorld _ "''00''" _ newWriter "[255]" "\<lambda>_. RtError []"]
    by (simp add: sampleLB_sel tableCache_def canonicalHeader_def hdrValues_def Matches_iff)
qed

end
