(* ===== verification/AdminOps.thy ===== *)
theory AdminOps
  imports LoadBalancer
begin

text \<open>
  The operations by which the admin API edits the configuration that is in force (the second
  half of \<open>internal/lb/loadbalancer.go\<close>): \<open>getRouteByIndex\<close>, \<open>AddRoute\<close>, \<open>DeleteRoute\<close>,
  \<open>AddBackendToRoute\<close>, \<open>DeleteBackendFromRoute\<close> and \<open>UpdateBackendWeightInRoute\<close>.

  Each takes a pointer to a listener (a configuration and a position in it), writes through it
  into the configuration heap, and rebuilds everything from \<open>lb.cfg\<close>, which need not be the
  configuration the listener belongs to.  A result is \<open>Inl\<close> the error or \<open>Inr\<close> the new state.

  Their common contract is the locale \<open>route_editor\<close>: an operation is an edit of the
  listener's list of routes, followed by one rebuild.  All five interpret it.
\<close>

type_synonym listener_ref = "nat \<times> nat"

datatype admin_error =
    RouteOutOfBounds int
  | RouteExists string string
  | BackendExists string int
  | BackendNotFound string int
  | WeightNotPositive

subsection \<open>Pointers to listeners\<close>

definition validRef :: "listener_ref \<Rightarrow> ('cb, 'c, 'r) LoadBalancer \<Rightarrow> bool" where
  "validRef lp s \<longleftrightarrow> fst lp < length (cfgHeap s) \<and> snd lp < length (cfListeners (cfgHeap s ! fst lp))"

definition listenerAt :: "listener_ref \<Rightarrow> ('cb, 'c, 'r) LoadBalancer \<Rightarrow> ListenerConfig" where
  "listenerAt lp s = cfListeners (cfgHeap s ! fst lp) ! snd lp"

text \<open>The assignment \<open>listener.Routes = rs\<close>.\<close>

definition setRoutes ::
  "listener_ref \<Rightarrow> RouteConfig list \<Rightarrow> ('cb, 'c, 'r) LoadBalancer \<Rightarrow> ('cb, 'c, 'r) LoadBalancer" where
  "setRoutes lp rs s =
     (let cfg = cfgHeap s ! fst lp in
        s\<lparr>cfgHeap := (cfgHeap s)[fst lp :=
            cfg\<lparr>cfListeners := (cfListeners cfg)[snd lp := (listenerAt lp s)\<lparr>lcRoutes := rs\<rparr>]\<rparr>]\<rparr>)"

text \<open>A write through the pointer to the \<open>index\<close>-th route of a listener.\<close>

definition setBackends ::
  "listener_ref \<Rightarrow> int \<Rightarrow> BackendConfig list \<Rightarrow> ('cb, 'c, 'r) LoadBalancer \<Rightarrow> ('cb, 'c, 'r) LoadBalancer" where
  "setBackends lp index bs s =
     (let rs = lcRoutes (listenerAt lp s)
      in setRoutes lp (rs[nat index := (rs ! nat index)\<lparr>rcBackends := bs\<rparr>]) s)"

subsection \<open>The operations\<close>

definition getRouteByIndex :: "ListenerConfig \<Rightarrow> int \<Rightarrow> admin_error + RouteConfig" where
  "getRouteByIndex listener index =
     (if index < 0 \<or> int (length (lcRoutes listener)) \<le> index then Inl (RouteOutOfBounds index)
      else Inr (lcRoutes listener ! nat index))"

fun routeExists :: "RouteConfig \<Rightarrow> RouteConfig list \<Rightarrow> bool" where
  "routeExists newRoute [] = False"
| "routeExists newRoute (route # rs) =
     (if rcPath route = rcPath newRoute \<and> rcHost route = rcHost newRoute then True
      else routeExists newRoute rs)"

definition AddRoute ::
  "('cb, 'c, 'r) world \<Rightarrow> RouteConfig \<Rightarrow> listener_ref \<Rightarrow> ('cb, 'c, 'r) LoadBalancer
     \<Rightarrow> admin_error + ('cb, 'c, 'r) LoadBalancer" where
  "AddRoute W newRoute lp s =
     (if routeExists newRoute (lcRoutes (listenerAt lp s))
      then Inl (RouteExists (rcPath newRoute) (rcHost newRoute))
      else
        (let s = setRoutes lp (lcRoutes (listenerAt lp s) @ [newRoute]) s
         in Inr (reloadConfig_unsafe W (lbCfg s) s)))"

definition DeleteRoute ::
  "('cb, 'c, 'r) world \<Rightarrow> int \<Rightarrow> listener_ref \<Rightarrow> ('cb, 'c, 'r) LoadBalancer
     \<Rightarrow> admin_error + ('cb, 'c, 'r) LoadBalancer" where
  "DeleteRoute W index lp s =
     (case getRouteByIndex (listenerAt lp s) index of
        Inl e \<Rightarrow> Inl e
      | Inr _ \<Rightarrow>
          (let rs = lcRoutes (listenerAt lp s);
               s = setRoutes lp (take (nat index) rs @ drop (Suc (nat index)) rs) s
           in Inr (reloadConfig_unsafe W (lbCfg s) s)))"

fun backendExists :: "string \<Rightarrow> BackendConfig list \<Rightarrow> bool" where
  "backendExists addr [] = False"
| "backendExists addr (be # bs) = (if bcAddr be = addr then True else backendExists addr bs)"

text \<open>The weight 0 of a new backend becomes 1; the caller sees that through its pointer.\<close>

definition defaultWeight :: "BackendConfig \<Rightarrow> BackendConfig" where
  "defaultWeight be = (if bcWeight be = 0 then be\<lparr>bcWeight := 1\<rparr> else be)"

definition AddBackendToRoute ::
  "('cb, 'c, 'r) world \<Rightarrow> int \<Rightarrow> BackendConfig \<Rightarrow> listener_ref \<Rightarrow> ('cb, 'c, 'r) LoadBalancer
     \<Rightarrow> admin_error + ('cb, 'c, 'r) LoadBalancer" where
  "AddBackendToRoute W index newBackend lp s =
     (case getRouteByIndex (listenerAt lp s) index of
        Inl e \<Rightarrow> Inl e
      | Inr route \<Rightarrow>
          if backendExists (bcAddr newBackend) (rcBackends route)
          then Inl (BackendExists (bcAddr newBackend) index)
          else
            (let newBackend = defaultWeight newBackend;
                 s = setBackends lp index (rcBackends route @ [newBackend]) s
             in Inr (reloadConfig_unsafe W (lbCfg s) s)))"

fun removeBackend :: "string \<Rightarrow> BackendConfig list \<Rightarrow> bool \<Rightarrow> BackendConfig list \<Rightarrow> bool \<times> BackendConfig list" where
  "removeBackend host [] found newBackends = (found, newBackends)"
| "removeBackend host (be # bs) found newBackends =
     (if bcAddr be = host then removeBackend host bs True newBackends
      else removeBackend host bs found (newBackends @ [be]))"

definition DeleteBackendFromRoute ::
  "('cb, 'c, 'r) world \<Rightarrow> int \<Rightarrow> string \<Rightarrow> listener_ref \<Rightarrow> ('cb, 'c, 'r) LoadBalancer
     \<Rightarrow> admin_error + ('cb, 'c, 'r) LoadBalancer" where
  "DeleteBackendFromRoute W index host lp s =
     (case getRouteByIndex (listenerAt lp s) index of
        Inl e \<Rightarrow> Inl e
      | Inr route \<Rightarrow>
          (case removeBackend host (rcBackends route) False [] of
             (found, newBackends) \<Rightarrow>
               if \<not> found then Inl (BackendNotFound host index)
               else (let s = setBackends lp index newBackends s
                     in Inr (reloadConfig_unsafe W (lbCfg s) s))))"

text \<open>The loop writes the weight through the first matching pointer and stops.\<close>

fun reweigh :: "string \<Rightarrow> go_int \<Rightarrow> BackendConfig list \<Rightarrow> bool \<times> BackendConfig list" where
  "reweigh host weight [] = (False, [])"
| "reweigh host weight (be # bs) =
     (if bcAddr be = host then (True, be\<lparr>bcWeight := weight\<rparr> # bs)
      else case reweigh host weight bs of (found, bs') \<Rightarrow> (found, be # bs'))"

definition UpdateBackendWeightInRoute ::
  "('cb, 'c, 'r) world \<Rightarrow> int \<Rightarrow> string \<Rightarrow> go_int \<Rightarrow> listener_ref \<Rightarrow> ('cb, 'c, 'r) LoadBalancer
     \<Rightarrow> admin_error + ('cb, 'c, 'r) LoadBalancer" where
  "UpdateBackendWeightInRoute W index host weight lp s =
     (case getRouteByIndex (listenerAt lp s) index of
        Inl e \<Rightarrow> Inl e
      | Inr route \<Rightarrow>
          if sint weight \<le> 0 then Inl WeightNotPositive
          else
            (case reweigh host weight (rcBackends route) of
               (found, bs) \<Rightarrow>
                 if \<not> found then Inl (BackendNotFound host index)
                 else (let s = setBackends lp index bs s
                       in Inr (reloadConfig_unsafe W (lbCfg s) s))))"

subsection \<open>The abstract edits\<close>

text \<open>What the operations are on the list of routes alone.\<close>

definition editRoute ::
  "int \<Rightarrow> (BackendConfig list \<Rightarrow> admin_error + BackendConfig list) \<Rightarrow> RouteConfig list
     \<Rightarrow> admin_error + RouteConfig list" where
  "editRoute index f rs =
     (if index < 0 \<or> int (length rs) \<le> index then Inl (RouteOutOfBounds index)
      else case f (rcBackends (rs ! nat index)) of
             Inl e \<Rightarrow> Inl e
           | Inr bs \<Rightarrow> Inr (rs[nat index := (rs ! nat index)\<lparr>rcBackends := bs\<rparr>]))"

definition addRouteEdit :: "RouteConfig \<Rightarrow> RouteConfig list \<Rightarrow> admin_error + RouteConfig list" where
  "addRouteEdit r rs =
     (if (rcPath r, rcHost r) \<in> (\<lambda>r. (rcPath r, rcHost r)) ` set rs
      then Inl (RouteExists (rcPath r) (rcHost r)) else Inr (rs @ [r]))"

definition deleteRouteEdit :: "int \<Rightarrow> RouteConfig list \<Rightarrow> admin_error + RouteConfig list" where
  "deleteRouteEdit index rs =
     (if index < 0 \<or> int (length rs) \<le> index then Inl (RouteOutOfBounds index)
      else Inr (nths rs (- {nat index})))"

definition addBackendEdit :: "int \<Rightarrow> BackendConfig \<Rightarrow> BackendConfig list \<Rightarrow> admin_error + BackendConfig list" where
  "addBackendEdit index b bs =
     (if bcAddr b \<in> bcAddr ` set bs then Inl (BackendExists (bcAddr b) index)
      else Inr (bs @ [defaultWeight b]))"

definition deleteBackendEdit :: "int \<Rightarrow> string \<Rightarrow> BackendConfig list \<Rightarrow> admin_error + BackendConfig list" where
  "deleteBackendEdit index host bs =
     (if host \<in> bcAddr ` set bs then Inr (filter (\<lambda>b. bcAddr b \<noteq> host) bs)
      else Inl (BackendNotFound host index))"

definition updateWeightEdit :: "int \<Rightarrow> string \<Rightarrow> go_int \<Rightarrow> BackendConfig list \<Rightarrow> admin_error + BackendConfig list" where
  "updateWeightEdit index host weight bs =
     (if sint weight \<le> 0 then Inl WeightNotPositive
      else if host \<notin> bcAddr ` set bs then Inl (BackendNotFound host index)
      else Inr (takeWhile (\<lambda>b. bcAddr b \<noteq> host) bs
             @ (hd (dropWhile (\<lambda>b. bcAddr b \<noteq> host) bs))\<lparr>bcWeight := weight\<rparr>
             # tl (dropWhile (\<lambda>b. bcAddr b \<noteq> host) bs)))"

subsection \<open>The loops\<close>

lemma routeExists_iff:
  "routeExists r rs \<longleftrightarrow> (rcPath r, rcHost r) \<in> (\<lambda>r. (rcPath r, rcHost r)) ` set rs"
  by (induction r rs rule: routeExists.induct) auto

lemma backendExists_iff: "backendExists a bs \<longleftrightarrow> a \<in> bcAddr ` set bs"
  by (induction a bs rule: backendExists.induct) auto

lemma removeBackend_eq:
  "removeBackend host bs found acc =
     (found \<or> host \<in> bcAddr ` set bs, acc @ filter (\<lambda>b. bcAddr b \<noteq> host) bs)"
  by (induction host bs found acc rule: removeBackend.induct) auto

lemma reweigh_eq:
  "reweigh host weight bs =
     (if host \<in> bcAddr ` set bs
      then (True, takeWhile (\<lambda>b. bcAddr b \<noteq> host) bs
             @ (hd (dropWhile (\<lambda>b. bcAddr b \<noteq> host) bs))\<lparr>bcWeight := weight\<rparr>
             # tl (dropWhile (\<lambda>b. bcAddr b \<noteq> host) bs))
      else (False, bs))"
  by (induction bs) auto

lemma delete_at: "take i xs @ drop (Suc i) xs = nths xs (- {i})"
proof (induction xs arbitrary: i)
  case (Cons x xs)
  show ?case
  proof (cases i)
    case 0
    then show ?thesis by (simp add: nths_Cons nths_all)
  next
    case (Suc j)
    have "{k. Suc k \<in> - {i}} = - {j}" using Suc by auto
    then show ?thesis using Suc Cons.IH [of j] by (simp add: nths_Cons)
  qed
qed simp

subsection \<open>The contract\<close>

definition routesOf :: "listener_ref \<Rightarrow> ('cb, 'c, 'r) LoadBalancer \<Rightarrow> RouteConfig list" where
  "routesOf lp s = lcRoutes (listenerAt lp s)"

definition routeId :: "RouteConfig \<Rightarrow> string \<times> string" where
  "routeId r = (rcPath r, rcHost r)"

definition commit ::
  "('cb, 'c, 'r) world \<Rightarrow> listener_ref \<Rightarrow> RouteConfig list \<Rightarrow> ('cb, 'c, 'r) LoadBalancer
     \<Rightarrow> ('cb, 'c, 'r) LoadBalancer" where
  "commit W lp rs s = reloadConfig_unsafe W (lbCfg s) (setRoutes lp rs s)"

lemma setRoutes_frame [frame]:
  "lbCfg (setRoutes lp rs s) = lbCfg s" "lbRl (setRoutes lp rs s) = lbRl s"
  "lbCache (setRoutes lp rs s) = lbCache s" "lbRedis (setRoutes lp rs s) = lbRedis s"
  "poolHeap (setRoutes lp rs s) = poolHeap s" "healthLoops (setRoutes lp rs s) = healthLoops s"
  "lbRoutes (setRoutes lp rs s) = lbRoutes s" "lbL4Pools (setRoutes lp rs s) = lbL4Pools s"
  "length (cfgHeap (setRoutes lp rs s)) = length (cfgHeap s)"
  by (simp_all add: setRoutes_def Let_def)

lemma setRoutes_cfg:
  "cfgHeap (setRoutes lp rs s) ! c =
     (if c = fst lp \<and> c < length (cfgHeap s)
      then (cfgHeap s ! c)\<lparr>cfListeners := (cfListeners (cfgHeap s ! c))[snd lp := (listenerAt lp s)\<lparr>lcRoutes := rs\<rparr>]\<rparr>
      else cfgHeap s ! c)"
  by (cases "fst lp < length (cfgHeap s)") (auto simp: setRoutes_def Let_def nth_list_update list_update_beyond)

lemma listenerAt_setRoutes:
  assumes "validRef lp s" and "validRef lp' s"
  shows "listenerAt lp' (setRoutes lp rs s) =
    (if lp' = lp then (listenerAt lp s)\<lparr>lcRoutes := rs\<rparr> else listenerAt lp' s)"
proof (cases "fst lp' = fst lp")
  case True
  with assms show ?thesis
    by (auto simp: listenerAt_def [of lp'] setRoutes_cfg validRef_def nth_list_update prod_eq_iff)
next
  case False
  then show ?thesis by (auto simp: listenerAt_def [of lp'] setRoutes_cfg)
qed

lemma listenerAt_commit:
  assumes "validRef lp s" and "validRef lp' s"
  shows "listenerAt lp' (commit W lp rs s) =
    (if lp' = lp then (listenerAt lp s)\<lparr>lcRoutes := rs\<rparr> else listenerAt lp' s)"
proof -
  have "listenerAt lp' (commit W lp rs s) = listenerAt lp' (setRoutes lp rs s)"
    by (simp add: listenerAt_def commit_def reload_frame)
  then show ?thesis by (simp add: listenerAt_setRoutes [OF assms])
qed

lemma validRef_commit: "validRef lp' (commit W lp rs s) = validRef lp' s"
  by (auto simp: validRef_def commit_def reload_frame setRoutes_frame setRoutes_cfg)

lemma commit_frame [frame]:
  "lbCfg (commit W lp rs s) = lbCfg s" "lbRl (commit W lp rs s) = lbRl s"
  "lbCache (commit W lp rs s) = lbCache s" "lbRedis (commit W lp rs s) = lbRedis s"
  by (simp_all add: commit_def reload_frame setRoutes_frame)

lemma commit_coherent:
  "sort_contract (wSort W) \<Longrightarrow> lbCfg s < length (cfgHeap s) \<Longrightarrow> coherent W (commit W lp rs s)"
  unfolding commit_def by (rule reload_coherent) (simp_all add: setRoutes_frame)

locale route_editor =
  fixes W :: "('cb, 'c, 'r) world"
    and run :: "listener_ref \<Rightarrow> ('cb, 'c, 'r) LoadBalancer \<Rightarrow> admin_error + ('cb, 'c, 'r) LoadBalancer"
    and edit :: "RouteConfig list \<Rightarrow> admin_error + RouteConfig list"
  assumes run_edit: "run lp s = (case edit (routesOf lp s) of Inl e \<Rightarrow> Inl e | Inr rs \<Rightarrow> Inr (commit W lp rs s))"
    and edit_ids: "edit rs = Inr rs' \<Longrightarrow> distinct (map routeId rs) \<Longrightarrow> distinct (map routeId rs')"
begin

lemma error_iff: "run lp s = Inl e \<longleftrightarrow> edit (routesOf lp s) = Inl e"
  by (simp add: run_edit split: sum.splits)

lemma run_commit: "run lp s = Inr s' \<Longrightarrow> \<exists>rs. edit (routesOf lp s) = Inr rs \<and> s' = commit W lp rs s"
  by (auto simp: run_edit split: sum.splits)

text \<open>The operation is the edit, and then one rebuild.\<close>

lemma is_edit: "run lp s = map_sum id (\<lambda>rs. commit W lp rs s) (edit (routesOf lp s))"
  by (simp add: run_edit split: sum.splits)

text \<open>The refinement: through the listener, the operation is the edit.\<close>

lemma refines:
  "validRef lp s \<Longrightarrow> map_sum id (routesOf lp) (run lp s) = edit (routesOf lp s)"
  by (auto simp: run_edit routesOf_def listenerAt_commit split: sum.splits)

lemma others_kept:
  "run lp s = Inr s' \<Longrightarrow> validRef lp s \<Longrightarrow> validRef lp' s \<Longrightarrow> lp' \<noteq> lp \<Longrightarrow> listenerAt lp' s' = listenerAt lp' s"
  using run_commit by (fastforce simp: listenerAt_commit)

lemma services_kept:
  "run lp s = Inr s' \<Longrightarrow> lbCache s' = lbCache s \<and> lbRl s' = lbRl s \<and> lbRedis s' = lbRedis s \<and> lbCfg s' = lbCfg s"
  using run_commit by (fastforce simp: commit_frame)

lemma coherent_after:
  assumes "sort_contract (wSort W)" and "coherent W s" and "run lp s = Inr s'"
  shows "coherent W s'"
proof -
  have "lbCfg s < length (cfgHeap s)" using assms(2) by (simp add: coherent_def)
  then show ?thesis using run_commit [OF assms(3)] commit_coherent [OF assms(1)] by blast
qed

lemma ids_kept:
  assumes "validRef lp s" and "run lp s = Inr s'" and "distinct (map routeId (routesOf lp s))"
  shows "distinct (map routeId (routesOf lp s'))"
  using refines [OF assms(1)] assms(2,3) edit_ids by simp

end

lemma editRoute_ids:
  assumes "editRoute index f rs = Inr rs'" and "distinct (map routeId rs)"
  shows "distinct (map routeId rs')"
proof -
  obtain bs where "rs' = rs[nat index := (rs ! nat index)\<lparr>rcBackends := bs\<rparr>]"
    using assms(1) by (auto simp: editRoute_def split: if_splits sum.splits)
  then have "map routeId rs' = map routeId rs"
    by (simp add: map_list_update_same routeId_def)
  with assms(2) show ?thesis by simp
qed

lemmas op_unfold = getRouteByIndex_def commit_def setBackends_def routesOf_def Let_def setRoutes_frame

interpretation add_route: route_editor W "AddRoute W r" "addRouteEdit r" for W r
  by unfold_locales
    (auto simp: AddRoute_def addRouteEdit_def routeExists_iff op_unfold routeId_def split: if_splits)

interpretation delete_route: route_editor W "DeleteRoute W index" "deleteRouteEdit index" for W index
  by unfold_locales
    (auto simp: DeleteRoute_def deleteRouteEdit_def op_unfold delete_at nths_map [symmetric] distinct_nthsI
      split: if_splits)

interpretation add_backend: route_editor W "AddBackendToRoute W index b" "editRoute index (addBackendEdit index b)"
  for W index b
  by unfold_locales
    (auto simp: AddBackendToRoute_def editRoute_def addBackendEdit_def backendExists_iff op_unfold editRoute_ids)

interpretation delete_backend: route_editor W "DeleteBackendFromRoute W index host"
    "editRoute index (deleteBackendEdit index host)" for W index host
  by unfold_locales
    (auto simp: DeleteBackendFromRoute_def editRoute_def deleteBackendEdit_def removeBackend_eq op_unfold
      editRoute_ids)

interpretation update_weight: route_editor W "UpdateBackendWeightInRoute W index host weight"
    "editRoute index (updateWeightEdit index host weight)" for W index host weight
  by unfold_locales
    (auto simp: UpdateBackendWeightInRoute_def editRoute_def updateWeightEdit_def reweigh_eq op_unfold
      editRoute_ids)

lemma addBackend_undo:
  assumes "editRoute index (addBackendEdit index b) rs = Inr rs'"
  shows "editRoute index (deleteBackendEdit index (bcAddr b)) rs' = Inr rs"
proof -
  let ?r = "rs ! nat index"
  have i: "0 \<le> index" "index < int (length rs)" and new: "bcAddr b \<notin> bcAddr ` set (rcBackends ?r)"
    and rs': "rs' = rs[nat index := ?r\<lparr>rcBackends := rcBackends ?r @ [defaultWeight b]\<rparr>]"
    using assms by (auto simp: editRoute_def addBackendEdit_def split: if_splits)
  have addr: "bcAddr (defaultWeight b) = bcAddr b" by (simp add: defaultWeight_def)
  have "filter (\<lambda>x. bcAddr x \<noteq> bcAddr b) (rcBackends ?r) = rcBackends ?r"
    by (rule filter_True, rule ballI, rule notI) (metis image_eqI new)
  with i show ?thesis by (simp add: editRoute_def deleteBackendEdit_def rs' addr)
qed

text \<open>Every successful edit, of whichever kind.\<close>

inductive edited :: "('cb, 'c, 'r) world \<Rightarrow> listener_ref \<Rightarrow> ('cb, 'c, 'r) LoadBalancer \<Rightarrow> ('cb, 'c, 'r) LoadBalancer \<Rightarrow> bool"
  for W lp s where
  "AddRoute W r lp s = Inr s' \<Longrightarrow> edited W lp s s'"
| "DeleteRoute W index lp s = Inr s' \<Longrightarrow> edited W lp s s'"
| "AddBackendToRoute W index b lp s = Inr s' \<Longrightarrow> edited W lp s s'"
| "DeleteBackendFromRoute W index host lp s = Inr s' \<Longrightarrow> edited W lp s s'"
| "UpdateBackendWeightInRoute W index host weight lp s = Inr s' \<Longrightarrow> edited W lp s s'"

inductive_cases editedE: "edited W lp s s'"

lemmas commits = add_route.run_commit delete_route.run_commit add_backend.run_commit
  delete_backend.run_commit update_weight.run_commit

lemmas ids_kept = add_route.ids_kept delete_route.ids_kept add_backend.ids_kept
  delete_backend.ids_kept update_weight.ids_kept

lemma edited_commit: "edited W lp s s' \<Longrightarrow> \<exists>rs. s' = commit W lp rs s"
  by (erule editedE) (blast dest: commits)+

lemma edited_ids:
  "edited W lp s s' \<Longrightarrow> validRef lp s \<Longrightarrow> distinct (map routeId (routesOf lp s)) \<Longrightarrow>
     distinct (map routeId (routesOf lp s'))"
  by (erule editedE) (blast dest: ids_kept)+

subsection \<open>Properties\<close>

text \<open>
  C9: Each of the five operations of the admin API fails exactly with the error of the edit on
  lists it stands for, and otherwise is that edit of the routes of its listener followed by one
  rebuild: adding a route unless its path and host are taken, deleting by index, and adding,
  removing or reweighing a backend of the indexed route.  After each success the routes served
  are those of the configuration in force.
\<close>

theorem admin_ops_refine:
  assumes "validRef lp s" and "sort_contract (wSort W)" and "lbCfg s < length (cfgHeap s)"
  shows "let rebuilt = (\<lambda>rs. reloadConfig_unsafe W (lbCfg s) (setRoutes lp rs s)) in
    AddRoute W route lp s = map_sum id rebuilt (addRouteEdit route (routesOf lp s))
    \<and> DeleteRoute W index lp s = map_sum id rebuilt (deleteRouteEdit index (routesOf lp s))
    \<and> AddBackendToRoute W index b lp s =
        map_sum id rebuilt (editRoute index (addBackendEdit index b) (routesOf lp s))
    \<and> DeleteBackendFromRoute W index host lp s =
        map_sum id rebuilt (editRoute index (deleteBackendEdit index host) (routesOf lp s))
    \<and> UpdateBackendWeightInRoute W index host weight lp s =
        map_sum id rebuilt (editRoute index (updateWeightEdit index host weight) (routesOf lp s))
    \<and> (\<forall>rs. routesOf lp (rebuilt rs) = rs
        \<and> mset (map rtConfig (lbRoutes (rebuilt rs))) = mset (l7Configs (cfgHeap (rebuilt rs) ! lbCfg (rebuilt rs))))"
proof -
  have "routesOf lp (commit W lp rs s) = rs \<and> coherent W (commit W lp rs s)" for rs
    using commit_coherent [OF assms(2,3)] by (simp add: routesOf_def listenerAt_commit [OF assms(1,1)])
  then show ?thesis
    unfolding Let_def commit_def [symmetric]
    by (simp add: add_route.is_edit delete_route.is_edit add_backend.is_edit delete_backend.is_edit
        update_weight.is_edit coherent_def)
qed

theorem admin_ops_refine_witness:
  "\<exists>s'. DeleteRoute sampleWorld 0 (0, 0) sampleLB = Inr s' \<and> routesOf (0, 0) s' = [] \<and> lbRoutes s' = []
   \<and> DeleteRoute sampleWorld 1 (0, 0) sampleLB = Inl (RouteOutOfBounds 1)"
proof -
  have v: "validRef (0, 0) sampleLB" by (simp add: validRef_def sampleLB_sel)
  have r: "routesOf (0, 0) sampleLB = [sampleRC ''/'' [\<lparr>bcAddr = ''a'', bcWeight = 1\<rparr>]]"
    by (simp add: routesOf_def listenerAt_def sampleLB_sel)
  have cfg: "lbCfg sampleLB < length (cfgHeap sampleLB)" by (simp add: sampleLB_sel)
  have w: "sort_contract (wSort sampleWorld)" by (simp add: insertionSort_contract)
  let ?s = "commit sampleWorld (0, 0) [] sampleLB"
  note claim = admin_ops_refine [OF v w cfg, unfolded Let_def commit_def [symmetric]]
  have "DeleteRoute sampleWorld 0 (0, 0) sampleLB = Inr ?s"
    "DeleteRoute sampleWorld 1 (0, 0) sampleLB = Inl (RouteOutOfBounds 1)"
    by (simp_all add: claim r deleteRouteEdit_def nths_Cons)
  moreover have "routesOf (0, 0) ?s = []" and "mset (map rtConfig (lbRoutes ?s)) = mset (l7Configs (cfgHeap ?s ! lbCfg ?s))"
    using claim by blast+
  moreover have "l7Configs (cfgHeap ?s ! lbCfg ?s) = []"
    by (simp add: commit_def reload_frame setRoutes_frame setRoutes_cfg sampleLB_sel l7Configs_def isL7_def
        listenerAt_def)
  ultimately show ?thesis by simp
qed

text \<open>
  C35: A successful edit through the admin API keeps the routes of its listener distinct in path
  and host, leaves every other listener, the cache and the rate limiter alone, and leaves the
  balancer coherent with the configuration in force.
\<close>

theorem admin_edit_safe:
  assumes "sort_contract (wSort W)" and "coherent W s" and "validRef lp s" and "edited W lp s s'"
    and "distinct (map (\<lambda>r. (rcPath r, rcHost r)) (routesOf lp s))"
  shows "distinct (map (\<lambda>r. (rcPath r, rcHost r)) (routesOf lp s')) \<and> coherent W s'
    \<and> (\<forall>lp'. validRef lp' s \<and> lp' \<noteq> lp \<longrightarrow> listenerAt lp' s' = listenerAt lp' s)
    \<and> lbCache s' = lbCache s \<and> lbRl s' = lbRl s"
proof -
  obtain rs where s': "s' = commit W lp rs s" using edited_commit [OF assms(4)] by blast
  have id: "(\<lambda>r. (rcPath r, rcHost r)) = routeId" by (simp add: fun_eq_iff routeId_def)
  have "distinct (map routeId (routesOf lp s'))"
    using edited_ids [OF assms(4,3)] assms(5) by (simp only: id)
  moreover have "coherent W s'"
    unfolding s' using assms(1,2) by (intro commit_coherent) (simp_all add: coherent_def)
  ultimately show ?thesis
    using assms(3) by (auto simp: s' id commit_frame listenerAt_commit)
qed

theorem admin_edit_safe_witness:
  "\<exists>s'. AddRoute sampleWorld (sampleRC ''/api'' []) (0, 0) sampleLB = Inr s' \<and> coherent sampleWorld s'"
proof -
  have v: "validRef (0, 0) sampleLB" by (simp add: validRef_def sampleLB_sel)
  have r: "routesOf (0, 0) sampleLB = [sampleRC ''/'' [\<lparr>bcAddr = ''a'', bcWeight = 1\<rparr>]]"
    by (simp add: routesOf_def listenerAt_def sampleLB_sel)
  have c: "coherent sampleWorld sampleLB"
    unfolding sampleLB_def by (rule NewLoadBalancer_coherent) (simp add: insertionSort_contract)
  obtain s' where s': "AddRoute sampleWorld (sampleRC ''/api'' []) (0, 0) sampleLB = Inr s'"
    by (simp add: add_route.run_edit r addRouteEdit_def)
  then have "edited sampleWorld (0, 0) sampleLB s'" by (rule edited.intros)
  from admin_edit_safe [OF _ c v this] s' show ?thesis by (simp add: r insertionSort_contract)
qed

text \<open>
  An edit through a pointer to a listener of a configuration that is no longer in force, as
  a request holds it when a reload comes between its look-up of the listener and its edit,
  reports success and is lost: the configuration in force and the routes served stay the same.
\<close>

theorem stale_edit_lost:
  assumes "sort_contract (wSort W)" and "coherent W s" and "fst lp \<noteq> lbCfg s" and "edited W lp s s'"
  shows "cfgHeap s' ! lbCfg s' = cfgHeap s ! lbCfg s
    \<and> mset (map rtConfig (lbRoutes s')) = mset (map rtConfig (lbRoutes s))"
proof -
  obtain rs where s': "s' = commit W lp rs s" using edited_commit [OF assms(4)] by blast
  then have cfg: "cfgHeap s' ! lbCfg s' = cfgHeap s ! lbCfg s"
    using assms(3) by (simp add: commit_def reload_frame setRoutes_frame setRoutes_cfg)
  have "coherent W s'"
    unfolding s' using assms(1,2) by (intro commit_coherent) (simp_all add: coherent_def)
  with assms(2) cfg show ?thesis by (simp add: coherent_def)
qed

theorem stale_edit_lost_witness:
  "\<exists>s'. AddRoute sampleWorld (sampleRC ''/api'' []) (0, 0)
      (ReloadConfig sampleWorld (sampleConfig [sampleListener ''web'' ''http'' [] []]) sampleLB) = Inr s'
    \<and> lbRoutes s' = []"
proof -
  let ?s = "ReloadConfig sampleWorld (sampleConfig [sampleListener ''web'' ''http'' [] []]) sampleLB"
  have c: "coherent sampleWorld ?s" by (rule ReloadConfig_coherent) (simp add: insertionSort_contract)
  have stale: "fst (0, 0) \<noteq> lbCfg ?s" by (simp add: ReloadConfig_def reload_frame sampleLB_sel)
  have none: "lbRoutes ?s = []"
    by (simp add: ReloadConfig_def reloadConfig_unsafe_eq Let_def l7Configs_def sortRoutes_def sortSlice_def
        insertionSort_def isL7_def)
  have r: "routesOf (0, 0) ?s = [sampleRC ''/'' [\<lparr>bcAddr = ''a'', bcWeight = 1\<rparr>]]"
    by (simp add: routesOf_def listenerAt_def ReloadConfig_def reload_frame sampleLB_sel)
  obtain s' where s': "AddRoute sampleWorld (sampleRC ''/api'' []) (0, 0) ?s = Inr s'"
    by (simp add: add_route.run_edit r addRouteEdit_def)
  then have "edited sampleWorld (0, 0) ?s s'" by (rule edited.intros)
  from stale_edit_lost [OF _ c stale this] s' none show ?thesis by (simp add: insertionSort_contract)
qed

lemma staticBackends_map_of: "staticBackends bcs = map_of (rev (map (\<lambda>b. (bcAddr b, b)) bcs))"
  by (induction bcs rule: rev_induct) (simp_all add: staticBackends_def)

lemma staticBackends_overwritten:
  assumes "bcAddr b \<in> bcAddr ` set bs"
  shows "staticBackends (pre @ b # bs) = staticBackends (pre @ bs)"
proof -
  have "bcAddr b \<in> dom (map_of (rev (map (\<lambda>b. (bcAddr b, b)) bs)))"
    using assms by (simp add: dom_map_of_conv_image_fst image_image)
  then show ?thesis
    by (auto simp: staticBackends_map_of map_add_def fun_eq_iff split: option.split)
qed

lemma reweigh_split:
  "reweigh host weight bs = (True, bs') \<Longrightarrow> \<exists>pre b post. bs = pre @ b # post \<and> bcAddr b = host
     \<and> bs' = pre @ b\<lparr>bcWeight := weight\<rparr> # post \<and> host \<notin> bcAddr ` set pre"
proof (induction bs arbitrary: bs')
  case (Cons x bs)
  show ?case
  proof (cases "bcAddr x = host")
    case True
    with Cons.prems show ?thesis by (intro exI [of _ "[]"]) auto
  next
    case False
    with Cons.prems obtain bs'' where "reweigh host weight bs = (True, bs'')" "bs' = x # bs''"
      by (auto split: prod.splits)
    with Cons.IH [of bs''] False show ?thesis by (metis append_Cons image_insert insert_iff list.simps(15))
  qed
qed simp

text \<open>
  Where a route lists an address twice, changing its weight through the admin API reports
  success and changes nothing: the edit reaches the first entry, the pool is built from the last.
\<close>

theorem duplicate_weight_update_void:
  assumes "2 \<le> count_list (map bcAddr (rcBackends rc)) host"
    and "reweigh host weight (rcBackends rc) = (True, bs')"
  shows "NewL7BackendPool G urlParse ord (rc\<lparr>rcBackends := bs'\<rparr>) cbCfg poolCfg =
    NewL7BackendPool G urlParse ord rc cbCfg poolCfg"
proof -
  obtain pre b post where split: "rcBackends rc = pre @ b # post" "bcAddr b = host"
    "bs' = pre @ b\<lparr>bcWeight := weight\<rparr> # post" "host \<notin> bcAddr ` set pre"
    using reweigh_split [OF assms(2)] by blast
  have "count_list (map bcAddr pre) host = 0" using split(4) by (simp add: count_list_0_iff)
  with assms(1) split have "count_list (map bcAddr post) host \<noteq> 0" by simp
  then have later: "host \<in> bcAddr ` set post" by (simp add: count_list_0_iff)
  then have "staticBackends bs' = staticBackends (rcBackends rc)"
    using staticBackends_overwritten [of b post pre]
      staticBackends_overwritten [of "b\<lparr>bcWeight := weight\<rparr>" post pre] split by simp
  moreover have "staticKeys bs' = staticKeys (rcBackends rc)" using split by (simp add: staticKeys_def)
  ultimately show ?thesis by (simp add: NewL7BackendPool_def)
qed

theorem duplicate_weight_update_void_witness:
  "NewL7BackendPool simpleBreaker Some rev
      (sampleRC ''/'' [\<lparr>bcAddr = ''a'', bcWeight = 1\<rparr>, \<lparr>bcAddr = ''a'', bcWeight = 2\<rparr>]
        \<lparr>rcBackends := [\<lparr>bcAddr = ''a'', bcWeight = 9\<rparr>, \<lparr>bcAddr = ''a'', bcWeight = 2\<rparr>]\<rparr>) None None =
   NewL7BackendPool simpleBreaker Some rev
      (sampleRC ''/'' [\<lparr>bcAddr = ''a'', bcWeight = 1\<rparr>, \<lparr>bcAddr = ''a'', bcWeight = 2\<rparr>]) None None"
  by (rule duplicate_weight_update_void [of _ "''a''" 9]) simp_all

text \<open>
  C31: Removing a backend undoes adding it: after a successful addition the removal of the same
  address succeeds, and the routes of the listener are what they were before.
\<close>

theorem backend_add_delete_roundtrip:
  assumes "validRef lp s" and "AddBackendToRoute W index b lp s = Inr s'"
  shows "\<exists>s''. DeleteBackendFromRoute W index (bcAddr b) lp s' = Inr s'' \<and> routesOf lp s'' = routesOf lp s"
proof -
  have ref: "validRef lp s'" using add_backend.run_commit [OF assms(2)] assms(1) by (auto simp: validRef_commit)
  have "editRoute index (addBackendEdit index b) (routesOf lp s) = Inr (routesOf lp s')"
    using add_backend.refines [OF assms(1), of W index b] assms(2) by simp
  from addBackend_undo [OF this] delete_backend.refines [OF ref, of W index "bcAddr b"] show ?thesis
    by (cases "DeleteBackendFromRoute W index (bcAddr b) lp s'") simp_all
qed

theorem backend_add_delete_roundtrip_witness:
  "\<exists>s' s''. AddBackendToRoute sampleWorld 0 \<lparr>bcAddr = ''b'', bcWeight = 0\<rparr> (0, 0) sampleLB = Inr s'
     \<and> DeleteBackendFromRoute sampleWorld 0 ''b'' (0, 0) s' = Inr s'' \<and> routesOf (0, 0) s'' = routesOf (0, 0) sampleLB"
proof -
  have v: "validRef (0, 0) sampleLB" by (simp add: validRef_def sampleLB_sel)
  obtain s' where s': "AddBackendToRoute sampleWorld 0 \<lparr>bcAddr = ''b'', bcWeight = 0\<rparr> (0, 0) sampleLB = Inr s'"
    by (simp add: AddBackendToRoute_def getRouteByIndex_def listenerAt_def sampleLB_sel Let_def)
  from backend_add_delete_roundtrip [OF v s'] s' show ?thesis by auto
qed

end
