(* ===== verification/Holders.thy ===== *)
theory Holders
  imports Strategy
begin

text \<open>
  Goroutines that share a pool and its connection counters: each holds at most one backend, the
  one whose counter it has raised and not lowered again.  \<open>counted holder pool pcs\<close> says that the
  counters are exact; the lemmas below are the three moves of a goroutine (taking, releasing,
  and any step that does neither) and serve the proofs about every kind of proxy.
\<close>

definition holders :: "('pc \<Rightarrow> nat option) \<Rightarrow> nat \<Rightarrow> 'pc list \<Rightarrow> nat" where
  "holders holder i pcs = length (filter (\<lambda>pc. holder pc = Some i) pcs)"

definition counted :: "('pc \<Rightarrow> nat option) \<Rightarrow> 'cb BackendPool \<Rightarrow> 'pc list \<Rightarrow> bool" where
  "counted holder pool pcs \<longleftrightarrow>
     (\<forall>i<poolSize pool. connections (backends pool ! i) = of_nat (holders holder i pcs))"

lemma holders_update:
  "t < length pcs \<Longrightarrow>
     holders holder i (pcs[t := pc]) + (if holder (pcs ! t) = Some i then 1 else 0) =
     holders holder i pcs + (if holder pc = Some i then 1 else 0)"
  unfolding holders_def by (rule filter_update_count)

lemma holders_same:
  "t < length pcs \<Longrightarrow> holder pc = holder (pcs ! t) \<Longrightarrow> holders holder i (pcs[t := pc]) = holders holder i pcs"
  using holders_update [of t pcs holder i pc] by (simp split: if_splits)

lemma holders_append [simp]: "holder pc = None \<Longrightarrow> holders holder i (pcs @ [pc]) = holders holder i pcs"
  by (simp add: holders_def)

lemma holders_none: "(\<And>pc. pc \<in> set pcs \<Longrightarrow> holder pc \<noteq> Some i) \<Longrightarrow> holders holder i pcs = 0"
  by (simp add: holders_def filter_empty_conv)

text \<open>Counters, seen from outside: neither a pick, nor a breaker, nor a health check moves them.\<close>

definition sameConns :: "'cb BackendPool \<Rightarrow> 'cb BackendPool \<Rightarrow> bool" where
  "sameConns p q \<longleftrightarrow> poolSize q = poolSize p \<and>
     (\<forall>i<poolSize p. connections (backends q ! i) = connections (backends p ! i))"

lemma sameConns_refl [simp]: "sameConns p p"
  by (simp add: sameConns_def)

lemma sameConns_trans: "sameConns p q \<Longrightarrow> sameConns q r \<Longrightarrow> sameConns p r"
  by (simp add: sameConns_def)

lemma updBackend_connections:
  "j < poolSize pool \<Longrightarrow>
     connections (backends (updBackend i f pool) ! j) =
       (if i = j then connections (f (backends pool ! j)) else connections (backends pool ! j))"
  by (cases "i = j") (simp_all add: updBackend_def)

lemma sameConns_upd: "(\<And>b. connections (f b) = connections b) \<Longrightarrow> sameConns p (updBackend i f p)"
  by (simp add: sameConns_def frame updBackend_connections)

lemma sameConns_check [simp]: "sameConns p (updBackend i (healthCheck up) p)"
  by (rule sameConns_upd) (simp add: healthCheck_eq frame)

lemma sameConns_cb [simp]: "sameConns p (updBackend i (\<lambda>b. b\<lparr>cb := f b\<rparr>) p)"
  by (rule sameConns_upd) simp

lemma sameConns_pick: "sameConns p (fst (GetNextBackend G ip p))"
proof -
  have same: "sameBackends p (fst (GetNextBackend G ip p))" by (rule nb.pick_same)
  then show ?thesis
    using sameBackends_size [OF same] sameBackends_nth [OF same] by (simp add: sameConns_def core_def)
qed

lemma counted_keep:
  assumes "counted holder p pcs" and "sameConns p q" and "t < length pcs" and "holder pc = holder (pcs ! t)"
  shows "counted holder q (pcs[t := pc])"
  using assms(1,2) by (simp add: counted_def sameConns_def holders_same [OF assms(3,4)])

lemma counted_pool: "counted holder p pcs \<Longrightarrow> sameConns p q \<Longrightarrow> counted holder q pcs"
  by (simp add: counted_def sameConns_def)

lemma counted_append: "counted holder p pcs \<Longrightarrow> holder pc = None \<Longrightarrow> counted holder p (pcs @ [pc])"
  by (simp add: counted_def)

lemma counted_take:
  assumes "counted holder p pcs" and "t < length pcs" and "holder (pcs ! t) = None" and "holder pc = Some i"
  shows "counted holder (updBackend i IncrementConnections p) (pcs[t := pc])"
proof -
  have "holders holder j (pcs[t := pc]) = holders holder j pcs + (if i = j then 1 else 0)" for j
    using holders_update [OF assms(2), of holder j pc] assms(3,4) by simp
  with assms(1) show ?thesis by (simp add: counted_def frame updBackend_connections)
qed

lemma counted_release:
  assumes "counted holder p pcs" and "t < length pcs" and "holder (pcs ! t) = Some i" and "holder pc = None"
  shows "counted holder (updBackend i DecrementConnections p) (pcs[t := pc])"
proof -
  have less: "holders holder j pcs = holders holder j (pcs[t := pc]) + (if i = j then 1 else 0)" for j
    using holders_update [OF assms(2), of holder j pc] assms(3,4) by simp
  with assms(1) show ?thesis by (simp add: counted_def frame updBackend_connections)
qed

lemma counted_start: "\<forall>b\<in>set (backends p). connections b = 0 \<Longrightarrow> counted holder p []"
  by (simp add: counted_def holders_def)

end
