(* ===== verification/TcpProxy.thy ===== *)
theory TcpProxy
  imports LoadBalancer Holders
begin

text \<open>
  \<open>internal/lb/tcp_proxy.go\<close>: the proxy of a TCP listener.  It keeps the pool it found when it was
  created, accepts connections until it is shut down, and runs each of them in a goroutine of its
  own; the goroutines of a proxy share its pool.

  A connection is waiting for its backend (\<open>TcAccepted\<close>), about to enter the circuit breaker of the
  one it was given (\<open>TcPicked\<close>), dialing it (\<open>TcDialing\<close>), being copied
  in both directions (\<open>TcCopying\<close>, with a flag per direction that is still running), or over
  (\<open>TcDone\<close>).  The \<open>WaitGroup\<close> is the number of connections that are not over.  \<open>tcp_step\<close> is one
  step of one goroutine, a health check of the pool, or the closing of the listener; what the
  network does, a dial that succeeds or an end of a copy, is a choice of the step.
\<close>

datatype tcp_conn =
    TcAccepted string
  | TcPicked nat
  | TcDialing nat
  | TcCopying nat bool bool
  | TcDone

record 'cb TcpProxy =
  tpPool :: "'cb BackendPool"
  tpConns :: "tcp_conn list"
  tpListening :: bool

datatype proxy_error = NoPool string | ListenFailed string

text \<open>\<open>NewTcpProxy\<close>: the pointer to the pool is taken from \<open>l4Pools\<close> once and for all.\<close>

definition NewTcpProxy ::
  "(string \<Rightarrow> bool) \<Rightarrow> ListenerConfig \<Rightarrow> ('cb, 'c, 'r) LoadBalancer \<Rightarrow> proxy_error + nat" where
  "NewTcpProxy listen listenerCfg s =
     (case map_of (lbL4Pools s) (lcName listenerCfg) of
        None \<Rightarrow> Inl (NoPool (lcName listenerCfg))
      | Some ref \<Rightarrow> if listen (lcListenAddr listenerCfg) then Inr ref
                    else Inl (ListenFailed (lcListenAddr listenerCfg)))"

definition openProxy :: "'cb BackendPool \<Rightarrow> 'cb TcpProxy" where
  "openProxy pool = \<lparr>tpPool = pool, tpConns = [], tpListening = True\<rparr>"

subsection \<open>The steps of a connection\<close>

definition setConn :: "nat \<Rightarrow> tcp_conn \<Rightarrow> 'cb TcpProxy \<Rightarrow> 'cb TcpProxy" where
  "setConn t c p = p\<lparr>tpConns := (tpConns p)[t := c]\<rparr>"

text \<open>Choosing the backend, and then entering its circuit breaker if it has one.\<close>

definition chooseBackend :: "'cb gobreaker \<Rightarrow> nat \<Rightarrow> string \<Rightarrow> 'cb TcpProxy \<Rightarrow> 'cb TcpProxy" where
  "chooseBackend G t clientIP p =
     (case GetNextBackend G clientIP (tpPool p) of
        (pool, None) \<Rightarrow> setConn t TcDone (p\<lparr>tpPool := pool\<rparr>)
      | (pool, Some i) \<Rightarrow> setConn t (TcPicked i) (p\<lparr>tpPool := pool\<rparr>))"

definition enterBreaker :: "'cb gobreaker \<Rightarrow> nat \<Rightarrow> nat \<Rightarrow> 'cb TcpProxy \<Rightarrow> 'cb TcpProxy" where
  "enterBreaker G t i p =
     (case cb (backends (tpPool p) ! i) of
        None \<Rightarrow> setConn t (TcDialing i) p
      | Some c \<Rightarrow>
          (case beforeRequest G c of
             Inl e \<Rightarrow> setConn t TcDone p
           | Inr c' \<Rightarrow>
               setConn t (TcDialing i)
                 (p\<lparr>tpPool := updBackend i (\<lambda>b. b\<lparr>cb := Some c'\<rparr>) (tpPool p)\<rparr>)))"

text \<open>Leaving the breaker, with the outcome of \<open>proxyTcp\<close>.\<close>

definition leaveBreaker :: "'cb gobreaker \<Rightarrow> nat \<Rightarrow> bool \<Rightarrow> 'cb BackendPool \<Rightarrow> 'cb BackendPool" where
  "leaveBreaker G i ok pool =
     updBackend i (\<lambda>b. b\<lparr>cb := map_option (\<lambda>c. afterRequest G c ok) (cb b)\<rparr>) pool"

definition dialed :: "'cb gobreaker \<Rightarrow> nat \<Rightarrow> nat \<Rightarrow> bool \<Rightarrow> 'cb TcpProxy \<Rightarrow> 'cb TcpProxy" where
  "dialed G t i ok p =
     (if \<not> ok then setConn t TcDone (p\<lparr>tpPool := leaveBreaker G i False (tpPool p)\<rparr>)
      else setConn t (TcCopying i True True) (p\<lparr>tpPool := updBackend i IncrementConnections (tpPool p)\<rparr>))"

text \<open>Both copies over: the deferred decrement, and the return of \<open>nil\<close> to the breaker.\<close>

definition finished :: "'cb gobreaker \<Rightarrow> nat \<Rightarrow> nat \<Rightarrow> 'cb TcpProxy \<Rightarrow> 'cb TcpProxy" where
  "finished G t i p =
     setConn t TcDone
       (p\<lparr>tpPool := leaveBreaker G i True (updBackend i DecrementConnections (tpPool p))\<rparr>)"

inductive tcp_step :: "'cb gobreaker \<Rightarrow> 'cb TcpProxy \<Rightarrow> 'cb TcpProxy \<Rightarrow> bool" for G where
  accept: "tpListening p \<Longrightarrow> tcp_step G p (p\<lparr>tpConns := tpConns p @ [TcAccepted clientIP]\<rparr>)"
| choose: "t < length (tpConns p) \<Longrightarrow> tpConns p ! t = TcAccepted clientIP \<Longrightarrow>
    tcp_step G p (chooseBackend G t clientIP p)"
| enter: "t < length (tpConns p) \<Longrightarrow> tpConns p ! t = TcPicked i \<Longrightarrow> tcp_step G p (enterBreaker G t i p)"
| dial: "t < length (tpConns p) \<Longrightarrow> tpConns p ! t = TcDialing i \<Longrightarrow> tcp_step G p (dialed G t i ok p)"
| upstreamEnds: "t < length (tpConns p) \<Longrightarrow> tpConns p ! t = TcCopying i True down \<Longrightarrow>
    tcp_step G p (setConn t (TcCopying i False down) p)"
| downstreamEnds: "t < length (tpConns p) \<Longrightarrow> tpConns p ! t = TcCopying i up True \<Longrightarrow>
    tcp_step G p (setConn t (TcCopying i up False) p)"
| close: "t < length (tpConns p) \<Longrightarrow> tpConns p ! t = TcCopying i False False \<Longrightarrow>
    tcp_step G p (finished G t i p)"
| check: "i < poolSize (tpPool p) \<Longrightarrow>
    tcp_step G p (p\<lparr>tpPool := updBackend i (healthCheck up) (tpPool p)\<rparr>)"
| shutdown: "tcp_step G p (p\<lparr>tpListening := False\<rparr>)"

inductive tcp_reachable :: "'cb gobreaker \<Rightarrow> 'cb BackendPool \<Rightarrow> 'cb TcpProxy \<Rightarrow> bool" for G pool where
  start: "tcp_reachable G pool (openProxy pool)"
| step: "tcp_reachable G pool p \<Longrightarrow> tcp_step G p p' \<Longrightarrow> tcp_reachable G pool p'"

inductive_simps tcp_reachable_simps: "tcp_reachable G pool p"

text \<open>\<open>Wait\<close> returns when the \<open>WaitGroup\<close> is at zero.\<close>

definition waitGroup :: "'cb TcpProxy \<Rightarrow> nat" where
  "waitGroup p = length (filter (\<lambda>c. c \<noteq> TcDone) (tpConns p))"

subsection \<open>The connection counters\<close>

definition copying :: "tcp_conn \<Rightarrow> nat option" where
  "copying c = (case c of TcCopying i _ _ \<Rightarrow> Some i | _ \<Rightarrow> None)"

lemma copying_simps [simp]:
  "copying (TcAccepted a) = None" "copying (TcPicked j) = None" "copying (TcDialing j) = None" "copying TcDone = None"
  "copying (TcCopying j up down) = Some j"
  by (simp_all add: copying_def)

abbreviation tcp_counted :: "'cb TcpProxy \<Rightarrow> bool" where
  "tcp_counted p \<equiv> counted copying (tpPool p) (tpConns p)"

lemma setConn_sel [simp]:
  "tpPool (setConn t c p) = tpPool p" "tpConns (setConn t c p) = (tpConns p)[t := c]"
  "tpListening (setConn t c p) = tpListening p"
  by (simp_all add: setConn_def)

lemma sameConns_leave [simp]: "sameConns p (leaveBreaker G i ok p)"
  unfolding leaveBreaker_def by (rule sameConns_upd) simp

lemma leaveBreaker_size [frame]: "poolSize (leaveBreaker G i ok pool) = poolSize pool"
  by (simp add: leaveBreaker_def frame)

lemma chooseBackend_frame:
  obtains pool c where "chooseBackend G t clientIP p = setConn t c (p\<lparr>tpPool := pool\<rparr>)"
    and "sameConns (tpPool p) pool" and "copying c = None"
proof -
  obtain pool r where pick: "GetNextBackend G clientIP (tpPool p) = (pool, r)" by fastforce
  have "sameConns (tpPool p) pool" using sameConns_pick [of "tpPool p" G clientIP] pick by simp
  then show thesis
    by (cases r) (auto simp: chooseBackend_def pick intro: that)
qed

lemma enterBreaker_frame:
  obtains pool c where "enterBreaker G t i p = setConn t c (p\<lparr>tpPool := pool\<rparr>)"
    and "sameConns (tpPool p) pool" and "copying c = None"
proof (cases "cb (backends (tpPool p) ! i)")
  case None
  then show thesis by (intro that [of "TcDialing i" "tpPool p"]) (simp_all add: enterBreaker_def)
next
  case (Some c)
  note entry = this
  show thesis
  proof (cases "beforeRequest G c")
    case (Inl e)
    with entry show thesis by (intro that [of TcDone "tpPool p"]) (simp_all add: enterBreaker_def)
  next
    case (Inr c')
    with entry show thesis
      by (intro that [of "TcDialing i" "updBackend i (\<lambda>b. b\<lparr>cb := Some c'\<rparr>) (tpPool p)"])
        (simp_all add: enterBreaker_def)
  qed
qed

lemma tcp_counted_step: "tcp_step G p p' \<Longrightarrow> tcp_counted p \<Longrightarrow> tcp_counted p'"
proof (induction rule: tcp_step.induct)
  case (choose t p clientIP)
  obtain pool c where eq: "chooseBackend G t clientIP p = setConn t c (p\<lparr>tpPool := pool\<rparr>)"
    and same: "sameConns (tpPool p) pool" "copying c = None" by (rule chooseBackend_frame)
  have "counted copying pool ((tpConns p)[t := c])"
    by (rule counted_keep [OF choose.prems same(1) choose.hyps(1)]) (simp add: same(2) choose.hyps(2))
  then show ?case by (simp add: eq)
next
  case (enter t p i)
  obtain pool c where eq: "enterBreaker G t i p = setConn t c (p\<lparr>tpPool := pool\<rparr>)"
    and same: "sameConns (tpPool p) pool" "copying c = None" by (rule enterBreaker_frame)
  have "counted copying pool ((tpConns p)[t := c])"
    by (rule counted_keep [OF enter.prems same(1) enter.hyps(1)]) (simp add: same(2) enter.hyps(2))
  then show ?case by (simp add: eq)
next
  case (dial t p i ok)
  then show ?case
    by (cases ok) (simp_all add: dialed_def counted_take counted_keep [where p = "tpPool p"])
next
  case (close t p i)
  have "counted copying (updBackend i DecrementConnections (tpPool p)) ((tpConns p)[t := TcDone])"
    using close by (simp add: counted_release)
  then show ?case by (simp add: finished_def counted_pool [OF _ sameConns_leave])
next
  case (check i p up)
  then show ?case by (simp add: counted_pool [OF _ sameConns_check])
qed (simp_all add: counted_append counted_keep [OF _ sameConns_refl])

lemma tcp_poolSize_step: "tcp_step G p p' \<Longrightarrow> poolSize (tpPool p') = poolSize (tpPool p)"
proof (induction rule: tcp_step.induct)
  case (choose t p clientIP)
  obtain pool c where "chooseBackend G t clientIP p = setConn t c (p\<lparr>tpPool := pool\<rparr>)"
    and "sameConns (tpPool p) pool" "copying c = None" by (rule chooseBackend_frame)
  then show ?case by (simp add: sameConns_def)
next
  case (enter t p i)
  obtain pool c where "enterBreaker G t i p = setConn t c (p\<lparr>tpPool := pool\<rparr>)"
    and "sameConns (tpPool p) pool" "copying c = None" by (rule enterBreaker_frame)
  then show ?case by (simp add: sameConns_def)
qed (simp_all add: dialed_def finished_def frame)

lemma tcp_reachable_counted:
  assumes "tcp_reachable G pool p" and "\<forall>b\<in>set (backends pool). connections b = 0"
  shows "tcp_counted p \<and> poolSize (tpPool p) = poolSize pool"
  using assms(1)
  by induction (simp_all add: openProxy_def counted_start [OF assms(2)] tcp_counted_step tcp_poolSize_step)

lemma holders_waitGroup: "holders copying i (tpConns p) \<le> waitGroup p"
proof -
  have "length (filter (\<lambda>c. copying c = Some i) cs) \<le> length (filter (\<lambda>c. c \<noteq> TcDone) cs)" for cs
    by (induction cs) (auto simp: copying_def split: tcp_conn.splits)
  then show ?thesis by (simp add: holders_def waitGroup_def)
qed

subsection \<open>Properties\<close>

text \<open>
  C7: The connection counter of a backend behind a TCP listener is at any time the number of
  connections being copied to it: neither a refused or failed dial, nor a rejecting breaker, nor
  the order in which the two directions end makes it drift; and once the proxy has been waited
  for, all counters are back at zero.
\<close>

theorem tcp_counters_exact:
  assumes "tcp_reachable G pool p" and "\<forall>b\<in>set (backends pool). connections b = 0" and "i < poolSize pool"
  shows "connections (backends (tpPool p) ! i) =
      of_nat (length (filter (\<lambda>c. \<exists>up down. c = TcCopying i up down) (tpConns p)))
    \<and> (waitGroup p = 0 \<longrightarrow> connections (backends (tpPool p) ! i) = 0)"
proof -
  note inv = tcp_reachable_counted [OF assms(1,2)]
  have "(\<lambda>c. \<exists>up down. c = TcCopying i up down) = (\<lambda>c. copying c = Some i)"
    by (auto simp: copying_def fun_eq_iff split: tcp_conn.splits)
  with inv assms(3) holders_waitGroup [of i p] show ?thesis
    by (auto simp: counted_def holders_def)
qed

definition oneUp :: "cb_state BackendPool" where
  "oneUp = samplePool ''round-robin'' [plainBackend ''a'' True 1 0]"

lemma oneUp_run:
  "tcp_reachable simpleBreaker oneUp
     \<lparr>tpPool = (oneUp\<lparr>current := 1, backends := [plainBackend ''a'' True 1 1]\<rparr>), tpConns = [TcCopying 0 True True],
      tpListening = True\<rparr>"
proof -
  let ?p0 = "openProxy oneUp" and ?p1 = "(openProxy oneUp)\<lparr>tpConns := [TcAccepted ''10.0.0.1:1'']\<rparr>"
  let ?p1' = "\<lparr>tpPool = oneUp\<lparr>current := 1\<rparr>, tpConns = [TcPicked 0], tpListening = True\<rparr>"
  let ?p2 = "\<lparr>tpPool = oneUp\<lparr>current := 1\<rparr>, tpConns = [TcDialing 0], tpListening = True\<rparr>"
  have s1: "tcp_step simpleBreaker ?p0 ?p1"
    using accept [of ?p0 simpleBreaker "''10.0.0.1:1''"] by (simp add: openProxy_def)
  have s2: "tcp_step simpleBreaker ?p1 ?p1'"
    using choose [of 0 ?p1 "''10.0.0.1:1''" simpleBreaker]
    by (simp add: openProxy_def chooseBackend_def oneUp_def GetNextBackend_def GetNextBackendByRoundRobin_def
        Let_def samplePool_def setConn_def)
  have s3: "tcp_step simpleBreaker ?p1' ?p2"
    using enter [of 0 ?p1' 0 simpleBreaker] by (simp add: enterBreaker_def oneUp_def setConn_def)
  have s4: "tcp_step simpleBreaker ?p2
      \<lparr>tpPool = (oneUp\<lparr>current := 1, backends := [plainBackend ''a'' True 1 1]\<rparr>), tpConns = [TcCopying 0 True True],
       tpListening = True\<rparr>"
    using dial [of 0 ?p2 0 simpleBreaker True]
    by (simp add: dialed_def setConn_def updBackend_def oneUp_def samplePool_def IncrementConnections_def plainBackend_def)
  show ?thesis
    by (rule step [OF step [OF step [OF step [OF start s1] s2] s3] s4])
qed

theorem tcp_counters_exact_witness:
  "connections (backends (oneUp\<lparr>current := 1, backends := [plainBackend ''a'' True 1 1]\<rparr>) ! 0) =
     of_nat (length (filter (\<lambda>c. \<exists>up down. c = TcCopying 0 up down) [TcCopying 0 True True]))"
  using tcp_counters_exact [OF oneUp_run, of 0] by (simp add: oneUp_def)

lemma l4Names_range:
  "e \<in> set (l4Names n ls m) \<Longrightarrow> e \<in> set m \<or> n \<le> snd e \<and> snd e < n + length ls"
proof (induction ls arbitrary: n m)
  case (Cons l ls)
  have upd: "e \<in> set (AList.update k v m) \<Longrightarrow> e \<in> set m \<or> snd e = v" for k and v :: nat
    by (induction m) (auto split: if_splits)
  from Cons.IH [of "Suc n" "AList.update (lcName l) n m"] Cons.prems upd show ?case by force
qed simp

text \<open>
  C38: A running layer-4 proxy never sees a reload: every pool that a reload builds for a listener
  is a new one, so the pool pointer a proxy has taken before is no longer in the balancer's table,
  and neither a changed set of backends nor the metrics of the table concern it any more.
\<close>

theorem tcp_pool_stale:
  assumes "NewTcpProxy listen listenerCfg s = Inr ref" and "\<forall>e\<in>set (lbL4Pools s). snd e < length (poolHeap s)"
  shows "ref \<notin> snd ` set (lbL4Pools (ReloadConfig W cfg s)) \<and> ref < length (poolHeap s)
    \<and> NewTcpProxy listen listenerCfg (ReloadConfig W cfg s) \<noteq> Inr ref"
proof -
  have "(lcName listenerCfg, ref) \<in> set (lbL4Pools s)"
    using assms(1) by (auto simp: NewTcpProxy_def map_of_SomeD split: option.splits if_splits)
  then have ref: "ref < length (poolHeap s)" using assms(2) by force
  have new: "length (poolHeap s) \<le> snd e" if "e \<in> set (lbL4Pools (ReloadConfig W cfg s))" for e
    using that l4Names_range [of e] by (force simp: ReloadConfig_def reloadConfig_unsafe_eq Let_def)
  then have out: "ref \<notin> snd ` set (lbL4Pools (ReloadConfig W cfg s))" using ref by force
  moreover have "NewTcpProxy listen listenerCfg (ReloadConfig W cfg s) \<noteq> Inr ref"
    using out by (force simp: NewTcpProxy_def split: option.splits if_splits dest: map_of_SomeD)
  ultimately show ?thesis using ref by blast
qed

definition tcpLB :: "(cb_state, tableCache_state, string \<Rightarrow> int \<times> duration) LoadBalancer" where
  "tcpLB = NewLoadBalancer sampleWorld
     (sampleConfig [sampleListener ''db'' ''tcp'' [] [\<lparr>bcAddr = ''a'', bcWeight = 1\<rparr>]]) (\<lambda>_. (0, 0))"

lemma tcpLB_sel: "lbL4Pools tcpLB = [(''db'', 0)]" "length (poolHeap tcpLB) = 1"
  by (simp_all add: tcpLB_def NewLoadBalancer_eq reloadConfig_unsafe_eq Let_def emptyBalancer_def allocated_def
      l7Configs_def l4Configs_def isL7_def isL4_def grow_frame newPool_frame)

theorem tcp_pool_stale_witness:
  "0 \<notin> snd ` set (lbL4Pools (ReloadConfig sampleWorld
     (sampleConfig [sampleListener ''db'' ''tcp'' [] [\<lparr>bcAddr = ''b'', bcWeight = 1\<rparr>]]) tcpLB))"
proof -
  have "NewTcpProxy (\<lambda>_. True) (sampleListener ''db'' ''tcp'' [] []) tcpLB = Inr 0"
    by (simp add: NewTcpProxy_def tcpLB_sel)
  from tcp_pool_stale [OF this] show ?thesis by (simp add: tcpLB_sel)
qed

end
