(* ===== verification/UdpProxy.thy ===== *)
theory UdpProxy
  imports TcpProxy
begin

text \<open>
  \<open>internal/lb/udp_proxy.go\<close>: the proxy of a UDP listener.  \<open>Run\<close> reads datagrams into one buffer
  and starts a goroutine per datagram, which is given a slice of that buffer; a goroutine finds
  the flow of its client in the session cache or makes one, with a connected socket to a backend
  and a goroutine of its own that sends the answers back.

  \<^item> \<open>udp_pc\<close> is where the goroutine of a datagram stands, \<open>udp_flow\<close> a flow with its socket
    (\<open>flOpen\<close>) and its goroutine (\<open>flLive\<close>).  A datagram is the length of its slice: the bytes are
    those of the buffer when they are written.
  \<^item> The session cache is the third-party \<open>go-cache\<close>.  An entry is a flow and whether its time
    still runs; \<open>Get\<close> does not find an entry that has lapsed, \<open>Set\<close> replaces an entry and starts
    its time again without a call of \<open>OnEvicted\<close>.  The janitor removes lapsed entries (\<open>evict\<close>) and
    calls it for them once it has released the lock of the cache (\<open>onEvicted\<close>); until then they
    wait in \<open>upEvicted\<close>.
    Whether \<open>Flush\<close> calls it is the parameter \<open>FE\<close>.
  \<^item> The remote address of a dialed socket is one that the backend's address resolves to, the
    parameter \<open>R\<close>.
  \<^item> \<open>udp_step\<close> is one step of one goroutine, of the janitor, or of the clock, labelled with what
    happens; failures of the network are choices of the step.
\<close>

record udp_flow =
  flClient :: string
  flBackend :: nat
  flRemote :: string
  flOpen :: bool
  flLive :: bool

datatype udp_pc =
    UpArrived string nat
  | UpFound string nat nat
  | UpWritten string nat
  | UpMissed string nat
  | UpPicked string nat nat
  | UpDialing string nat nat
  | UpSpawned string nat nat nat
  | UpStored string nat nat nat
  | UpCounted string nat nat nat
  | UpDone

record 'cb UDPProxy =
  upPool :: "'cb BackendPool"
  upListening :: bool
  upRunning :: bool
  upSessions :: "string \<rightharpoonup> nat \<times> bool"
  upEvicted :: "nat list"
  upFlows :: "udp_flow list"
  upPackets :: "udp_pc list"
  upBuffer :: string
  upToBackend :: "(nat \<times> string) list"
  upToClient :: "(string \<times> string) list"

datatype udp_error = NoUdpPool string | ResolveFailed string | ListenUdpFailed string

definition NewUDPProxy ::
  "(string \<Rightarrow> string option) \<Rightarrow> (string \<Rightarrow> bool) \<Rightarrow> ListenerConfig \<Rightarrow> ('cb, 'c, 'r) LoadBalancer
     \<Rightarrow> udp_error + nat" where
  "NewUDPProxy resolveUDP listenUDP listenerCfg s =
     (case map_of (lbL4Pools s) (lcName listenerCfg) of
        None \<Rightarrow> Inl (NoUdpPool (lcName listenerCfg))
      | Some ref \<Rightarrow>
          (case resolveUDP (lcListenAddr listenerCfg) of
             None \<Rightarrow> Inl (ResolveFailed (lcListenAddr listenerCfg))
           | Some addr \<Rightarrow> if listenUDP addr then Inr ref else Inl (ListenUdpFailed addr)))"

text \<open>The proxy as it is when \<open>Run\<close> starts: the buffer holds 1500 zero bytes.\<close>

definition openUDP :: "'cb BackendPool \<Rightarrow> 'cb UDPProxy" where
  "openUDP pool =
     \<lparr>upPool = pool, upListening = True, upRunning = True, upSessions = Map.empty, upEvicted = [], upFlows = [],
      upPackets = [], upBuffer = replicate 1500 (CHR 0x00), upToBackend = [], upToClient = []\<rparr>"

subsection \<open>The goroutine of a datagram\<close>

definition setPc :: "nat \<Rightarrow> udp_pc \<Rightarrow> 'cb UDPProxy \<Rightarrow> 'cb UDPProxy" where
  "setPc t pc p = p\<lparr>upPackets := (upPackets p)[t := pc]\<rparr>"

text \<open>\<open>ReadFromUDP\<close> overwrites the start of the buffer and cuts a datagram at its end.\<close>

definition received :: "string \<Rightarrow> string \<Rightarrow> 'cb UDPProxy \<Rightarrow> 'cb UDPProxy" where
  "received clientAddr datagram p =
     (let data = take (length (upBuffer p)) datagram; n = length data in
        p\<lparr>upBuffer := data @ drop n (upBuffer p), upPackets := upPackets p @ [UpArrived clientAddr n]\<rparr>)"

text \<open>\<open>sessionCache.Get\<close> and \<open>Set\<close>, and a write to the socket of a flow.\<close>

definition getSession :: "'cb UDPProxy \<Rightarrow> string \<Rightarrow> nat option" where
  "getSession p c = (case upSessions p c of Some (f, True) \<Rightarrow> Some f | _ \<Rightarrow> None)"

definition setSession :: "string \<Rightarrow> nat \<Rightarrow> 'cb UDPProxy \<Rightarrow> 'cb UDPProxy" where
  "setSession c f p = p\<lparr>upSessions := (upSessions p)(c \<mapsto> (f, True))\<rparr>"

definition writeFlow :: "nat \<Rightarrow> nat \<Rightarrow> bool \<Rightarrow> 'cb UDPProxy \<Rightarrow> 'cb UDPProxy \<times> bool" where
  "writeFlow f n net p =
     (if flOpen (upFlows p ! f) \<and> net
      then (p\<lparr>upToBackend := upToBackend p @ [(f, take n (upBuffer p))]\<rparr>, True) else (p, False))"

definition lookupSession :: "nat \<Rightarrow> string \<Rightarrow> nat \<Rightarrow> 'cb UDPProxy \<Rightarrow> 'cb UDPProxy" where
  "lookupSession t c n p =
     (case getSession p c of Some f \<Rightarrow> setPc t (UpFound c n f) p | None \<Rightarrow> setPc t (UpMissed c n) p)"

definition forwardPacket :: "nat \<Rightarrow> string \<Rightarrow> nat \<Rightarrow> nat \<Rightarrow> bool \<Rightarrow> 'cb UDPProxy \<Rightarrow> 'cb UDPProxy" where
  "forwardPacket t c n f net p = setPc t (UpWritten c f) (fst (writeFlow f n net p))"

definition resetTimeout :: "nat \<Rightarrow> string \<Rightarrow> nat \<Rightarrow> 'cb UDPProxy \<Rightarrow> 'cb UDPProxy" where
  "resetTimeout t c f p = setPc t UpDone (setSession c f p)"

text \<open>No session: choosing the backend, and then entering its circuit breaker if it has one.\<close>

definition pickBackend :: "'cb gobreaker \<Rightarrow> nat \<Rightarrow> string \<Rightarrow> nat \<Rightarrow> 'cb UDPProxy \<Rightarrow> 'cb UDPProxy" where
  "pickBackend G t c n p =
     (case GetNextBackend G c (upPool p) of
        (pool, None) \<Rightarrow> setPc t UpDone (p\<lparr>upPool := pool\<rparr>)
      | (pool, Some i) \<Rightarrow> setPc t (UpPicked c n i) (p\<lparr>upPool := pool\<rparr>))"

definition enterUDP :: "'cb gobreaker \<Rightarrow> nat \<Rightarrow> string \<Rightarrow> nat \<Rightarrow> nat \<Rightarrow> 'cb UDPProxy \<Rightarrow> 'cb UDPProxy" where
  "enterUDP G t c n i p =
     (case cb (backends (upPool p) ! i) of
        None \<Rightarrow> setPc t (UpDialing c n i) p
      | Some b \<Rightarrow>
          (case beforeRequest G b of
             Inl e \<Rightarrow> setPc t UpDone p
           | Inr b' \<Rightarrow>
               setPc t (UpDialing c n i)
                 (p\<lparr>upPool := updBackend i (\<lambda>b. b\<lparr>cb := Some b'\<rparr>) (upPool p)\<rparr>)))"

text \<open>
  \<open>proxyUdp\<close>: dial and start the goroutine of the flow, store the session, count the connection,
  write the first datagram and leave the breaker.
\<close>

definition dialUDP ::
  "'cb gobreaker \<Rightarrow> nat \<Rightarrow> string \<Rightarrow> nat \<Rightarrow> nat \<Rightarrow> string option \<Rightarrow> 'cb UDPProxy \<Rightarrow> 'cb UDPProxy" where
  "dialUDP G t c n i dial p =
     (case dial of
        None \<Rightarrow> setPc t UpDone (p\<lparr>upPool := leaveBreaker G i False (upPool p)\<rparr>)
      | Some remote \<Rightarrow>
          setPc t (UpSpawned c n i (length (upFlows p)))
            (p\<lparr>upFlows := upFlows p @
                 [\<lparr>flClient = c, flBackend = i, flRemote = remote, flOpen = True, flLive = True\<rparr>]\<rparr>))"

definition storeSession :: "nat \<Rightarrow> string \<Rightarrow> nat \<Rightarrow> nat \<Rightarrow> nat \<Rightarrow> 'cb UDPProxy \<Rightarrow> 'cb UDPProxy" where
  "storeSession t c n i f p = setPc t (UpStored c n i f) (setSession c f p)"

definition countFlow :: "nat \<Rightarrow> string \<Rightarrow> nat \<Rightarrow> nat \<Rightarrow> nat \<Rightarrow> 'cb UDPProxy \<Rightarrow> 'cb UDPProxy" where
  "countFlow t c n i f p =
     setPc t (UpCounted c n i f) (p\<lparr>upPool := updBackend i IncrementConnections (upPool p)\<rparr>)"

definition firstWrite :: "'cb gobreaker \<Rightarrow> nat \<Rightarrow> nat \<Rightarrow> nat \<Rightarrow> nat \<Rightarrow> bool \<Rightarrow> 'cb UDPProxy \<Rightarrow> 'cb UDPProxy" where
  "firstWrite G t n i f net p =
     (case writeFlow f n net p of
        (p, ok) \<Rightarrow> setPc t UpDone (p\<lparr>upPool := leaveBreaker G i ok (upPool p)\<rparr>))"

subsection \<open>The goroutine of a flow\<close>

text \<open>The backend whose counter goes down in the end: the first one with the remote address.\<close>

primrec findAddr :: "string \<Rightarrow> string list \<Rightarrow> nat option" where
  "findAddr remote [] = None"
| "findAddr remote (a # as) = (if a = remote then Some 0 else map_option Suc (findAddr remote as))"

definition sendReply :: "nat \<Rightarrow> string \<Rightarrow> 'cb UDPProxy \<Rightarrow> 'cb UDPProxy" where
  "sendReply f data p =
     (if upListening p
      then p\<lparr>upToClient := upToClient p @ [(flClient (upFlows p ! f), take 1500 data)]\<rparr> else p)"

definition closeFlow :: "nat \<Rightarrow> 'cb UDPProxy \<Rightarrow> 'cb UDPProxy" where
  "closeFlow f p = p\<lparr>upFlows := (upFlows p)[f := (upFlows p ! f)\<lparr>flOpen := False\<rparr>]\<rparr>"

text \<open>The three deferred calls of \<open>listenForBackend\<close>.\<close>

definition endFlow :: "nat \<Rightarrow> 'cb UDPProxy \<Rightarrow> 'cb UDPProxy" where
  "endFlow f p =
     (let flow = upFlows p ! f in
        p\<lparr>upFlows := (upFlows p)[f := flow\<lparr>flOpen := False, flLive := False\<rparr>],
          upPool :=
            (case findAddr (flRemote flow) (map Addr (backends (upPool p))) of
               None \<Rightarrow> upPool p
             | Some i \<Rightarrow> updBackend i DecrementConnections (upPool p))\<rparr>)"

subsection \<open>Sessions and shutdown\<close>

definition lapse :: "string \<Rightarrow> nat \<Rightarrow> 'cb UDPProxy \<Rightarrow> 'cb UDPProxy" where
  "lapse c f p = p\<lparr>upSessions := (upSessions p)(c \<mapsto> (f, False))\<rparr>"

definition evict :: "string \<Rightarrow> nat \<Rightarrow> 'cb UDPProxy \<Rightarrow> 'cb UDPProxy" where
  "evict c f p = p\<lparr>upSessions := (upSessions p)(c := None), upEvicted := upEvicted p @ [f]\<rparr>"

text \<open>The callback closes the socket of the first flow that waits for it.\<close>

definition onEvicted :: "nat \<Rightarrow> nat list \<Rightarrow> 'cb UDPProxy \<Rightarrow> 'cb UDPProxy" where
  "onEvicted f fs p = closeFlow f (p\<lparr>upEvicted := fs\<rparr>)"

text \<open>The flows that have a session, when \<open>Flush\<close> calls \<open>OnEvicted\<close> for each of them.\<close>

definition inSession :: "'cb UDPProxy \<Rightarrow> nat \<Rightarrow> bool" where
  "inSession p f \<longleftrightarrow>
     (case upSessions p (flClient (upFlows p ! f)) of None \<Rightarrow> False | Some (g, _) \<Rightarrow> g = f)"

definition Shutdown :: "bool \<Rightarrow> 'cb UDPProxy \<Rightarrow> 'cb UDPProxy" where
  "Shutdown flushEvicts p =
     p\<lparr>upListening := False, upSessions := Map.empty,
       upFlows := map (\<lambda>f. if flushEvicts \<and> inSession p f then (upFlows p ! f)\<lparr>flOpen := False\<rparr> else upFlows p ! f)
         [0..<length (upFlows p)]\<rparr>"

subsection \<open>Steps\<close>

datatype udp_event = UReceive string string | UWork | ULapse string | UEvict string | UShutdown

inductive udp_step ::
  "'cb gobreaker \<Rightarrow> (string \<Rightarrow> string \<Rightarrow> bool) \<Rightarrow> bool \<Rightarrow> udp_event \<Rightarrow> 'cb UDPProxy \<Rightarrow> 'cb UDPProxy \<Rightarrow> bool"
  for G R FE where
  receive: "upRunning p \<Longrightarrow> upListening p \<Longrightarrow> udp_step G R FE (UReceive c d) p (received c d p)"
| runEnds: "udp_step G R FE UWork p (p\<lparr>upRunning := False\<rparr>)"
| lookup: "t < length (upPackets p) \<Longrightarrow> upPackets p ! t = UpArrived c n \<Longrightarrow>
    udp_step G R FE UWork p (lookupSession t c n p)"
| forward: "t < length (upPackets p) \<Longrightarrow> upPackets p ! t = UpFound c n f \<Longrightarrow>
    udp_step G R FE UWork p (forwardPacket t c n f net p)"
| reset: "t < length (upPackets p) \<Longrightarrow> upPackets p ! t = UpWritten c f \<Longrightarrow>
    udp_step G R FE UWork p (resetTimeout t c f p)"
| pick: "t < length (upPackets p) \<Longrightarrow> upPackets p ! t = UpMissed c n \<Longrightarrow>
    udp_step G R FE UWork p (pickBackend G t c n p)"
| enter: "t < length (upPackets p) \<Longrightarrow> upPackets p ! t = UpPicked c n i \<Longrightarrow>
    udp_step G R FE UWork p (enterUDP G t c n i p)"
| dial: "t < length (upPackets p) \<Longrightarrow> upPackets p ! t = UpDialing c n i \<Longrightarrow>
    (\<And>r. res = Some r \<Longrightarrow> R (Addr (backends (upPool p) ! i)) r) \<Longrightarrow>
    udp_step G R FE UWork p (dialUDP G t c n i res p)"
| store: "t < length (upPackets p) \<Longrightarrow> upPackets p ! t = UpSpawned c n i f \<Longrightarrow>
    udp_step G R FE UWork p (storeSession t c n i f p)"
| count: "t < length (upPackets p) \<Longrightarrow> upPackets p ! t = UpStored c n i f \<Longrightarrow>
    udp_step G R FE UWork p (countFlow t c n i f p)"
| first: "t < length (upPackets p) \<Longrightarrow> upPackets p ! t = UpCounted c n i f \<Longrightarrow>
    udp_step G R FE UWork p (firstWrite G t n i f net p)"
| reply: "f < length (upFlows p) \<Longrightarrow> flLive (upFlows p ! f) \<Longrightarrow> flOpen (upFlows p ! f) \<Longrightarrow>
    udp_step G R FE UWork p (sendReply f d p)"
| timeout: "f < length (upFlows p) \<Longrightarrow> flLive (upFlows p ! f) \<Longrightarrow>
    getSession p (flClient (upFlows p ! f)) = None \<Longrightarrow> udp_step G R FE UWork p (endFlow f p)"
| readError: "f < length (upFlows p) \<Longrightarrow> flLive (upFlows p ! f) \<Longrightarrow> udp_step G R FE UWork p (endFlow f p)"
| lapse: "upSessions p c = Some (f, True) \<Longrightarrow> udp_step G R FE (ULapse c) p (lapse c f p)"
| evict: "upSessions p c = Some (f, False) \<Longrightarrow> udp_step G R FE (UEvict c) p (evict c f p)"
| evicted: "upEvicted p = f # fs \<Longrightarrow> udp_step G R FE UWork p (onEvicted f fs p)"
| shutdown: "udp_step G R FE UShutdown p (Shutdown FE p)"

inductive udp_run ::
  "'cb gobreaker \<Rightarrow> (string \<Rightarrow> string \<Rightarrow> bool) \<Rightarrow> bool \<Rightarrow> 'cb UDPProxy \<Rightarrow> udp_event list \<Rightarrow> 'cb UDPProxy \<Rightarrow> bool"
  for G R FE p where
  none: "udp_run G R FE p [] p"
| step: "udp_run G R FE p es q \<Longrightarrow> udp_step G R FE e q q' \<Longrightarrow> udp_run G R FE p (es @ [e]) q'"

text \<open>\<open>Wait\<close> waits for the read loop and for the goroutines of the flows.\<close>

definition udpWaitGroup :: "'cb UDPProxy \<Rightarrow> nat" where
  "udpWaitGroup p = (if upRunning p then 1 else 0) + length (filter flLive (upFlows p))"

subsection \<open>Sessions and flows belong to their clients\<close>

primrec pcFlow :: "udp_pc \<Rightarrow> (string \<times> nat) option" where
  "pcFlow (UpArrived c n) = None"
| "pcFlow (UpFound c n f) = Some (c, f)"
| "pcFlow (UpWritten c f) = Some (c, f)"
| "pcFlow (UpMissed c n) = None"
| "pcFlow (UpPicked c n i) = None"
| "pcFlow (UpDialing c n i) = None"
| "pcFlow (UpSpawned c n i f) = Some (c, f)"
| "pcFlow (UpStored c n i f) = Some (c, f)"
| "pcFlow (UpCounted c n i f) = Some (c, f)"
| "pcFlow UpDone = None"

text \<open>The flow \<open>f\<close> exists and is the client's.\<close>

definition ofClient :: "udp_flow list \<Rightarrow> string \<Rightarrow> nat \<Rightarrow> bool" where
  "ofClient fs c f \<longleftrightarrow> f < length fs \<and> flClient (fs ! f) = c"

definition udp_wf :: "'cb UDPProxy \<Rightarrow> bool" where
  "udp_wf p \<longleftrightarrow>
     (\<forall>c e. upSessions p c = Some e \<longrightarrow> ofClient (upFlows p) c (fst e)) \<and>
     (\<forall>pc\<in>set (upPackets p). \<forall>e. pcFlow pc = Some e \<longrightarrow> ofClient (upFlows p) (fst e) (snd e)) \<and>
     (\<forall>e\<in>set (upToBackend p). fst e < length (upFlows p))"

text \<open>Flows are only added; those there are keep what they were made with, and never reopen.\<close>

definition laterFlow :: "udp_flow \<Rightarrow> udp_flow \<Rightarrow> bool" where
  "laterFlow a b \<longleftrightarrow> flClient b = flClient a \<and> flBackend b = flBackend a \<and> flRemote b = flRemote a \<and>
     (flOpen b \<longrightarrow> flOpen a) \<and> (flLive b \<longrightarrow> flLive a)"

lemma laterFlow_simps [simp]:
  "laterFlow a a" "laterFlow a (a\<lparr>flOpen := False\<rparr>)" "laterFlow a (a\<lparr>flOpen := False, flLive := False\<rparr>)"
  by (simp_all add: laterFlow_def)

lemma laterFlow_trans: "laterFlow a b \<Longrightarrow> laterFlow b c \<Longrightarrow> laterFlow a c"
  by (simp add: laterFlow_def)

definition flowsGrow :: "udp_flow list \<Rightarrow> udp_flow list \<Rightarrow> bool" where
  "flowsGrow fs gs \<longleftrightarrow> length fs \<le> length gs \<and> (\<forall>f<length fs. laterFlow (fs ! f) (gs ! f))"

lemma flowsGrow_refl [simp]: "flowsGrow fs fs"
  by (simp add: flowsGrow_def)

lemma flowsGrow_append [simp]: "flowsGrow fs (fs @ gs)"
  by (simp add: flowsGrow_def nth_append)

lemma flowsGrow_update: "laterFlow (fs ! f) fl \<Longrightarrow> flowsGrow fs (fs[f := fl])"
  unfolding flowsGrow_def by (metis laterFlow_simps(1) length_list_update nth_list_update_eq nth_list_update_neq order_refl)

lemma flowsGrow_map: "(\<And>f. laterFlow (fs ! f) (g f)) \<Longrightarrow> flowsGrow fs (map g [0..<length fs])"
  by (simp add: flowsGrow_def)

lemma flowsGrow_trans: "flowsGrow fs gs \<Longrightarrow> flowsGrow gs hs \<Longrightarrow> flowsGrow fs hs"
  unfolding flowsGrow_def by (meson laterFlow_trans less_le_trans order_trans)

lemma flowsGrow_ofClient: "flowsGrow fs gs \<Longrightarrow> ofClient fs c f \<Longrightarrow> ofClient gs c f"
  by (auto simp: flowsGrow_def ofClient_def laterFlow_def)

lemmas udp_op_defs = received_def lookupSession_def forwardPacket_def resetTimeout_def pickBackend_def
  enterUDP_def dialUDP_def storeSession_def countFlow_def firstWrite_def sendReply_def closeFlow_def endFlow_def
  lapse_def evict_def onEvicted_def Shutdown_def setPc_def setSession_def writeFlow_def

lemma udp_step_flows: "udp_step G R FE e p p' \<Longrightarrow> flowsGrow (upFlows p) (upFlows p')"
  by (induction rule: udp_step.induct)
    (auto simp: udp_op_defs Let_def intro: flowsGrow_update flowsGrow_map split: option.splits prod.splits sum.splits)

lemma udp_run_flows: "udp_run G R FE p es p' \<Longrightarrow> flowsGrow (upFlows p) (upFlows p')"
  by (induction rule: udp_run.induct) (auto intro: flowsGrow_trans udp_step_flows)

lemma udp_wf_grow:
  assumes "udp_wf p" and "flowsGrow (upFlows p) (upFlows p')"
    and "\<And>c e. upSessions p' c = Some e \<Longrightarrow> upSessions p c \<noteq> Some e \<Longrightarrow> ofClient (upFlows p') c (fst e)"
    and "\<And>pc e. pc \<in> set (upPackets p') \<Longrightarrow> pc \<notin> set (upPackets p) \<Longrightarrow> pcFlow pc = Some e \<Longrightarrow>
      ofClient (upFlows p') (fst e) (snd e)"
    and "\<And>e. e \<in> set (upToBackend p') \<Longrightarrow> e \<notin> set (upToBackend p) \<Longrightarrow> fst e < length (upFlows p')"
  shows "udp_wf p'"
proof -
  have "length (upFlows p) \<le> length (upFlows p')" using assms(2) by (simp add: flowsGrow_def)
  then show ?thesis
    using assms(1,3-5) flowsGrow_ofClient [OF assms(2)] unfolding udp_wf_def
    by (smt (verit) order_less_le_trans)
qed

lemma udp_wf_pc: "udp_wf p \<Longrightarrow> t < length (upPackets p) \<Longrightarrow> pcFlow (upPackets p ! t) = Some (c, f) \<Longrightarrow> ofClient (upFlows p) c f"
  unfolding udp_wf_def by (metis fst_conv nth_mem snd_conv)

lemma udp_wf_pcs:
  assumes "udp_wf p" and "t < length (upPackets p)"
  shows "upPackets p ! t = UpFound c n f \<Longrightarrow> ofClient (upFlows p) c f"
    and "upPackets p ! t = UpWritten c f \<Longrightarrow> ofClient (upFlows p) c f"
    and "upPackets p ! t = UpSpawned c n i f \<Longrightarrow> ofClient (upFlows p) c f"
    and "upPackets p ! t = UpStored c n i f \<Longrightarrow> ofClient (upFlows p) c f"
    and "upPackets p ! t = UpCounted c n i f \<Longrightarrow> ofClient (upFlows p) c f"
  using udp_wf_pc [OF assms, of c f] by simp_all

lemma udp_wf_session: "udp_wf p \<Longrightarrow> upSessions p c = Some (f, b) \<Longrightarrow> ofClient (upFlows p) c f"
  unfolding udp_wf_def by (metis fst_conv)

lemma udp_wf_getSession: "udp_wf p \<Longrightarrow> getSession p c = Some f \<Longrightarrow> ofClient (upFlows p) c f"
  by (auto simp: getSession_def split: option.splits bool.splits intro: udp_wf_session)

lemma ofClient_new [simp]: "ofClient (fs @ [fl]) c (length fs) \<longleftrightarrow> flClient fl = c"
  by (simp add: ofClient_def)

lemma ofClient_less: "ofClient fs c f \<Longrightarrow> f < length fs"
  by (simp add: ofClient_def)

lemma udp_wf_flow: "udp_wf p \<Longrightarrow> pc \<in> set (upPackets p) \<Longrightarrow> pcFlow pc = Some (c, f) \<Longrightarrow> ofClient (upFlows p) c f"
  unfolding udp_wf_def by (metis fst_conv snd_conv)

text \<open>Where the flow of a packet goroutine comes from.\<close>

definition knownFlow :: "'cb UDPProxy \<Rightarrow> string \<Rightarrow> nat \<Rightarrow> bool" where
  "knownFlow p c f \<longleftrightarrow> (\<exists>pc\<in>set (upPackets p). pcFlow pc = Some (c, f)) \<or> getSession p c = Some f"

lemma knownFlow_wf: "udp_wf p \<Longrightarrow> knownFlow p c f \<Longrightarrow> ofClient (upFlows p) c f"
  unfolding knownFlow_def using udp_wf_flow udp_wf_getSession by blast

lemma knownFlow_pc: "t < length (upPackets p) \<Longrightarrow> pcFlow (upPackets p ! t) = Some (c, f) \<Longrightarrow> knownFlow p c f"
  unfolding knownFlow_def by (metis nth_mem)

lemma knownFlow_old: "pc \<in> set (upPackets p) \<Longrightarrow> pcFlow pc = Some (c, f) \<Longrightarrow> knownFlow p c f"
  unfolding knownFlow_def by blast

lemma udp_step_packets:
  assumes "udp_step G R FE e p p'" and "pc \<in> set (upPackets p')" and "pcFlow pc = Some (c, f)"
  shows "knownFlow p c f \<or> ofClient (upFlows p') c f"
  using assms
proof cases
  case (lookup t c' n)
  then show ?thesis
    using assms(2,3) knownFlow_old [of pc p c f]
    by (auto simp: lookupSession_def setPc_def knownFlow_def dest!: set_list_update_cases split: option.splits)
next
  case (forward t c' n f' net)
  then show ?thesis
    using assms(2,3) knownFlow_old [of pc p c f] knownFlow_pc [of t p c f]
    by (auto simp: forwardPacket_def writeFlow_def setPc_def dest!: set_list_update_cases)
next
  case (pick t c' n)
  then show ?thesis
    using assms(2,3) knownFlow_old [of pc p c f]
    by (auto simp: pickBackend_def setPc_def dest!: set_list_update_cases split: prod.splits option.splits)
next
  case (enter t c' n i)
  then show ?thesis
    using assms(2,3) knownFlow_old [of pc p c f]
    by (auto simp: enterUDP_def setPc_def dest!: set_list_update_cases split: option.splits sum.splits)
next
  case (dial t c' n i res)
  then show ?thesis
    using assms(2,3) knownFlow_old [of pc p c f]
    by (auto simp: dialUDP_def setPc_def dest!: set_list_update_cases split: option.splits)
next
  case (store t c' n i f')
  then show ?thesis
    using assms(2,3) knownFlow_old [of pc p c f] knownFlow_pc [of t p c f]
    by (auto simp: storeSession_def setPc_def setSession_def dest!: set_list_update_cases)
next
  case (count t c' n i f')
  then show ?thesis
    using assms(2,3) knownFlow_old [of pc p c f] knownFlow_pc [of t p c f]
    by (auto simp: countFlow_def setPc_def dest!: set_list_update_cases)
qed (use assms(2,3) knownFlow_old [of pc p c f] in
    \<open>auto simp: udp_op_defs Let_def dest!: set_list_update_cases split: option.splits if_splits\<close>)

lemma udp_step_sessions:
  assumes "udp_step G R FE e p p'" and "upSessions p' c = Some (f, b)"
  shows "knownFlow p c f \<or> (\<exists>b'. upSessions p c = Some (f, b'))"
  using assms
proof cases
  case (reset t c' f')
  then show ?thesis
    using assms(2) knownFlow_pc [of t p c f]
    by (auto simp: resetTimeout_def setPc_def setSession_def split: if_splits)
next
  case (store t c' n i f')
  then show ?thesis
    using assms(2) knownFlow_pc [of t p c f]
    by (auto simp: storeSession_def setPc_def setSession_def split: if_splits)
next
  case (pick t c' n)
  then show ?thesis
    using assms(2) by (auto simp: pickBackend_def setPc_def split: prod.splits option.splits)
next
  case (enter t c' n i)
  then show ?thesis
    using assms(2) by (auto simp: enterUDP_def setPc_def split: option.splits sum.splits)
qed (use assms(2) in \<open>auto simp: udp_op_defs Let_def split: option.splits if_splits prod.splits\<close>)

text \<open>A datagram goes to the flow of its goroutine, and only while the socket is open.\<close>

lemma udp_step_log:
  assumes "udp_step G R FE e p p'"
  shows "upToBackend p' = upToBackend p \<or>
    (\<exists>c f d. upToBackend p' = upToBackend p @ [(f, d)] \<and> flOpen (upFlows p ! f) \<and>
       (\<exists>pc\<in>set (upPackets p). pcFlow pc = Some (c, f)))"
  using assms
proof cases
  case (forward t c n f net)
  then have "UpFound c n f \<in> set (upPackets p)" by (metis nth_mem)
  with forward show ?thesis
    by (force simp: forwardPacket_def writeFlow_def setPc_def)
next
  case (first t c n i f net)
  then have "UpCounted c n i f \<in> set (upPackets p)" by (metis nth_mem)
  with first show ?thesis
    by (force simp: firstWrite_def writeFlow_def setPc_def)
next
  case (pick t c' n)
  then show ?thesis by (auto simp: pickBackend_def setPc_def split: prod.splits option.splits)
next
  case (enter t c' n i)
  then show ?thesis by (auto simp: enterUDP_def setPc_def split: option.splits sum.splits)
qed (auto simp: udp_op_defs Let_def split: option.splits)

lemma udp_wf_step:
  assumes "udp_step G R FE e p p'" and "udp_wf p"
  shows "udp_wf p'"
proof (rule udp_wf_grow [OF assms(2) udp_step_flows [OF assms(1)]])
  note grow = flowsGrow_ofClient [OF udp_step_flows [OF assms(1)]]
  show "ofClient (upFlows p') c (fst d)" if "upSessions p' c = Some d" for c d
    using udp_step_sessions [OF assms(1), of c "fst d" "snd d"] that knownFlow_wf [OF assms(2)]
      udp_wf_session [OF assms(2)] grow by auto
  show "ofClient (upFlows p') (fst d) (snd d)" if "pc \<in> set (upPackets p')" "pcFlow pc = Some d" for pc d
    using udp_step_packets [OF assms(1) that(1), of "fst d" "snd d"] that(2) knownFlow_wf [OF assms(2)] grow by auto
  show "fst d < length (upFlows p')" if "d \<in> set (upToBackend p')" "d \<notin> set (upToBackend p)" for d
  proof -
    have "\<exists>pc c. pc \<in> set (upPackets p) \<and> pcFlow pc = Some (c, fst d)"
      using udp_step_log [OF assms(1)]
    proof
      assume "\<exists>c f x. upToBackend p' = upToBackend p @ [(f, x)] \<and> flOpen (upFlows p ! f) \<and>
        (\<exists>pc\<in>set (upPackets p). pcFlow pc = Some (c, f))"
      then show ?thesis using that by fastforce
    qed (use that in simp)
    then obtain pc c where "pc \<in> set (upPackets p)" "pcFlow pc = Some (c, fst d)" by blast
    then have "ofClient (upFlows p) c (fst d)" by (rule udp_wf_flow [OF assms(2)])
    then show ?thesis using grow ofClient_less by blast
  qed
qed

lemma udp_wf_open: "udp_wf (openUDP pool)"
  by (simp add: udp_wf_def openUDP_def)

lemma udp_wf_run: "udp_run G R FE p es q \<Longrightarrow> udp_wf p \<Longrightarrow> udp_wf q"
  by (induction rule: udp_run.induct) (auto intro: udp_wf_step)

subsection \<open>Affinity of a client with a session\<close>

text \<open>A goroutine that could take the client \<open>c\<close> off the flow \<open>f\<close>.\<close>

primrec strays :: "string \<Rightarrow> nat \<Rightarrow> udp_pc \<Rightarrow> bool" where
  "strays c f (UpArrived c' n) \<longleftrightarrow> False"
| "strays c f (UpFound c' n g) \<longleftrightarrow> c' = c \<and> g \<noteq> f"
| "strays c f (UpWritten c' g) \<longleftrightarrow> c' = c \<and> g \<noteq> f"
| "strays c f (UpMissed c' n) \<longleftrightarrow> c' = c"
| "strays c f (UpPicked c' n i) \<longleftrightarrow> c' = c"
| "strays c f (UpDialing c' n i) \<longleftrightarrow> c' = c"
| "strays c f (UpSpawned c' n i g) \<longleftrightarrow> c' = c"
| "strays c f (UpStored c' n i g) \<longleftrightarrow> c' = c"
| "strays c f (UpCounted c' n i g) \<longleftrightarrow> c' = c"
| "strays c f UpDone \<longleftrightarrow> False"

definition settled :: "string \<Rightarrow> nat \<Rightarrow> 'cb UDPProxy \<Rightarrow> bool" where
  "settled c f p \<longleftrightarrow> upSessions p c = Some (f, True) \<and> (\<forall>pc\<in>set (upPackets p). \<not> strays c f pc)"

lemma settled_pc: "settled c f p \<Longrightarrow> t < length (upPackets p) \<Longrightarrow> \<not> strays c f (upPackets p ! t)"
  by (simp add: settled_def)

lemma settled_getSession: "settled c f p \<Longrightarrow> getSession p c = Some f"
  by (simp add: settled_def getSession_def)

lemma settled_setPc: "settled c f p \<Longrightarrow> \<not> strays c f pc \<Longrightarrow> settled c f (setPc t pc p)"
  by (auto simp: settled_def setPc_def dest!: set_list_update_cases)

lemma settled_frame [simp]:
  "settled c f (p\<lparr>upPool := pool\<rparr>) = settled c f p" "settled c f (p\<lparr>upFlows := fs\<rparr>) = settled c f p"
  "settled c f (p\<lparr>upToBackend := l\<rparr>) = settled c f p" "settled c f (p\<lparr>upToClient := m\<rparr>) = settled c f p"
  "settled c f (p\<lparr>upRunning := b\<rparr>) = settled c f p"
  by (simp_all add: settled_def)

lemma settled_step:
  assumes "udp_step G R FE e p p'" and "settled c f p" and "e \<noteq> ULapse c" and "e \<noteq> UShutdown"
  shows "settled c f p'"
  using assms(1)
proof cases
  case (receive c' d)
  then show ?thesis using assms(2) by (auto simp: settled_def received_def Let_def)
next
  case (lookup t c' n)
  then show ?thesis
    using settled_getSession [OF assms(2)]
    by (cases "c' = c") (auto simp: lookupSession_def split: option.split intro!: settled_setPc [OF assms(2)])
next
  case (forward t c' n g net)
  have "settled c f (fst (writeFlow g n net p))"
    using assms(2) by (simp add: writeFlow_def settled_def)
  then show ?thesis
    using settled_pc [OF assms(2) forward(3)] forward by (auto simp: forwardPacket_def intro: settled_setPc)
next
  case (reset t c' g)
  have "settled c f (setSession c' g p)"
    using settled_pc [OF assms(2) reset(3)] assms(2) reset(4) by (auto simp: setSession_def settled_def)
  then show ?thesis using reset by (auto simp: resetTimeout_def intro: settled_setPc)
next
  case (pick t c' n)
  then show ?thesis
    using settled_pc [OF assms(2) pick(3)] assms(2)
    by (auto simp: pickBackend_def split: prod.split option.split intro!: settled_setPc)
next
  case (enter t c' n i)
  then show ?thesis
    using settled_pc [OF assms(2) enter(3)] assms(2)
    by (auto simp: enterUDP_def split: option.split sum.split intro!: settled_setPc)
next
  case (dial t c' n i res)
  then show ?thesis
    using settled_pc [OF assms(2) dial(3)] assms(2)
    by (auto simp: dialUDP_def split: option.split intro!: settled_setPc)
next
  case (store t c' n i g)
  have "settled c f (setSession c' g p)"
    using settled_pc [OF assms(2) store(3)] assms(2) store(4) by (auto simp: setSession_def settled_def)
  then show ?thesis
    using settled_pc [OF assms(2) store(3)] store by (auto simp: storeSession_def intro: settled_setPc)
next
  case (count t c' n i g)
  then show ?thesis
    using settled_pc [OF assms(2) count(3)] assms(2)
    by (auto simp: countFlow_def intro!: settled_setPc)
next
  case (first t c' n i g net)
  then show ?thesis
    using assms(2) by (auto simp: firstWrite_def writeFlow_def intro!: settled_setPc)
next
  case (lapse c' g)
  then show ?thesis using assms(2,3) by (auto simp: settled_def lapse_def)
next
  case (evict c' g)
  then show ?thesis using assms(2) by (auto simp: settled_def evict_def)
next
  case (evicted g fs)
  then show ?thesis using assms(2) by (simp add: settled_def onEvicted_def closeFlow_def)
qed (use assms(2,4) in \<open>simp_all add: sendReply_def endFlow_def Let_def\<close>)

lemma settled_flow: "settled c f p \<Longrightarrow> pc \<in> set (upPackets p) \<Longrightarrow> pcFlow pc = Some (c, g) \<Longrightarrow> g = f"
  by (cases pc) (auto simp: settled_def dest: bspec)

lemma settled_ofClient: "udp_wf p \<Longrightarrow> settled c f p \<Longrightarrow> ofClient (upFlows p) c f"
  by (auto simp: settled_def intro: udp_wf_session)

lemma flowsGrow_nth: "flowsGrow fs gs \<Longrightarrow> f < length fs \<Longrightarrow> laterFlow (fs ! f) (gs ! f)"
  by (simp add: flowsGrow_def)

text \<open>What a step writes to the client \<open>c\<close>'s backends.\<close>

lemma settled_log_step:
  assumes "udp_step G R FE e p p'" and "udp_wf p" and "settled c f p"
  shows "\<exists>log. upToBackend p' = upToBackend p @ log \<and>
    (\<forall>e\<in>set log. flClient (upFlows p' ! fst e) = c \<longrightarrow> fst e = f \<and> flOpen (upFlows p ! f))"
  using udp_step_log [OF assms(1)]
proof
  assume "\<exists>c' g d. upToBackend p' = upToBackend p @ [(g, d)] \<and> flOpen (upFlows p ! g) \<and>
    (\<exists>pc\<in>set (upPackets p). pcFlow pc = Some (c', g))"
  then obtain c' g d pc where log: "upToBackend p' = upToBackend p @ [(g, d)]" and open_g: "flOpen (upFlows p ! g)"
    and pc: "pc \<in> set (upPackets p)" "pcFlow pc = Some (c', g)" by blast
  have g: "ofClient (upFlows p) c' g" by (rule udp_wf_flow [OF assms(2) pc])
  then have "flClient (upFlows p' ! g) = c'"
    using flowsGrow_ofClient [OF udp_step_flows [OF assms(1)] g] by (simp add: ofClient_def)
  moreover have "c' = c \<Longrightarrow> g = f" using settled_flow [OF assms(3)] pc by blast
  ultimately show ?thesis using log open_g by auto
qed simp

lemma settled_run:
  assumes "udp_run G R FE p es q" and "udp_wf p" and "settled c f p" and "ULapse c \<notin> set es" and "UShutdown \<notin> set es"
  shows "settled c f q \<and> (\<exists>log. upToBackend q = upToBackend p @ log \<and>
    (\<forall>e\<in>set log. flClient (upFlows q ! fst e) = c \<longrightarrow> fst e = f \<and> flOpen (upFlows p ! f)))"
  using assms(1,4,5)
proof induction
  case none
  then show ?case using assms(3) by simp
next
  case (step es q e q')
  then obtain log where q: "settled c f q" and log: "upToBackend q = upToBackend p @ log"
    and old: "\<And>e. e \<in> set log \<Longrightarrow> flClient (upFlows q ! fst e) = c \<Longrightarrow> fst e = f \<and> flOpen (upFlows p ! f)"
    by auto
  have wf: "udp_wf q" by (rule udp_wf_run [OF step.hyps(1) assms(2)])
  note grow = udp_run_flows [OF step.hyps(1)] udp_step_flows [OF step.hyps(2)]
  have f: "f < length (upFlows p)" by (rule ofClient_less [OF settled_ofClient [OF assms(2,3)]])
  have closed: "flOpen (upFlows q ! f) \<Longrightarrow> flOpen (upFlows p ! f)"
    using flowsGrow_nth [OF grow(1) f] by (simp add: laterFlow_def)
  have same: "flClient (upFlows q' ! fst e) = flClient (upFlows q ! fst e)" if "e \<in> set log" for e
  proof -
    have "fst e < length (upFlows q)" using wf that log by (simp add: udp_wf_def)
    then show ?thesis using flowsGrow_nth [OF grow(2)] by (simp add: laterFlow_def)
  qed
  obtain new where new: "upToBackend q' = upToBackend q @ new"
    "\<forall>e\<in>set new. flClient (upFlows q' ! fst e) = c \<longrightarrow> fst e = f \<and> flOpen (upFlows q ! f)"
    using settled_log_step [OF step.hyps(2) wf q] by blast
  have "settled c f q'" using settled_step [OF step.hyps(2) q] step.prems by auto
  moreover have "upToBackend q' = upToBackend p @ (log @ new)" using new log by simp
  moreover have "\<forall>e\<in>set (log @ new). flClient (upFlows q' ! fst e) = c \<longrightarrow> fst e = f \<and> flOpen (upFlows p ! f)"
    by (metis Un_iff set_append old same new(2) closed)
  ultimately show ?case by blast
qed

subsection \<open>The connection counters\<close>

text \<open>Flows made for backend \<open>i\<close>, flows made but not yet counted, ended flows taken off backend \<open>i\<close>.\<close>

primrec uncounted :: "nat \<Rightarrow> udp_pc \<Rightarrow> bool" where
  "uncounted i (UpArrived c n) \<longleftrightarrow> False"
| "uncounted i (UpFound c n f) \<longleftrightarrow> False"
| "uncounted i (UpWritten c f) \<longleftrightarrow> False"
| "uncounted i (UpMissed c n) \<longleftrightarrow> False"
| "uncounted i (UpPicked c n j) \<longleftrightarrow> False"
| "uncounted i (UpDialing c n j) \<longleftrightarrow> False"
| "uncounted i (UpSpawned c n j f) \<longleftrightarrow> i = j"
| "uncounted i (UpStored c n j f) \<longleftrightarrow> i = j"
| "uncounted i (UpCounted c n j f) \<longleftrightarrow> False"
| "uncounted i UpDone \<longleftrightarrow> False"

primrec pcBackend :: "udp_pc \<Rightarrow> nat option" where
  "pcBackend (UpArrived c n) = None"
| "pcBackend (UpFound c n f) = None"
| "pcBackend (UpWritten c f) = None"
| "pcBackend (UpMissed c n) = None"
| "pcBackend (UpPicked c n i) = Some i"
| "pcBackend (UpDialing c n i) = Some i"
| "pcBackend (UpSpawned c n i f) = Some i"
| "pcBackend (UpStored c n i f) = Some i"
| "pcBackend (UpCounted c n i f) = Some i"
| "pcBackend UpDone = None"

definition made :: "nat \<Rightarrow> udp_flow list \<Rightarrow> nat" where
  "made i fs = length (filter (\<lambda>fl. flBackend fl = i) fs)"

definition pending :: "nat \<Rightarrow> udp_pc list \<Rightarrow> nat" where
  "pending i pcs = length (filter (uncounted i) pcs)"

definition returned :: "string list \<Rightarrow> nat \<Rightarrow> udp_flow list \<Rightarrow> nat" where
  "returned A i fs = length (filter (\<lambda>fl. \<not> flLive fl \<and> findAddr (flRemote fl) A = Some i) fs)"

definition udp_count :: "(string \<Rightarrow> string \<Rightarrow> bool) \<Rightarrow> string list \<Rightarrow> 'cb UDPProxy \<Rightarrow> bool" where
  "udp_count R A p \<longleftrightarrow>
     map Addr (backends (upPool p)) = A \<and>
     (\<forall>i<length A. connections (backends (upPool p) ! i) =
        of_nat (made i (upFlows p)) - of_nat (pending i (upPackets p)) - of_nat (returned A i (upFlows p))) \<and>
     (\<forall>pc\<in>set (upPackets p). \<forall>i. pcBackend pc = Some i \<longrightarrow> i < length A) \<and>
     (\<forall>fl\<in>set (upFlows p). flBackend fl < length A \<and> R (A ! flBackend fl) (flRemote fl))"

lemma udp_countI:
  assumes "map Addr (backends (upPool p)) = A"
    and "\<And>i. i < length A \<Longrightarrow> connections (backends (upPool p) ! i) =
        of_nat (made i (upFlows p)) - of_nat (pending i (upPackets p)) - of_nat (returned A i (upFlows p))"
    and "\<And>pc i. pc \<in> set (upPackets p) \<Longrightarrow> pcBackend pc = Some i \<Longrightarrow> i < length A"
    and "\<And>fl. fl \<in> set (upFlows p) \<Longrightarrow> flBackend fl < length A \<and> R (A ! flBackend fl) (flRemote fl)"
  shows "udp_count R A p"
  unfolding udp_count_def using assms by blast

lemma udp_countD:
  assumes "udp_count R A p"
  shows "map Addr (backends (upPool p)) = A"
    and "i < length A \<Longrightarrow> connections (backends (upPool p) ! i) =
        of_nat (made i (upFlows p)) - of_nat (pending i (upPackets p)) - of_nat (returned A i (upFlows p))"
    and "pc \<in> set (upPackets p) \<Longrightarrow> pcBackend pc = Some i \<Longrightarrow> i < length A"
    and "fl \<in> set (upFlows p) \<Longrightarrow> flBackend fl < length A \<and> R (A ! flBackend fl) (flRemote fl)"
  using assms unfolding udp_count_def by blast+

lemma pending_update:
  "t < length pcs \<Longrightarrow>
     pending i (pcs[t := pc]) + (if uncounted i (pcs ! t) then 1 else 0) = pending i pcs + (if uncounted i pc then 1 else 0)"
  unfolding pending_def by (rule filter_update_count)

lemma pending_same: "t < length pcs \<Longrightarrow> uncounted i pc = uncounted i (pcs ! t) \<Longrightarrow> pending i (pcs[t := pc]) = pending i pcs"
  using pending_update [of t pcs i pc] by (simp split: if_splits)

lemma made_update:
  "f < length fs \<Longrightarrow> flBackend fl = flBackend (fs ! f) \<Longrightarrow> made i (fs[f := fl]) = made i fs"
  using filter_update_count [of f fs "\<lambda>fl. flBackend fl = i" fl] by (simp add: made_def)

lemma returned_update:
  "f < length fs \<Longrightarrow>
     returned A i (fs[f := fl]) + (if \<not> flLive (fs ! f) \<and> findAddr (flRemote (fs ! f)) A = Some i then 1 else 0) =
     returned A i fs + (if \<not> flLive fl \<and> findAddr (flRemote fl) A = Some i then 1 else 0)"
  unfolding returned_def by (rule filter_update_count)

text \<open>A step that leaves the counters, the flows and the goroutines that hold one alone.\<close>

lemma udp_count_pc:
  assumes "udp_count R A p" and "t < length (upPackets p)"
    and "\<And>i. uncounted i pc = uncounted i (upPackets p ! t)" and "\<And>i. pcBackend pc = Some i \<Longrightarrow> i < length A"
  shows "udp_count R A (setPc t pc p)"
  using assms by (auto simp: udp_count_def setPc_def pending_same dest!: set_list_update_cases)

lemma udp_count_pool:
  assumes "udp_count R A p" and "map Addr (backends pool) = A"
    and "\<And>i. i < length A \<Longrightarrow> connections (backends pool ! i) = connections (backends (upPool p) ! i)"
  shows "udp_count R A (p\<lparr>upPool := pool\<rparr>)"
  using assms by (simp add: udp_count_def)

lemma udp_count_frame [simp]:
  "udp_count R A (p\<lparr>upToBackend := l\<rparr>) = udp_count R A p" "udp_count R A (p\<lparr>upToClient := m\<rparr>) = udp_count R A p"
  "udp_count R A (p\<lparr>upRunning := b\<rparr>) = udp_count R A p" "udp_count R A (p\<lparr>upSessions := ss\<rparr>) = udp_count R A p"
  "udp_count R A (p\<lparr>upListening := b\<rparr>) = udp_count R A p" "udp_count R A (p\<lparr>upEvicted := fs\<rparr>) = udp_count R A p"
  by (simp_all add: udp_count_def)

lemma updBackend_Addr:
  "(\<And>b. Addr (f b) = Addr b) \<Longrightarrow> map Addr (backends (updBackend i f pool)) = map Addr (backends pool)"
  by (cases "i < poolSize pool") (simp_all add: updBackend_def map_update list_update_same_conv list_update_beyond)

lemma sameBackends_Addr:
  fixes p q :: "'cb BackendPool"
  assumes "sameBackends p q"
  shows "map Addr (backends q) = map Addr (backends p)"
proof -
  from assms have "map (fst \<circ> core) (backends q) = map (fst \<circ> core) (backends p)"
    unfolding map_map [symmetric] by (simp add: sameBackends_def)
  moreover have "fst \<circ> core = (Addr :: 'cb Backend \<Rightarrow> string)" by (simp add: core_def fun_eq_iff)
  ultimately show ?thesis by simp
qed

lemma findAddr_Some: "findAddr a as = Some i \<Longrightarrow> i < length as \<and> as ! i = a"
  by (induction as arbitrary: i) (auto split: if_splits)

lemma findAddr_None: "findAddr a as = None \<longleftrightarrow> a \<notin> set as"
  by (induction as) auto

lemma findAddr_distinct: "distinct as \<Longrightarrow> i < length as \<Longrightarrow> findAddr (as ! i) as = Some i"
  by (metis findAddr_None findAddr_Some nth_eq_iff_index_eq nth_mem not_None_eq)

lemma udp_count_size: "udp_count R A p \<Longrightarrow> poolSize (upPool p) = length A"
  unfolding udp_count_def by (metis length_map)

lemma udp_count_pick:
  assumes "udp_count R A p" and "t < length (upPackets p)" and "upPackets p ! t = UpMissed c n"
  shows "udp_count R A (pickBackend G t c n p)"
proof -
  obtain pool r where pick: "GetNextBackend G c (upPool p) = (pool, r)" by fastforce
  have same: "sameBackends (upPool p) pool" using nb.pick_same [of "upPool p" G c] pick by simp
  have n: "poolSize (upPool p) = length A" by (rule udp_count_size [OF assms(1)])
  have size: "poolSize pool = length A" using sameBackends_size [OF same] n by simp
  have A: "map Addr (backends (upPool p)) = A" using assms(1) by (simp add: udp_count_def)
  have conns: "connections (backends pool ! i) = connections (backends (upPool p) ! i)" if "i < length A" for i
    using sameConns_pick [of "upPool p" G c] pick that n by (simp add: sameConns_def)
  have keep: "udp_count R A (setPc t pc (p\<lparr>upPool := pool\<rparr>))"
    if "\<And>i. \<not> uncounted i pc" "\<And>i. pcBackend pc = Some i \<Longrightarrow> i < length A" for pc
    using that conns sameBackends_Addr [OF same] assms(2,3) A
    by (intro udp_count_pc udp_count_pool [OF assms(1)]) simp_all
  show ?thesis
  proof (cases r)
    case None
    then show ?thesis by (simp add: pickBackend_def pick) (rule keep; simp)
  next
    case (Some i)
    then have "i < length A" using GetNextBackend_index [OF pick [unfolded Some]] size by simp
    then show ?thesis by (simp add: pickBackend_def pick Some) (rule keep; simp)
  qed
qed

lemma udp_count_leave:
  assumes "udp_count R A p"
  shows "udp_count R A (p\<lparr>upPool := leaveBreaker G i ok (upPool p)\<rparr>)"
  by (rule udp_count_pool [OF assms])
    (use assms udp_count_size [OF assms] in \<open>simp_all add: leaveBreaker_def updBackend_Addr updBackend_connections udp_count_def\<close>)

lemma udp_count_pcBackend:
  "udp_count R A p \<Longrightarrow> t < length (upPackets p) \<Longrightarrow> pcBackend (upPackets p ! t) = Some i \<Longrightarrow> i < length A"
  unfolding udp_count_def by (metis nth_mem)

lemma udp_count_enter:
  assumes "udp_count R A p" and "t < length (upPackets p)" and "upPackets p ! t = UpPicked c n i"
  shows "udp_count R A (enterUDP G t c n i p)"
proof -
  have i: "i < length A" using udp_count_pcBackend [OF assms(1,2)] assms(3) by simp
  have free: "udp_count R A (setPc t pc p)" if "pc = UpDone \<or> pc = UpDialing c n i" for pc
    by (rule udp_count_pc [OF assms(1,2)]) (use that assms(3) i in auto)
  have "udp_count R A (p\<lparr>upPool := updBackend i (\<lambda>b. b\<lparr>cb := Some b'\<rparr>) (upPool p)\<rparr>)" for b'
    by (rule udp_count_pool [OF assms(1)])
      (use udp_countD(1) [OF assms(1)] udp_count_size [OF assms(1)] in \<open>simp_all add: updBackend_Addr updBackend_connections\<close>)
  then have "udp_count R A (setPc t (UpDialing c n i) (p\<lparr>upPool := updBackend i (\<lambda>b. b\<lparr>cb := Some b'\<rparr>) (upPool p)\<rparr>))" for b'
    by (rule udp_count_pc) (use assms(2,3) i in simp_all)
  with free show ?thesis by (simp add: enterUDP_def split: option.split sum.split)
qed

lemma udp_count_dial:
  assumes "udp_count R A p" and "t < length (upPackets p)" and "upPackets p ! t = UpDialing c n i"
    and "\<And>r. res = Some r \<Longrightarrow> R (Addr (backends (upPool p) ! i)) r"
  shows "udp_count R A (dialUDP G t c n i res p)"
proof (cases res)
  case None
  then show ?thesis
    by (simp add: dialUDP_def) (rule udp_count_pc [OF udp_count_leave [OF assms(1)]]; use assms(2,3) in simp)
next
  case (Some r)
  have i: "i < length A" using udp_count_pcBackend [OF assms(1,2)] assms(3) by simp
  have "A ! i = Addr (backends (upPool p) ! i)"
    using udp_countD(1) [OF assms(1)] i udp_count_size [OF assms(1)] by (metis nth_map)
  then have R: "R (A ! i) r" using assms(4) [OF Some] by simp
  have up: "pending j ((upPackets p)[t := UpSpawned c n i f]) = pending j (upPackets p) + (if j = i then 1 else 0)" for j f
    using pending_update [OF assms(2), of j "UpSpawned c n i f"] assms(3) by simp
  have flows: "made j (upFlows p @ [fl]) = made j (upFlows p) + (if j = i then 1 else 0)"
    "returned A j (upFlows p @ [fl]) = returned A j (upFlows p)" if "flBackend fl = i" "flLive fl" for j fl
    using that by (auto simp: made_def returned_def)
  let ?q = "dialUDP G t c n i res p"
  have q: "upPool ?q = upPool p" "upPackets ?q = (upPackets p)[t := UpSpawned c n i (length (upFlows p))]"
    "upFlows ?q = upFlows p @ [\<lparr>flClient = c, flBackend = i, flRemote = r, flOpen = True, flLive = True\<rparr>]"
    by (simp_all add: dialUDP_def Some setPc_def)
  show ?thesis
  proof (rule udp_countI, unfold q)
    show "connections (backends (upPool p) ! j) =
        of_nat (made j (upFlows p @ [\<lparr>flClient = c, flBackend = i, flRemote = r, flOpen = True, flLive = True\<rparr>])) -
        of_nat (pending j ((upPackets p)[t := UpSpawned c n i (length (upFlows p))])) -
        of_nat (returned A j (upFlows p @ [\<lparr>flClient = c, flBackend = i, flRemote = r, flOpen = True, flLive = True\<rparr>]))"
      if "j < length A" for j
      using udp_countD(2) [OF assms(1) that] by (simp add: flows up)
    show "j < length A" if "pc \<in> set ((upPackets p)[t := UpSpawned c n i (length (upFlows p))])" "pcBackend pc = Some j" for pc j
      using set_list_update_cases [OF that(1)] that(2) udp_countD(3) [OF assms(1)] i by auto
    show "flBackend fl < length A \<and> R (A ! flBackend fl) (flRemote fl)"
      if "fl \<in> set (upFlows p @ [\<lparr>flClient = c, flBackend = i, flRemote = r, flOpen = True, flLive = True\<rparr>])" for fl
      using that udp_countD(4) [OF assms(1), of fl] i R by (cases "fl \<in> set (upFlows p)") simp_all
  qed (rule udp_countD(1) [OF assms(1)])
qed

lemma udp_count_count:
  assumes "udp_count R A p" and "t < length (upPackets p)" and "upPackets p ! t = UpStored c n i f"
  shows "udp_count R A (countFlow t c n i f p)"
proof -
  have i: "i < length A" using udp_count_pcBackend [OF assms(1,2)] assms(3) by simp
  have down: "pending j (upPackets p) = pending j ((upPackets p)[t := UpCounted c n i f]) + (if j = i then 1 else 0)" for j
    using pending_update [OF assms(2), of j "UpCounted c n i f"] assms(3) by simp
  let ?q = "countFlow t c n i f p"
  have q: "upPool ?q = updBackend i IncrementConnections (upPool p)" "upFlows ?q = upFlows p"
    "upPackets ?q = (upPackets p)[t := UpCounted c n i f]"
    by (simp_all add: countFlow_def setPc_def)
  show ?thesis
  proof (rule udp_countI, unfold q)
    show "connections (backends (updBackend i IncrementConnections (upPool p)) ! j) =
        of_nat (made j (upFlows p)) - of_nat (pending j ((upPackets p)[t := UpCounted c n i f])) -
        of_nat (returned A j (upFlows p))" if "j < length A" for j
      using udp_countD(2) [OF assms(1) that] that udp_count_size [OF assms(1)]
      by (simp add: updBackend_connections frame down)
    show "j < length A" if "pc \<in> set ((upPackets p)[t := UpCounted c n i f])" "pcBackend pc = Some j" for pc j
      using set_list_update_cases [OF that(1)] that(2) udp_countD(3) [OF assms(1)] i by auto
  qed (use udp_countD(1,4) [OF assms(1)] in \<open>simp_all add: updBackend_Addr frame\<close>)
qed

lemma udp_count_first:
  assumes "udp_count R A p" and "t < length (upPackets p)" and "upPackets p ! t = UpCounted c n i f"
  shows "udp_count R A (firstWrite G t n i f net p)"
proof -
  have over: "udp_count R A (setPc t UpDone (q\<lparr>upPool := leaveBreaker G i ok (upPool q)\<rparr>))"
    if "udp_count R A q" "upPackets q = upPackets p" for q ok
    by (rule udp_count_pc [OF udp_count_leave [OF that(1)]]) (use assms(2,3) that(2) in simp_all)
  show ?thesis
    using over [OF assms(1), of False] over [of "p\<lparr>upToBackend := upToBackend p @ [(f, take n (upBuffer p))]\<rparr>" True] assms(1)
    by (simp add: firstWrite_def writeFlow_def)
qed

text \<open>A flow that only closes its socket, and a flow that ends.\<close>

lemma filter_pointwise:
  "length fs = length gs \<Longrightarrow> (\<And>f. f < length fs \<Longrightarrow> P (fs ! f) = P (gs ! f)) \<Longrightarrow>
     length (filter P fs) = length (filter P gs)"
proof (induction fs gs rule: list_induct2)
  case (Cons x xs y ys)
  from Cons.prems [of 0] have "P x = P y" by simp
  moreover from Cons.prems [of "Suc i" for i] have "length (filter P xs) = length (filter P ys)"
    by (intro Cons.IH) simp
  ultimately show ?case by simp
qed simp

lemma udp_count_flows:
  assumes "udp_count R A p" and "flowsGrow (upFlows p) fs" and "length fs = length (upFlows p)"
    and "\<And>f. f < length fs \<Longrightarrow> flLive (fs ! f) = flLive (upFlows p ! f)"
  shows "udp_count R A (p\<lparr>upFlows := fs\<rparr>)"
proof -
  have at: "flBackend (fs ! f) = flBackend (upFlows p ! f)" "flRemote (fs ! f) = flRemote (upFlows p ! f)"
    if "f < length fs" for f
    using flowsGrow_nth [OF assms(2), of f] that assms(3) by (simp_all add: laterFlow_def)
  have count: "length (filter P fs) = length (filter P (upFlows p))"
    if "\<And>f. f < length fs \<Longrightarrow> P (fs ! f) = P (upFlows p ! f)" for P
    using filter_pointwise [of fs "upFlows p" P] assms(3) that by blast
  have same: "made i fs = made i (upFlows p)" for i
    unfolding made_def by (rule count) (simp add: at)
  have "returned A i fs = returned A i (upFlows p)" for i
    unfolding returned_def by (rule count) (simp add: at assms(4))
  note same = same this
  have own: "flBackend fl < length A \<and> R (A ! flBackend fl) (flRemote fl)" if "fl \<in> set fs" for fl
  proof -
    from that obtain f where f: "f < length fs" "fs ! f = fl" unfolding in_set_conv_nth by blast
    have "upFlows p ! f \<in> set (upFlows p)" by (rule nth_mem) (use f(1) assms(3) in simp)
    from udp_countD(4) [OF assms(1) this] show ?thesis unfolding f(2) [symmetric] at [OF f(1)] .
  qed
  have q: "upFlows (p\<lparr>upFlows := fs\<rparr>) = fs" "upPackets (p\<lparr>upFlows := fs\<rparr>) = upPackets p"
    "upPool (p\<lparr>upFlows := fs\<rparr>) = upPool p" by simp_all
  show ?thesis
    by (rule udp_countI; unfold q same) (fact udp_countD [OF assms(1)] own)+
qed

lemma flLive_close: "flLive (fs[f := (fs ! f)\<lparr>flOpen := False\<rparr>] ! g) = flLive (fs ! g)"
  by (cases "g = f"; cases "f < length fs") (simp_all add: list_update_beyond)

lemma udp_count_close: "udp_count R A p \<Longrightarrow> udp_count R A (closeFlow f p)"
  unfolding closeFlow_def
  by (rule udp_count_flows) (simp_all add: flowsGrow_update flLive_close)

lemma udp_count_shutdown:
  assumes "udp_count R A p"
  shows "udp_count R A (Shutdown FE p)"
proof -
  let ?fs = "map (\<lambda>f. if FE \<and> inSession p f then (upFlows p ! f)\<lparr>flOpen := False\<rparr> else upFlows p ! f)
      [0..<length (upFlows p)]"
  have "udp_count R A (p\<lparr>upFlows := ?fs\<rparr>)"
    by (rule udp_count_flows [OF assms]) (auto intro: flowsGrow_map)
  then have "udp_count R A (p\<lparr>upFlows := ?fs, upSessions := Map.empty, upListening := False\<rparr>)" by simp
  moreover have "Shutdown FE p = p\<lparr>upFlows := ?fs, upSessions := Map.empty, upListening := False\<rparr>"
    by (simp add: Shutdown_def)
  ultimately show ?thesis by (simp only:)
qed

lemma udp_count_end:
  assumes "udp_count R A p" and "f < length (upFlows p)" and "flLive (upFlows p ! f)"
  shows "udp_count R A (endFlow f p)"
proof -
  let ?fl = "upFlows p ! f" and ?q = "endFlow f p"
  let ?fs = "(upFlows p)[f := ?fl\<lparr>flOpen := False, flLive := False\<rparr>]"
  have A: "map Addr (backends (upPool p)) = A" by (rule udp_countD(1) [OF assms(1)])
  have size: "poolSize (upPool p) = length A" by (rule udp_count_size [OF assms(1)])
  have q: "upFlows ?q = ?fs" "upPackets ?q = upPackets p"
    "upPool ?q = (case findAddr (flRemote ?fl) A of None \<Rightarrow> upPool p
      | Some i \<Rightarrow> updBackend i DecrementConnections (upPool p))"
    by (simp_all add: endFlow_def Let_def A)
  have made: "made i ?fs = made i (upFlows p)" for i
    using made_update [OF assms(2)] by simp
  have ret: "returned A i ?fs = returned A i (upFlows p) + (if findAddr (flRemote ?fl) A = Some i then 1 else 0)" for i
    using returned_update [OF assms(2), of A i "?fl\<lparr>flOpen := False, flLive := False\<rparr>"] assms(3) by simp
  show ?thesis
  proof (rule udp_countI, unfold q(1,2))
    show "map Addr (backends (upPool ?q)) = A"
      using A by (simp add: q(3) updBackend_Addr frame split: option.split)
    show "connections (backends (upPool ?q) ! i) =
        of_nat (made i ?fs) - of_nat (pending i (upPackets p)) - of_nat (returned A i ?fs)" if "i < length A" for i
      using udp_countD(2) [OF assms(1) that] that
      by (simp add: q(3) made ret updBackend_connections size frame split: option.split)
    show "flBackend fl < length A \<and> R (A ! flBackend fl) (flRemote fl)" if "fl \<in> set ?fs" for fl
      using set_list_update_cases [OF that] udp_countD(4) [OF assms(1)] assms(2) by auto
  qed (rule udp_countD(3) [OF assms(1)])
qed

lemma udp_count_step:
  assumes "udp_step G R FE e p p'" and "udp_count R A p"
  shows "udp_count R A p'"
  using assms(1)
proof cases
  case (receive c d)
  have "udp_count R A (p\<lparr>upPackets := upPackets p @ [UpArrived c n]\<rparr>)" for n
    by (rule udp_countI) (use udp_countD [OF assms(2)] in \<open>auto simp: pending_def\<close>)
  then have "udp_count R A (p\<lparr>upBuffer := b, upPackets := upPackets p @ [UpArrived c n]\<rparr>)" for n b
    by (simp add: udp_count_def)
  then show ?thesis using receive by (simp add: received_def Let_def)
next
  case (lookup t c n)
  then show ?thesis
    by (auto simp: lookupSession_def split: option.split intro!: udp_count_pc [OF assms(2)])
next
  case (forward t c n f net)
  have "udp_count R A (fst (writeFlow f n net p))" using assms(2) by (simp add: writeFlow_def)
  moreover have "upPackets (fst (writeFlow f n net p)) = upPackets p" by (simp add: writeFlow_def)
  ultimately show ?thesis using forward by (auto simp: forwardPacket_def intro!: udp_count_pc)
next
  case (reset t c f)
  have "udp_count R A (setSession c f p)" using assms(2) by (simp add: setSession_def)
  moreover have "upPackets (setSession c f p) = upPackets p" by (simp add: setSession_def)
  ultimately show ?thesis using reset by (auto simp: resetTimeout_def intro!: udp_count_pc)
next
  case (store t c n i f)
  have "udp_count R A (setSession c f p)" using assms(2) by (simp add: setSession_def)
  moreover have "upPackets (setSession c f p) = upPackets p" by (simp add: setSession_def)
  ultimately show ?thesis
    using store udp_count_pcBackend [OF assms(2) store(3)]
    by (auto simp: storeSession_def intro!: udp_count_pc)
next
  case (lapse c f)
  then show ?thesis using assms(2) by (simp add: lapse_def)
next
  case (evict c f)
  then show ?thesis using assms(2) by (simp add: evict_def udp_count_def)
next
  case (evicted f fs)
  then show ?thesis using assms(2) by (simp add: onEvicted_def udp_count_close)
qed (use assms(2) in \<open>simp_all add: udp_count_pick udp_count_enter udp_count_dial udp_count_count udp_count_first
    udp_count_end udp_count_shutdown sendReply_def\<close>)

lemma udp_count_run: "udp_run G R FE p es q \<Longrightarrow> udp_count R A p \<Longrightarrow> udp_count R A q"
  by (induction rule: udp_run.induct) (auto intro: udp_count_step)

lemma udp_count_open:
  assumes "\<forall>b\<in>set (backends pool). connections b = 0"
  shows "udp_count R (map Addr (backends pool)) (openUDP pool)"
  using assms by (auto simp: udp_count_def openUDP_def made_def pending_def returned_def)

subsection \<open>Properties\<close>

text \<open>The live flows of a backend, where every dialed socket has the backend's own address.\<close>

definition liveFlows :: "nat \<Rightarrow> 'cb UDPProxy \<Rightarrow> nat" where
  "liveFlows i p = length (filter (\<lambda>fl. flBackend fl = i \<and> flLive fl) (upFlows p))"

lemma made_split:
  "made i fs = length (filter (\<lambda>fl. flBackend fl = i \<and> flLive fl) fs) +
     length (filter (\<lambda>fl. flBackend fl = i \<and> \<not> flLive fl) fs)"
  by (induction fs) (simp_all add: made_def)

lemma returned_literal:
  assumes "distinct A" and "i < length A" and "\<forall>fl\<in>set fs. flBackend fl < length A \<and> flRemote fl = A ! flBackend fl"
  shows "returned A i fs = length (filter (\<lambda>fl. flBackend fl = i \<and> \<not> flLive fl) fs)"
proof -
  have same: "(\<not> flLive fl \<and> findAddr (flRemote fl) A = Some i) = (flBackend fl = i \<and> \<not> flLive fl)"
    if "fl \<in> set fs" for fl
  proof -
    from bspec [OF assms(3) that] have "findAddr (flRemote fl) A = Some (flBackend fl)"
      using findAddr_distinct [OF assms(1), of "flBackend fl"] by simp
    then show ?thesis by auto
  qed
  show ?thesis unfolding returned_def by (rule arg_cong [OF filter_cong [OF refl same]])
qed

text \<open>
  C8: The counter of a UDP backend whose address is a literal one: in every reachable state it is
  the number of flows to it whose goroutine runs, less those that are made but not counted yet.
\<close>

theorem udp_counters_exact:
  assumes "udp_run G R FE (openUDP pool) es p" and "\<forall>b\<in>set (backends pool). connections b = 0"
    and "distinct (map Addr (backends pool))" and "\<forall>a\<in>Addr ` set (backends pool). \<forall>r. R a r \<longrightarrow> r = a"
    and "i < poolSize pool"
  shows "connections (backends (upPool p) ! i) = of_nat (liveFlows i p) - of_nat (pending i (upPackets p))"
proof -
  let ?A = "map Addr (backends pool)"
  note count = udp_count_run [OF assms(1) udp_count_open [OF assms(2)]]
  have i: "i < length ?A" using assms(5) by simp
  have "flBackend fl < length ?A \<and> flRemote fl = ?A ! flBackend fl" if fl: "fl \<in> set (upFlows p)" for fl
  proof -
    note dialed = udp_countD(4) [OF count fl]
    then have "?A ! flBackend fl \<in> Addr ` set (backends pool)" by (metis nth_mem set_map)
    from bspec [OF assms(4) this] dialed have "flRemote fl = ?A ! flBackend fl" by meson
    then show ?thesis by (intro conjI dialed [THEN conjunct1])
  qed
  then have "\<forall>fl\<in>set (upFlows p). flBackend fl < length ?A \<and> flRemote fl = ?A ! flBackend fl" by (intro ballI)
  note ended = returned_literal [OF assms(3) i this]
  have cancel: "of_nat (a + b) - c - of_nat b = (of_nat a - c :: u64)" for a b c by simp
  show ?thesis
    unfolding udp_countD(2) [OF count i] ended made_split [of i "upFlows p"] liveFlows_def by (rule cancel)
qed

text \<open>
  C33: The counter of a UDP backend whose configured address is a host name never goes down: no
  address it resolves to is the address of a backend of the pool, so every flow that was ever
  counted is still counted.
\<close>

theorem udp_hostname_never_decremented:
  assumes "udp_run G R FE (openUDP pool) es p" and "\<forall>b\<in>set (backends pool). connections b = 0"
    and "\<forall>a\<in>Addr ` set (backends pool). \<forall>r. R a r \<longrightarrow> r \<notin> Addr ` set (backends pool)"
    and "i < poolSize pool"
  shows "connections (backends (upPool p) ! i) =
    of_nat (length (filter (\<lambda>fl. flBackend fl = i) (upFlows p))) - of_nat (pending i (upPackets p))"
proof -
  let ?A = "map Addr (backends pool)"
  note count = udp_count_run [OF assms(1) udp_count_open [OF assms(2)]]
  have i: "i < length ?A" using assms(4) by simp
  have "findAddr (flRemote fl) ?A = None" if fl: "fl \<in> set (upFlows p)" for fl
  proof -
    note dialed = udp_countD(4) [OF count fl]
    then have "?A ! flBackend fl \<in> Addr ` set (backends pool)" by (metis nth_mem set_map)
    with dialed assms(3) show ?thesis unfolding findAddr_None set_map by blast
  qed
  then have "returned ?A i (upFlows p) = 0" by (simp add: returned_def filter_empty_conv)
  with udp_countD(2) [OF count i] show ?thesis by (simp add: made_def)
qed

text \<open>A first datagram, from its receipt to its first write, on a pool of one backend.\<close>

definition udpOne :: "u64 \<Rightarrow> u64 \<Rightarrow> cb_state BackendPool" where
  "udpOne k conns = (samplePool ''round-robin'' [plainBackend ''10.0.0.9:53'' True 1 conns])\<lparr>current := k\<rparr>"

definition flowOf :: "string \<Rightarrow> string \<Rightarrow> udp_flow" where
  "flowOf c remote = \<lparr>flClient = c, flBackend = 0, flRemote = remote, flOpen = True, flLive = True\<rparr>"

definition udpState ::
  "u64 \<Rightarrow> u64 \<Rightarrow> (string \<rightharpoonup> nat \<times> bool) \<Rightarrow> udp_flow list \<Rightarrow> udp_pc list \<Rightarrow> string \<Rightarrow> (nat \<times> string) list
     \<Rightarrow> cb_state UDPProxy" where
  "udpState k n ss fs pcs b out =
     \<lparr>upPool = udpOne k n, upListening = True, upRunning = True, upSessions = ss, upEvicted = [], upFlows = fs, upPackets = pcs,
      upBuffer = b, upToBackend = out, upToClient = []\<rparr>"

lemma udpState_sel [simp]:
  "upPool (udpState k n ss fs pcs b out) = udpOne k n" "upListening (udpState k n ss fs pcs b out)"
  "upRunning (udpState k n ss fs pcs b out)" "upSessions (udpState k n ss fs pcs b out) = ss"
  "upFlows (udpState k n ss fs pcs b out) = fs" "upPackets (udpState k n ss fs pcs b out) = pcs"
  "upBuffer (udpState k n ss fs pcs b out) = b" "upToBackend (udpState k n ss fs pcs b out) = out"
  by (simp_all add: udpState_def)

lemma udpState_upd [simp]:
  "setPc t pc (udpState k n ss fs pcs b out) = udpState k n ss fs (pcs[t := pc]) b out"
  "udpState k n ss fs pcs b out\<lparr>upPool := udpOne k' n'\<rparr> = udpState k' n' ss fs pcs b out"
  "udpState k n ss fs pcs b out\<lparr>upSessions := ss'\<rparr> = udpState k n ss' fs pcs b out"
  "udpState k n ss fs pcs b out\<lparr>upFlows := fs'\<rparr> = udpState k n ss fs' pcs b out"
  "udpState k n ss fs pcs b out\<lparr>upToBackend := out'\<rparr> = udpState k n ss fs pcs b out'"
  "udpState k n ss fs pcs b out\<lparr>upBuffer := b', upPackets := pcs'\<rparr> = udpState k n ss fs pcs' b' out"
  by (simp_all add: udpState_def setPc_def)

definition zeros :: "nat \<Rightarrow> string" where
  "zeros n = replicate n (CHR 0x00)"

lemma openUDP_udpOne: "openUDP (udpOne k n) = udpState k n Map.empty [] [] (zeros 1500) []"
  by (simp add: openUDP_def udpState_def zeros_def)

lemma udpOne_simps [simp]:
  "GetNextBackend simpleBreaker c (udpOne 0 n) = (udpOne 1 n, Some 0)"
  "updBackend 0 IncrementConnections (udpOne k n) = udpOne k (n + 1)"
  "updBackend 0 DecrementConnections (udpOne k n) = udpOne k (n - 1)"
  "leaveBreaker simpleBreaker 0 ok (udpOne k n) = udpOne k n" "poolSize (udpOne k n) = 1"
  "cb (backends (udpOne k n) ! 0) = None" "Addr (backends (udpOne k n) ! 0) = ''10.0.0.9:53''"
  "set (backends (udpOne k n)) = {plainBackend ''10.0.0.9:53'' True 1 n}"
  by (simp_all add: udpOne_def GetNextBackend_def GetNextBackendByRoundRobin_def Let_def samplePool_def
      updBackend_def leaveBreaker_def IncrementConnections_def DecrementConnections_def plainBackend_def available_def IsHealthy_def
      simpleBreaker_def)

lemma udp_run_trans: "udp_run G R FE q fs r \<Longrightarrow> udp_run G R FE p es q \<Longrightarrow> udp_run G R FE p (es @ fs) r"
  by (induction rule: udp_run.induct) (auto simp flip: append_assoc intro: udp_run.step)

lemma udp_run_one: "udp_step G R FE e p q \<Longrightarrow> udp_run G R FE p [e] q"
  using udp_run.step [OF udp_run.none] by fastforce

lemma receive_run:
  "length d \<le> length b \<Longrightarrow>
   udp_run simpleBreaker R FE (udpState k n ss fs pcs b out) [UReceive c d]
     (udpState k n ss fs (pcs @ [UpArrived c (length d)]) (d @ drop (length d) b) out)"
  using udp_step.receive [of "udpState k n ss fs pcs b out" simpleBreaker R FE c d, THEN udp_run_one]
  by (simp add: received_def Let_def)

lemma first_packet_run:
  assumes "R ''10.0.0.9:53'' remote"
  shows "udp_run simpleBreaker R FE (udpState 0 0 Map.empty [] (UpArrived c m # pcs) b [])
     [UWork, UWork, UWork, UWork, UWork, UWork, UWork]
     (udpState 1 1 [c \<mapsto> (0, True)] [flowOf c remote] (UpDone # pcs) b [(0, take m b)])"
proof -
  let ?p = "\<lambda>k n ss fs pc out. udpState k n ss fs (pc # pcs) b out" and ?fs = "[flowOf c remote]"
  have 1: "udp_step simpleBreaker R FE UWork (?p 0 0 Map.empty [] (UpArrived c m) []) (?p 0 0 Map.empty [] (UpMissed c m) [])"
    using udp_step.lookup [of 0 "?p 0 0 Map.empty [] (UpArrived c m) []" c m]
    by (simp add: lookupSession_def getSession_def)
  have 2: "udp_step simpleBreaker R FE UWork (?p 0 0 Map.empty [] (UpMissed c m) []) (?p 1 0 Map.empty [] (UpPicked c m 0) [])"
    using udp_step.pick [of 0 "?p 0 0 Map.empty [] (UpMissed c m) []" c m simpleBreaker]
    by (simp add: pickBackend_def)
  have e: "udp_step simpleBreaker R FE UWork (?p 1 0 Map.empty [] (UpPicked c m 0) []) (?p 1 0 Map.empty [] (UpDialing c m 0) [])"
    using udp_step.enter [of 0 "?p 1 0 Map.empty [] (UpPicked c m 0) []" c m 0 simpleBreaker]
    by (simp add: enterUDP_def)
  have 3: "udp_step simpleBreaker R FE UWork (?p 1 0 Map.empty [] (UpDialing c m 0) []) (?p 1 0 Map.empty ?fs (UpSpawned c m 0 0) [])"
    using udp_step.dial [of 0 "?p 1 0 Map.empty [] (UpDialing c m 0) []" c m 0 "Some remote" R] assms
    by (simp add: dialUDP_def flowOf_def)
  have 4: "udp_step simpleBreaker R FE UWork (?p 1 0 Map.empty ?fs (UpSpawned c m 0 0) [])
      (?p 1 0 [c \<mapsto> (0, True)] ?fs (UpStored c m 0 0) [])"
    using udp_step.store [of 0 "?p 1 0 Map.empty ?fs (UpSpawned c m 0 0) []" c m 0 0]
    by (simp add: storeSession_def setSession_def)
  have 5: "udp_step simpleBreaker R FE UWork (?p 1 0 [c \<mapsto> (0, True)] ?fs (UpStored c m 0 0) [])
      (?p 1 1 [c \<mapsto> (0, True)] ?fs (UpCounted c m 0 0) [])"
    using udp_step.count [of 0 "?p 1 0 [c \<mapsto> (0, True)] ?fs (UpStored c m 0 0) []" c m 0 0]
    by (simp add: countFlow_def)
  have 6: "udp_step simpleBreaker R FE UWork (?p 1 1 [c \<mapsto> (0, True)] ?fs (UpCounted c m 0 0) [])
      (?p 1 1 [c \<mapsto> (0, True)] ?fs UpDone [(0, take m b)])"
    using udp_step.first [of 0 "?p 1 1 [c \<mapsto> (0, True)] ?fs (UpCounted c m 0 0) []" c m 0 0 simpleBreaker R FE True]
    by (simp add: firstWrite_def writeFlow_def flowOf_def)
  show ?thesis
    using udp_run.step [OF udp_run.step [OF udp_run.step [OF udp_run.step [OF udp_run.step [OF udp_run.step
      [OF udp_run_one [OF 1] 2] e] 3] 4] 5] 6] by simp
qed

definition udpMade :: "string \<Rightarrow> string \<Rightarrow> string \<Rightarrow> cb_state UDPProxy" where
  "udpMade c remote d =
     udpState 1 1 [c \<mapsto> (0, True)] [flowOf c remote] [UpDone] (d @ zeros (1500 - length d)) [(0, d)]"

lemma udpMade_run:
  assumes "R ''10.0.0.9:53'' remote" and "length d \<le> 1500"
  shows "udp_run simpleBreaker R FE (openUDP (udpOne 0 0))
     [UReceive c d, UWork, UWork, UWork, UWork, UWork, UWork, UWork] (udpMade c remote d)"
proof -
  let ?b = "d @ drop (length d) (zeros 1500)"
  have "udp_run simpleBreaker R FE (openUDP (udpOne 0 0)) [UReceive c d]
      (udpState 0 0 Map.empty [] ([] @ [UpArrived c (length d)]) ?b [])"
    unfolding openUDP_udpOne by (rule receive_run) (use assms(2) in \<open>simp add: zeros_def\<close>)
  from udp_run_trans [OF first_packet_run [of R remote FE c "length d" "[]" ?b] this [unfolded append_Nil]] assms(1)
  show ?thesis by (simp add: udpMade_def zeros_def)
qed

lemma udpMade_sel:
  "upPool (udpMade c remote d) = udpOne 1 1" "upPackets (udpMade c remote d) = [UpDone]"
  "upFlows (udpMade c remote d) = [flowOf c remote]"
  by (simp_all add: udpMade_def)

lemma udpOne_start: "\<forall>b\<in>set (backends (udpOne 0 0)). connections b = 0" "distinct (map Addr (backends (udpOne 0 0)))"
  "0 < poolSize (udpOne 0 0)" "Addr ` set (backends (udpOne 0 0)) = {''10.0.0.9:53''}"
  by (simp_all add: udpOne_def samplePool_def)

theorem udp_counters_exact_witness:
  "connections (backends (udpOne 1 1) ! 0) =
     of_nat (liveFlows 0 (udpMade ''1.1.1.1:5'' ''10.0.0.9:53'' ''hello'')) - of_nat (pending 0 [UpDone])"
proof -
  have "udp_run simpleBreaker (=) False (openUDP (udpOne 0 0)) [UReceive ''1.1.1.1:5'' ''hello'', UWork, UWork, UWork, UWork, UWork, UWork, UWork]
      (udpMade ''1.1.1.1:5'' ''10.0.0.9:53'' ''hello'')" by (rule udpMade_run) simp_all
  from udp_counters_exact [OF this udpOne_start(1,2) _ udpOne_start(3)] show ?thesis
    by (simp only: udpMade_sel udpOne_start(4)) simp
qed

theorem udp_hostname_never_decremented_witness:
  "connections (backends (udpOne 1 1) ! 0) =
     of_nat (length (filter (\<lambda>fl. flBackend fl = 0) [flowOf ''1.1.1.1:5'' ''192.0.2.1:53''])) - of_nat (pending 0 [UpDone])"
proof -
  have "udp_run simpleBreaker (\<lambda>a r. r = ''192.0.2.1:53'') False (openUDP (udpOne 0 0))
      [UReceive ''1.1.1.1:5'' ''hello'', UWork, UWork, UWork, UWork, UWork, UWork, UWork]
      (udpMade ''1.1.1.1:5'' ''192.0.2.1:53'' ''hello'')" by (rule udpMade_run) simp_all
  from udp_hostname_never_decremented [OF this udpOne_start(1) _ udpOne_start(3)] show ?thesis
    by (simp only: udpMade_sel udpOne_start(4)) simp
qed

text \<open>
  C19: The affinity of UDP sessions.  Let the session of a client with a flow \<open>f\<close> be settled: it
  is in the cache, and no goroutine of an earlier datagram of this client is still making a flow
  or holding another one (as happens when two first datagrams both find no session).  Then while
  the session does not lapse and the proxy is not shut down, every datagram that is written for
  this client goes to \<open>f\<close>, so to one backend, however the goroutines of later datagrams of this
  client and of all other clients interleave.
\<close>

theorem udp_affinity:
  assumes "udp_run G R FE (openUDP pool) es0 p" and "settled c f p" and "udp_run G R FE p es q"
    and "ULapse c \<notin> set es" and "UShutdown \<notin> set es"
  shows "getSession q c = Some f \<and> (\<exists>new. upToBackend q = upToBackend p @ new \<and>
    (\<forall>e\<in>set new. flClient (upFlows q ! fst e) = c \<longrightarrow> fst e = f))"
  using settled_run [OF assms(3) udp_wf_run [OF assms(1) udp_wf_open] assms(2,4,5)] settled_getSession by blast

lemma udpMade_settled: "settled c 0 (udpMade c remote d)"
  by (simp add: settled_def udpMade_def)

text \<open>The next datagram of a client with a session, written to its flow if that is open.\<close>

lemma next_packet_run:
  assumes "4 \<le> length b"
  shows "udp_run simpleBreaker R FE (udpState k n [c \<mapsto> (0, True)] [fl] [UpDone] b out)
     [UReceive c ''more'', UWork, UWork]
     (udpState k n [c \<mapsto> (0, True)] [fl] [UpDone, UpWritten c 0] (''more'' @ drop 4 b)
       (out @ (if flOpen fl then [(0, ''more'')] else [])))"
proof -
  have len: "length ''more'' = 4" by simp
  let ?p = "\<lambda>pc. udpState k n [c \<mapsto> (0, True)] [fl] [UpDone, pc] (''more'' @ drop 4 b)"
  have 1: "udp_run simpleBreaker R FE (udpState k n [c \<mapsto> (0, True)] [fl] [UpDone] b out) [UReceive c ''more'']
      (udpState k n [c \<mapsto> (0, True)] [fl] ([UpDone] @ [UpArrived c 4]) (''more'' @ drop 4 b) out)"
    by (rule receive_run [of "''more''", unfolded len]) (rule assms)
  have 2: "udp_step simpleBreaker R FE UWork (?p (UpArrived c 4) out) (?p (UpFound c 4 0) out)"
    using udp_step.lookup [of 1 "?p (UpArrived c 4) out" c 4] by (simp add: lookupSession_def getSession_def)
  have 3: "udp_step simpleBreaker R FE UWork (?p (UpFound c 4 0) out)
      (?p (UpWritten c 0) (out @ (if flOpen fl then [(0, ''more'')] else [])))"
    using udp_step.forward [of 1 "?p (UpFound c 4 0) out" c 4 0 simpleBreaker R FE True]
    by (simp add: forwardPacket_def writeFlow_def split: if_splits)
  have start: "udp_run simpleBreaker R FE (udpState k n [c \<mapsto> (0, True)] [fl] [UpDone] b out) [UReceive c ''more'']
      (?p (UpArrived c 4) out)" using 1 by simp
  show ?thesis using udp_run.step [OF udp_run.step [OF start 2] 3] by simp
qed

theorem udp_affinity_witness:
  "getSession (udpState 1 1 [''1.1.1.1:5'' \<mapsto> (0, True)] [flowOf ''1.1.1.1:5'' ''10.0.0.9:53''] [UpDone, UpWritten ''1.1.1.1:5'' 0]
      (''more'' @ drop 4 (''hello'' @ zeros 1495)) [(0, ''hello''), (0, ''more'')]) ''1.1.1.1:5'' = Some 0"
proof -
  let ?c = "''1.1.1.1:5''" and ?r = "''10.0.0.9:53''"
  have made: "udp_run simpleBreaker (=) False (openUDP (udpOne 0 0)) [UReceive ?c ''hello'', UWork, UWork, UWork, UWork, UWork, UWork, UWork]
      (udpMade ?c ?r ''hello'')" by (rule udpMade_run) simp_all
  have "udp_run simpleBreaker (=) False (udpMade ?c ?r ''hello'') [UReceive ?c ''more'', UWork, UWork]
      (udpState 1 1 [?c \<mapsto> (0, True)] [flowOf ?c ?r] [UpDone, UpWritten ?c 0]
        (''more'' @ drop 4 (''hello'' @ zeros 1495)) [(0, ''hello''), (0, ''more'')])"
    using next_packet_run [of "''hello'' @ zeros 1495" "(=)" False 1 1 ?c "flowOf ?c ?r" "[(0, ''hello'')]"]
    by (simp add: udpMade_def flowOf_def)
  from udp_affinity [OF made udpMade_settled this] show ?thesis by simp
qed

text \<open>
  C20: A dead session: once the socket of a client's flow is closed, as it is after any read error
  of its goroutine, the session still leads to it, each datagram of the client starts the
  session's time again, and nothing the client sends reaches a backend any more, however many
  healthy backends there are.
\<close>

theorem udp_dead_session:
  assumes "udp_run G R FE (openUDP pool) es0 p" and "settled c f p" and "\<not> flOpen (upFlows p ! f)"
    and "udp_run G R FE p es q" and "ULapse c \<notin> set es" and "UShutdown \<notin> set es"
  shows "getSession q c = Some f \<and> (\<exists>new. upToBackend q = upToBackend p @ new \<and>
    (\<forall>e\<in>set new. flClient (upFlows q ! fst e) \<noteq> c))"
  using settled_run [OF assms(4) udp_wf_run [OF assms(1) udp_wf_open] assms(2,5,6)] settled_getSession assms(3) by blast

text \<open>The flow of \<open>udpMade\<close> after a read error.\<close>

definition deadFlow :: "string \<Rightarrow> string \<Rightarrow> udp_flow" where
  "deadFlow c remote = (flowOf c remote)\<lparr>flOpen := False, flLive := False\<rparr>"

lemma udpDead_run:
  assumes "udp_run simpleBreaker R FE p es (udpMade c ''10.0.0.9:53'' d)"
  shows "udp_run simpleBreaker R FE p (es @ [UWork])
    (udpState 1 0 [c \<mapsto> (0, True)] [deadFlow c ''10.0.0.9:53''] [UpDone] (d @ zeros (1500 - length d)) [(0, d)])"
proof -
  have "map Addr (backends (udpOne k n)) = [''10.0.0.9:53'']" for k n by (simp add: udpOne_def samplePool_def)
  then show ?thesis
    using udp_run.step [OF assms udp_step.readError [of 0]]
    by (simp add: udpMade_def endFlow_def Let_def flowOf_def deadFlow_def udpState_def)
qed

theorem udp_dead_session_witness:
  "getSession (udpState 1 0 [''1.1.1.1:5'' \<mapsto> (0, True)] [deadFlow ''1.1.1.1:5'' ''10.0.0.9:53''] [UpDone, UpWritten ''1.1.1.1:5'' 0]
      (''more'' @ drop 4 (''hello'' @ zeros 1495)) [(0, ''hello'')]) ''1.1.1.1:5'' = Some 0"
proof -
  let ?c = "''1.1.1.1:5''" and ?r = "''10.0.0.9:53''"
  have made: "udp_run simpleBreaker (=) False (openUDP (udpOne 0 0)) [UReceive ?c ''hello'', UWork, UWork, UWork, UWork, UWork, UWork, UWork]
      (udpMade ?c ?r ''hello'')" by (rule udpMade_run) simp_all
  note dead = udpDead_run [OF made]
  have "udp_run simpleBreaker (=) False
      (udpState 1 0 [?c \<mapsto> (0, True)] [deadFlow ?c ?r] [UpDone] (''hello'' @ zeros (1500 - length ''hello'')) [(0, ''hello'')])
      [UReceive ?c ''more'', UWork, UWork]
      (udpState 1 0 [?c \<mapsto> (0, True)] [deadFlow ?c ?r] [UpDone, UpWritten ?c 0]
        (''more'' @ drop 4 (''hello'' @ zeros 1495)) [(0, ''hello'')])"
    using next_packet_run [of "''hello'' @ zeros 1495" "(=)" False 1 0 ?c "deadFlow ?c ?r" "[(0, ''hello'')]"]
    by (simp add: deadFlow_def)
  from udp_dead_session [OF dead _ _ this] show ?thesis by (simp add: settled_def deadFlow_def)
qed

text \<open>The buffer keeps its 1500 bytes.\<close>

lemma udp_buffer_length: "udp_run G R FE p es q \<Longrightarrow> length (upBuffer q) = length (upBuffer p)"
proof (induction rule: udp_run.induct)
  case (step es q e q')
  have "length (upBuffer q') = length (upBuffer q)"
    using step.hyps(2)
  proof cases
    case (receive c d)
    then show ?thesis by (simp add: received_def Let_def)
  next
    case (pick t c n)
    then show ?thesis by (auto simp: pickBackend_def setPc_def split: prod.splits option.splits)
  next
    case (enter t c n i)
    then show ?thesis by (auto simp: enterUDP_def setPc_def split: option.splits sum.splits)
  qed (auto simp: udp_op_defs Let_def split: option.splits)
  with step.IH show ?case by simp
qed simp

text \<open>
  C32: The datagrams share one buffer: while the goroutine of a datagram of \<open>n\<close> bytes has not yet
  written it to the open socket of its client's flow, be it a new flow or one in session, any
  other datagram that arrives overwrites it, and the backend of this client is then sent the
  first \<open>n\<close> bytes of what is in the buffer, which are those of the other datagram if that is at
  least as long.
\<close>

theorem udp_buffer_shared:
  assumes "udp_run G R FE (openUDP pool) es p" and "upRunning p" and "upListening p"
    and "t < length (upPackets p)" and "upPackets p ! t = UpFound c n f \<or> (\<exists>i. upPackets p ! t = UpCounted c n i f)"
    and "flOpen (upFlows p ! f)" and "length d \<le> 1500"
  shows "\<exists>q. udp_run G R FE p [UReceive c' d, UWork] q
    \<and> upToBackend q = upToBackend p @ [(f, take n (d @ drop (length d) (upBuffer p)))]
    \<and> flClient (upFlows q ! f) = c \<and> (n \<le> length d \<longrightarrow> snd (last (upToBackend q)) = take n d)"
proof -
  have len: "length (upBuffer p) = 1500" using udp_buffer_length [OF assms(1)] by (simp add: openUDP_def)
  have "ofClient (upFlows p) c f"
    using assms(5) udp_wf_pcs [OF udp_wf_run [OF assms(1) udp_wf_open] assms(4)] by blast
  then have client: "flClient (upFlows p ! f) = c" by (simp add: ofClient_def)
  let ?p = "received c' d p" and ?data = "take n (d @ drop (length d) (upBuffer p))"
  have got: "udp_run G R FE p [UReceive c' d] ?p" by (rule udp_run_one [OF udp_step.receive [OF assms(2,3)]])
  have p: "upFlows ?p = upFlows p" "upToBackend ?p = upToBackend p" "t < length (upPackets ?p)"
    "upPackets ?p ! t = upPackets p ! t" "upBuffer ?p = d @ drop (length d) (upBuffer p)"
    using assms(4,7) len by (simp_all add: received_def Let_def nth_append)
  have "\<exists>q. udp_step G R FE UWork ?p q \<and> upToBackend q = upToBackend p @ [(f, ?data)] \<and> upFlows q = upFlows p"
    using assms(5)
  proof
    assume "upPackets p ! t = UpFound c n f"
    then have "udp_step G R FE UWork ?p (forwardPacket t c n f True ?p)" by (intro udp_step.forward) (simp_all add: p)
    then show ?thesis
      by (intro exI conjI, assumption) (simp_all add: forwardPacket_def writeFlow_def setPc_def p assms(6))
  next
    assume "\<exists>i. upPackets p ! t = UpCounted c n i f"
    then obtain i where "upPackets p ! t = UpCounted c n i f" by blast
    then have "udp_step G R FE UWork ?p (firstWrite G t n i f True ?p)" by (intro udp_step.first) (simp_all add: p)
    then show ?thesis
      by (intro exI conjI, assumption) (simp_all add: firstWrite_def writeFlow_def setPc_def p assms(6))
  qed
  then obtain q where q: "udp_step G R FE UWork ?p q" "upToBackend q = upToBackend p @ [(f, ?data)]" "upFlows q = upFlows p"
    by blast
  have "udp_run G R FE p [UReceive c' d, UWork] q" using udp_run.step [OF got q(1)] by simp
  with q(2,3) client show ?thesis by (intro exI [of _ q]) auto
qed

text \<open>The second datagram of a client in session, overwritten by one of another client.\<close>

theorem udp_buffer_shared_witness:
  "\<exists>p q. udp_run simpleBreaker (=) False p [UReceive ''2.2.2.2:6'' ''BBBB'', UWork] q
    \<and> upPackets p = [UpDone, UpFound ''1.1.1.1:5'' 4 0] \<and> upToBackend q = [(0, ''hello''), (0, ''BBBB'')]
    \<and> flClient (upFlows q ! 0) = ''1.1.1.1:5''"
proof -
  let ?c = "''1.1.1.1:5''" and ?r = "''10.0.0.9:53''"
  let ?p = "\<lambda>pc. udpState 1 1 [?c \<mapsto> (0, True)] [flowOf ?c ?r] [UpDone, pc] (''more'' @ drop 4 (''hello'' @ zeros 1495)) [(0, ''hello'')]"
  have made: "udp_run simpleBreaker (=) False (openUDP (udpOne 0 0)) [UReceive ?c ''hello'', UWork, UWork, UWork, UWork, UWork, UWork, UWork]
      (udpMade ?c ?r ''hello'')" by (rule udpMade_run) simp_all
  have len: "length ''more'' = 4" by simp
  have "udp_run simpleBreaker (=) False (udpState 1 1 [?c \<mapsto> (0, True)] [flowOf ?c ?r] [UpDone] (''hello'' @ zeros 1495) [(0, ''hello'')])
      [UReceive ?c ''more''] (udpState 1 1 [?c \<mapsto> (0, True)] [flowOf ?c ?r] ([UpDone] @ [UpArrived ?c 4])
        (''more'' @ drop 4 (''hello'' @ zeros 1495)) [(0, ''hello'')])"
    by (rule receive_run [of "''more''", unfolded len]) simp
  then have came: "udp_run simpleBreaker (=) False (udpMade ?c ?r ''hello'') [UReceive ?c ''more''] (?p (UpArrived ?c 4))"
    by (simp add: udpMade_def)
  have found: "udp_step simpleBreaker (=) False UWork (?p (UpArrived ?c 4)) (?p (UpFound ?c 4 0))"
    using udp_step.lookup [of 1 "?p (UpArrived ?c 4)" ?c 4] by (simp add: lookupSession_def getSession_def)
  note run = udp_run_trans [OF udp_run.step [OF came found] made]
  have "\<exists>q. udp_run simpleBreaker (=) False (?p (UpFound ?c 4 0)) [UReceive ''2.2.2.2:6'' ''BBBB'', UWork] q
      \<and> upToBackend q = [(0, ''hello''), (0, ''BBBB'')] \<and> flClient (upFlows q ! 0) = ?c"
    using udp_buffer_shared [OF run, where t = 1 and c = ?c and n = 4 and f = 0 and d = "''BBBB''" and c' = "''2.2.2.2:6''"]
    by (simp add: flowOf_def) blast
  then obtain q where "udp_run simpleBreaker (=) False (?p (UpFound ?c 4 0)) [UReceive ''2.2.2.2:6'' ''BBBB'', UWork] q"
      "upToBackend q = [(0, ''hello''), (0, ''BBBB'')]" "flClient (upFlows q ! 0) = ?c" by blast
  then show ?thesis by (intro exI [of _ "?p (UpFound ?c 4 0)"] exI [of _ q]) simp
qed

end
