(* ===== verification/System.thy ===== *)
theory System
  imports AdminOps UdpProxy
begin

text \<open>
  The balancer as a transition system: requests, reloads (SIGHUP), the edits of the admin API, the
  health checks of the ticker goroutines, the passing of time, and the layer-4 proxies that run on
  pools of the balancer, in any order.  \<open>lb_step\<close> is one operation of the balancer, entered in the
  code under its lock or, for a request, run to its end.  \<open>sys_step\<close> adds the proxies: each was
  started with a pointer to a pool of the table and goes on with that pool, whatever the table
  holds since; one of its steps is one of \<open>tcp_step\<close> or \<open>udp_step\<close> on that pool of the heap.

  The reachable states are coherent with the configuration in force; the pools of the routes are
  never those of a layer-4 proxy, so no connection is counted in them between requests; and each
  of them is looked after by a health-check loop.  The loops of replaced pools are never stopped.
  A rebuild of the table leaves every backend of every route unhealthy until it has been checked.
\<close>

datatype sys_event = EvServe | EvReload | EvEdit | EvCheck | EvElapse | EvStart | EvLayer4

inductive lb_step ::
  "('cb, 'c, 'r) world \<Rightarrow> sys_event \<Rightarrow> ('cb, 'c, 'r) LoadBalancer \<Rightarrow> ('cb, 'c, 'r) LoadBalancer \<Rightarrow> bool"
  for W where
  serve: "lb_step W EvServe s (fst (ServeHTTP W ids net r w s))"
| reload: "lb_step W EvReload s (ReloadConfig W cfg s)"
| addRoute: "AddRoute W route lp s = Inr s' \<Longrightarrow> lb_step W EvEdit s s'"
| deleteRoute: "DeleteRoute W index lp s = Inr s' \<Longrightarrow> lb_step W EvEdit s s'"
| addBackend: "AddBackendToRoute W index b lp s = Inr s' \<Longrightarrow> lb_step W EvEdit s s'"
| deleteBackend: "DeleteBackendFromRoute W index host lp s = Inr s' \<Longrightarrow> lb_step W EvEdit s s'"
| updateWeight: "UpdateBackendWeightInRoute W index host weight lp s = Inr s' \<Longrightarrow> lb_step W EvEdit s s'"
| check: "p \<in> set (healthLoops s) \<Longrightarrow> i < poolSize (poolHeap s ! p) \<Longrightarrow>
    lb_step W EvCheck s (s\<lparr>poolHeap := (poolHeap s)[p := updBackend i (healthCheck up) (poolHeap s ! p)]\<rparr>)"
| elapse: "0 \<le> d \<Longrightarrow>
    lb_step W EvElapse s
      (s\<lparr>lbCache := map_option (cacheAge (wCache W) d) (lbCache s), lbRedis := rdPass (wRedis W) d (lbRedis s)\<rparr>)"

record ('cb, 'c, 'r) system =
  sysLB :: "('cb, 'c, 'r) LoadBalancer"
  sysTcp :: "(nat \<times> 'cb TcpProxy) list"
  sysUdp :: "(nat \<times> 'cb UDPProxy) list"

text \<open>A proxy whose \<open>Run\<close> has been started on a pool of the table.\<close>

definition runTcp :: "nat \<Rightarrow> ('cb, 'c, 'r) system \<Rightarrow> ('cb, 'c, 'r) system" where
  "runTcp ref s = s\<lparr>sysTcp := sysTcp s @ [(ref, openProxy (poolHeap (sysLB s) ! ref))]\<rparr>"

definition runUdp :: "nat \<Rightarrow> ('cb, 'c, 'r) system \<Rightarrow> ('cb, 'c, 'r) system" where
  "runUdp ref s = s\<lparr>sysUdp := sysUdp s @ [(ref, openUDP (poolHeap (sysLB s) ! ref))]\<rparr>"

lemma run_frame [simp]: "sysLB (runTcp ref s) = sysLB s" "sysLB (runUdp ref s) = sysLB s"
  by (simp_all add: runTcp_def runUdp_def)

text \<open>The pool of a proxy is the one on the heap: its own copy is set to that before each step.\<close>

definition setPool :: "nat \<Rightarrow> 'cb BackendPool \<Rightarrow> ('cb, 'c, 'r) LoadBalancer \<Rightarrow> ('cb, 'c, 'r) LoadBalancer" where
  "setPool ref pool s = s\<lparr>poolHeap := (poolHeap s)[ref := pool]\<rparr>"

inductive sys_step ::
  "('cb, 'c, 'r) world \<Rightarrow> sys_event \<Rightarrow> ('cb, 'c, 'r) system \<Rightarrow> ('cb, 'c, 'r) system \<Rightarrow> bool" for W where
  balancer: "lb_step W e (sysLB s) lb \<Longrightarrow> sys_step W e s (s\<lparr>sysLB := lb\<rparr>)"
| startTcp: "NewTcpProxy listen l (sysLB s) = Inr ref \<Longrightarrow> sys_step W EvStart s (runTcp ref s)"
| startUdp: "NewUDPProxy resolveUDP listenUDP l (sysLB s) = Inr ref \<Longrightarrow>
    sys_step W EvStart s (runUdp ref s)"
| tcp: "k < length (sysTcp s) \<Longrightarrow> sysTcp s ! k = (ref, q) \<Longrightarrow>
    tcp_step (wBreaker W) (q\<lparr>tpPool := poolHeap (sysLB s) ! ref\<rparr>) q' \<Longrightarrow>
    sys_step W EvLayer4 s (s\<lparr>sysLB := setPool ref (tpPool q') (sysLB s), sysTcp := (sysTcp s)[k := (ref, q')]\<rparr>)"
| udp: "k < length (sysUdp s) \<Longrightarrow> sysUdp s ! k = (ref, q) \<Longrightarrow>
    udp_step (wBreaker W) R FE e (q\<lparr>upPool := poolHeap (sysLB s) ! ref\<rparr>) q' \<Longrightarrow>
    sys_step W EvLayer4 s (s\<lparr>sysLB := setPool ref (upPool q') (sysLB s), sysUdp := (sysUdp s)[k := (ref, q')]\<rparr>)"

definition sysStart :: "('cb, 'c, 'r) world \<Rightarrow> Config \<Rightarrow> 'r \<Rightarrow> ('cb, 'c, 'r) system" where
  "sysStart W cfg redis = \<lparr>sysLB = NewLoadBalancer W cfg redis, sysTcp = [], sysUdp = []\<rparr>"

inductive sys_run ::
  "('cb, 'c, 'r) world \<Rightarrow> ('cb, 'c, 'r) system \<Rightarrow> sys_event list \<Rightarrow> ('cb, 'c, 'r) system \<Rightarrow> bool" for W s where
  none: "sys_run W s [] s"
| step: "sys_run W s es t \<Longrightarrow> sys_step W e t t' \<Longrightarrow> sys_run W s (es @ [e]) t'"

definition lb_reachable :: "('cb, 'c, 'r) world \<Rightarrow> ('cb, 'c, 'r) LoadBalancer \<Rightarrow> bool" where
  "lb_reachable W lb \<longleftrightarrow> (\<exists>cfg redis es s. sys_run W (sysStart W cfg redis) es s \<and> sysLB s = lb)"

text \<open>\<open>Shutdown\<close> of every running proxy, as the process does it when it is told to stop.\<close>

definition shutdownUdp :: "bool \<Rightarrow> ('cb, 'c, 'r) system \<Rightarrow> ('cb, 'c, 'r) system" where
  "shutdownUdp FE s =
     s\<lparr>sysUdp := map (\<lambda>(ref, q). (ref, Shutdown FE (q\<lparr>upPool := poolHeap (sysLB s) ! ref\<rparr>))) (sysUdp s)\<rparr>"

definition shutdownTcp :: "('cb, 'c, 'r) system \<Rightarrow> ('cb, 'c, 'r) system" where
  "shutdownTcp s =
     s\<lparr>sysTcp := map (\<lambda>(ref, q). (ref, q\<lparr>tpPool := poolHeap (sysLB s) ! ref, tpListening := False\<rparr>)) (sysTcp s)\<rparr>"

lemma shutdown_frame [simp]:
  "sysLB (shutdownUdp FE s) = sysLB s" "sysTcp (shutdownUdp FE s) = sysTcp s"
  "sysLB (shutdownTcp s) = sysLB s" "sysUdp (shutdownTcp s) = sysUdp s"
  by (simp_all add: shutdownUdp_def shutdownTcp_def)

lemma setPool_same: "setPool ref (poolHeap s ! ref) s = s"
  by (simp add: setPool_def)

lemma map_upto_step:
  "k < length xs \<Longrightarrow> (map f (take k xs) @ drop k xs)[k := f (xs ! k)] = map f (take (Suc k) xs) @ drop (Suc k) xs"
  by (simp add: upd_conv_take_nth_drop take_Suc_conv_app_nth Cons_nth_drop_Suc [symmetric] drop_map)

text \<open>They are steps of the proxies, one after the other.\<close>

lemma shutdownTcp_run:
  assumes "sys_run W s0 gs s"
  shows "\<exists>gs. sys_run W s0 gs (shutdownTcp s)"
proof -
  let ?f = "\<lambda>(ref, q). (ref, q\<lparr>tpPool := poolHeap (sysLB s) ! ref, tpListening := False\<rparr>)"
  let ?xs = "sysTcp s"
  let ?s = "\<lambda>k. s\<lparr>sysTcp := map ?f (take k ?xs) @ drop k ?xs\<rparr>"
  have "k \<le> length ?xs \<Longrightarrow> \<exists>gs. sys_run W s0 gs (?s k)" for k
  proof (induction k)
    case 0
    show ?case using assms by auto
  next
    case (Suc k)
    then obtain gs where gs: "sys_run W s0 gs (?s k)" and k: "k < length ?xs" by auto
    obtain ref q where q: "?xs ! k = (ref, q)" by fastforce
    have "sys_step W EvLayer4 (?s k)
        ((?s k)\<lparr>sysLB := setPool ref (poolHeap (sysLB s) ! ref) (sysLB s),
           sysTcp := (map ?f (take k ?xs) @ drop k ?xs)[k := (ref, q\<lparr>tpPool := poolHeap (sysLB s) ! ref, tpListening := False\<rparr>)]\<rparr>)"
      using sys_step.tcp [of k "?s k" ref q W, OF _ _ tcp_step.shutdown] k q by (simp add: nth_append)
    also have "\<dots> = ?s (Suc k)" using map_upto_step [OF k, of ?f] by (simp add: q setPool_same)
    finally show ?case using gs by (blast intro: sys_run.step)
  qed
  from this [of "length ?xs"] show ?thesis by (simp add: shutdownTcp_def)
qed

lemma shutdownUdp_run:
  assumes "sys_run W s0 gs s"
  shows "\<exists>gs. sys_run W s0 gs (shutdownUdp FE s)"
proof -
  let ?f = "\<lambda>(ref, q). (ref, Shutdown FE (q\<lparr>upPool := poolHeap (sysLB s) ! ref\<rparr>))"
  let ?xs = "sysUdp s"
  let ?s = "\<lambda>k. s\<lparr>sysUdp := map ?f (take k ?xs) @ drop k ?xs\<rparr>"
  have "k \<le> length ?xs \<Longrightarrow> \<exists>gs. sys_run W s0 gs (?s k)" for k
  proof (induction k)
    case 0
    show ?case using assms by auto
  next
    case (Suc k)
    then obtain gs where gs: "sys_run W s0 gs (?s k)" and k: "k < length ?xs" by auto
    obtain ref q where q: "?xs ! k = (ref, q)" by fastforce
    have pool: "upPool (Shutdown FE p) = upPool p" for p :: "'a UDPProxy" by (simp add: Shutdown_def)
    have "sys_step W EvLayer4 (?s k)
        ((?s k)\<lparr>sysLB := setPool ref (poolHeap (sysLB s) ! ref) (sysLB s),
           sysUdp := (map ?f (take k ?xs) @ drop k ?xs)[k := (ref, Shutdown FE (q\<lparr>upPool := poolHeap (sysLB s) ! ref\<rparr>))]\<rparr>)"
      using sys_step.udp [of k "?s k" ref q W, OF _ _ udp_step.shutdown [where FE = FE]] k q
      by (simp add: nth_append pool)
    also have "\<dots> = ?s (Suc k)" using map_upto_step [OF k, of ?f] by (simp add: q setPool_same)
    finally show ?case using gs by (blast intro: sys_run.step)
  qed
  from this [of "length ?xs"] show ?thesis by (simp add: shutdownUdp_def)
qed

text \<open>The five edits are one case: a commit.\<close>

lemma lb_step_kinds:
  assumes "lb_step W e s s'"
  obtains (serve) ids net r w where "e = EvServe" "s' = fst (ServeHTTP W ids net r w s)"
  | (reload) cfg where "e = EvReload" "s' = ReloadConfig W cfg s"
  | (commit) lp rs where "e = EvEdit" "s' = commit W lp rs s"
  | (check) p i d where "e = EvCheck" "p \<in> set (healthLoops s)"
      "s' = s\<lparr>poolHeap := (poolHeap s)[p := updBackend i (healthCheck d) (poolHeap s ! p)]\<rparr>"
  | (elapse) d where "e = EvElapse"
      "s' = s\<lparr>lbCache := map_option (cacheAge (wCache W) d) (lbCache s), lbRedis := rdPass (wRedis W) d (lbRedis s)\<rparr>"
  using assms
  by cases
    (blast dest: add_route.run_commit delete_route.run_commit add_backend.run_commit
      delete_backend.run_commit update_weight.run_commit)+

subsection \<open>Invariants\<close>

definition idlePool :: "'cb BackendPool \<Rightarrow> bool" where
  "idlePool p \<longleftrightarrow> (\<forall>b\<in>set (backends p). connections b = 0)"

text \<open>Every pool but those in \<open>H\<close> has all its counters at zero.\<close>

definition idleBut :: "nat set \<Rightarrow> ('cb, 'c, 'r) LoadBalancer \<Rightarrow> bool" where
  "idleBut H s \<longleftrightarrow> (\<forall>i<length (poolHeap s). i \<notin> H \<longrightarrow> idlePool (poolHeap s ! i))"

definition watched :: "('cb, 'c, 'r) LoadBalancer \<Rightarrow> bool" where
  "watched s \<longleftrightarrow>
     (\<forall>rt\<in>set (lbRoutes s). rtPool rt < length (poolHeap s) \<and>
        (backends (poolHeap s ! rtPool rt) \<noteq> [] \<longrightarrow> rtPool rt \<in> set (healthLoops s)))"

text \<open>Pools of the heap that serve no route.\<close>

definition apart :: "nat set \<Rightarrow> ('cb, 'c, 'r) LoadBalancer \<Rightarrow> bool" where
  "apart H s \<longleftrightarrow> (\<forall>ref\<in>H. ref < length (poolHeap s) \<and> ref \<notin> rtPool ` set (lbRoutes s))"

definition l4Refs :: "('cb, 'c, 'r) LoadBalancer \<Rightarrow> nat set" where
  "l4Refs s = snd ` set (lbL4Pools s)"

definition held :: "('cb, 'c, 'r) system \<Rightarrow> nat set" where
  "held s = fst ` set (sysTcp s) \<union> fst ` set (sysUdp s)"

lemma held_balancer [simp]: "held (s\<lparr>sysLB := lb\<rparr>) = held s"
  by (simp add: held_def)

text \<open>The invariants together, for a balancer whose layer-4 proxies hold the pools \<open>H\<close>.\<close>

definition lb_inv :: "('cb, 'c, 'r) world \<Rightarrow> nat set \<Rightarrow> ('cb, 'c, 'r) LoadBalancer \<Rightarrow> bool" where
  "lb_inv W H s \<longleftrightarrow> coherent W s \<and> watched s \<and> idleBut H s \<and> apart (H \<union> l4Refs s) s"

lemma nth_put: "xs[i := x] ! j = (if i = j \<and> i < length xs then x else xs ! j)"
  by (cases "i < length xs") (auto simp: nth_list_update list_update_beyond)

lemma idlePool_conns: "map connections (backends p) = map connections (backends q) \<Longrightarrow> idlePool p = idlePool q"
proof -
  have "idlePool p \<longleftrightarrow> (\<forall>n\<in>set (map connections (backends p)). n = 0)" for p :: "'cb BackendPool"
    by (simp add: idlePool_def)
  then show "map connections (backends p) = map connections (backends q) \<Longrightarrow> ?thesis" by metis
qed

lemma idleBut_cong:
  assumes "length (poolHeap s') = length (poolHeap s)"
    and "\<And>i. i < length (poolHeap s) \<Longrightarrow>
      map connections (backends (poolHeap s' ! i)) = map connections (backends (poolHeap s ! i))"
    and "idleBut H s"
  shows "idleBut H s'"
  using assms(3) unfolding idleBut_def assms(1) by (metis assms(2) idlePool_conns)

lemma idleBut_mono: "idleBut H s \<Longrightarrow> H \<subseteq> H' \<Longrightarrow> idleBut H' s"
  by (auto simp: idleBut_def)

lemma l7Pool_fresh: "b \<in> set (backends (l7Pool W cfg n rc)) \<Longrightarrow> fresh b"
  by (auto simp: l7Pool_def NewL7BackendPool_def buildL7Backends_def collectBackends_in newL7Backend_fresh)

lemma l7Pool_idle: "idlePool (l7Pool W cfg n rc)"
  unfolding idlePool_def by (blast dest: l7Pool_fresh fresh_def [THEN iffD1])

lemma l4Pool_idle: "idlePool (l4Pool W cfg n l)"
  by (auto simp: idlePool_def l4Pool_def NewL4BackendPool_def buildL4Backends_def collectBackends_in Let_def
      SetHealth_frame newL4Backend_def)

lemma allocated_idle: "e \<in> set (allocated W cfg n) \<Longrightarrow> idlePool (fst e)"
  by (auto simp: allocated_def in_set_conv_nth l7Alloc_nth l4Alloc_nth l7Pool_idle l4Pool_idle)

lemma reload_idle: "idleBut H s \<Longrightarrow> idleBut H (reloadConfig_unsafe W ref s)"
  by (auto simp: idleBut_def reload_frame nth_append intro!: allocated_idle nth_mem)

text \<open>The routes of a rebuilt table have pools below those of the layer-4 listeners.\<close>

lemma reload_route_range:
  assumes "sort_contract (wSort W)" and "rt \<in> set (lbRoutes (reloadConfig_unsafe W ref s))"
  shows "length (poolHeap s) \<le> rtPool rt" and "rtPool rt < length (poolHeap s) + length (l7Configs (cfgHeap s ! ref))"
proof -
  have "rt \<in> set (routesAt (length (poolHeap s)) (l7Configs (cfgHeap s ! ref)))"
    using assms(2) sortRoutes_mset [OF assms(1), THEN mset_eq_setD] by (simp add: reloadConfig_unsafe_eq Let_def)
  then show "length (poolHeap s) \<le> rtPool rt" "rtPool rt < length (poolHeap s) + length (l7Configs (cfgHeap s ! ref))"
    by (auto simp: in_routesAt)
qed

lemma reload_l4_range:
  assumes "r \<in> l4Refs (reloadConfig_unsafe W ref s)"
  shows "length (poolHeap s) + length (l7Configs (cfgHeap s ! ref)) \<le> r"
    and "r < length (poolHeap (reloadConfig_unsafe W ref s))"
proof -
  let ?n = "length (poolHeap s) + length (l7Configs (cfgHeap s ! ref))" and ?ls = "l4Configs (cfgHeap s ! ref)"
  obtain e where "e \<in> set (l4Names ?n ?ls [])" "snd e = r"
    using assms by (auto simp: l4Refs_def reloadConfig_unsafe_eq Let_def)
  from l4Names_range [OF this(1)] this(2) have "?n \<le> r \<and> r < ?n + length ?ls" by simp
  then show "?n \<le> r" "r < length (poolHeap (reloadConfig_unsafe W ref s))"
    by (simp_all add: reload_frame allocated_def)
qed

lemma reload_apart:
  assumes "sort_contract (wSort W)" and "\<forall>ref\<in>H. ref < length (poolHeap s)"
  shows "apart (H \<union> l4Refs (reloadConfig_unsafe W ref s)) (reloadConfig_unsafe W ref s)"
  unfolding apart_def
proof (intro ballI conjI)
  let ?s = "reloadConfig_unsafe W ref s"
  fix r assume r: "r \<in> H \<union> l4Refs ?s"
  then show "r < length (poolHeap ?s)"
    using assms(2) reload_l4_range(2) [of r W ref s] by (auto simp: reload_frame)
  show "r \<notin> rtPool ` set (lbRoutes ?s)"
  proof
    assume "r \<in> rtPool ` set (lbRoutes ?s)"
    then obtain rt where "rt \<in> set (lbRoutes ?s)" "rtPool rt = r" by blast
    with reload_route_range [OF assms(1) this(1)] reload_l4_range(1) [of r W ref s] r assms(2) show False by force
  qed
qed

lemma reload_watched:
  assumes "sort_contract (wSort W)"
  shows "watched (reloadConfig_unsafe W ref s)"
  unfolding watched_def
proof (intro ballI conjI impI)
  let ?s = "reloadConfig_unsafe W ref s" and ?cfg = "cfgHeap s ! ref" and ?n = "length (poolHeap s)"
  fix rt assume rt: "rt \<in> set (lbRoutes ?s)"
  note pool = reload_pool [OF assms rt]
  show "rtPool rt < length (poolHeap ?s)" by (rule pool)
  assume "backends (poolHeap ?s ! rtPool rt) \<noteq> []"
  have "rt \<in> set (routesAt ?n (l7Configs ?cfg))"
    using rt sortRoutes_mset [OF assms, THEN mset_eq_setD]
    by (simp add: reloadConfig_unsafe_eq Let_def)
  then obtain j where j: "j < length (l7Configs ?cfg)" "rtPool rt = ?n + j" "rtConfig rt = l7Configs ?cfg ! j"
    by (auto simp: in_routesAt)
  have "allocated W ?cfg ?n ! j = (l7Pool W ?cfg (rtPool rt) (rtConfig rt), True)"
    using j by (simp add: allocated_def nth_append l7Alloc_nth)
  with \<open>backends (poolHeap ?s ! rtPool rt) \<noteq> []\<close> have "rtPool rt \<in> set (healthLoops (grow (allocated W ?cfg ?n) s))"
    unfolding grow_loops using j(1,2) pool(3) by (intro disjI2 exI [of _ j]) (simp add: allocated_def)
  then show "rtPool rt \<in> set (healthLoops ?s)" by (simp add: reloadConfig_unsafe_eq Let_def)
qed

lemma lb_inv_reload:
  assumes "sort_contract (wSort W)" and "ref < length (cfgHeap s)" and "idleBut H s"
    and "\<forall>ref\<in>H. ref < length (poolHeap s)"
  shows "lb_inv W H (reloadConfig_unsafe W ref s)"
  using assms by (simp add: lb_inv_def reload_coherent reload_idle reload_watched reload_apart)

lemma lb_inv_start: "sort_contract (wSort W) \<Longrightarrow> lb_inv W {} (NewLoadBalancer W cfg redis)"
  unfolding NewLoadBalancer_eq
  by (rule lb_inv_reload) (simp_all add: emptyBalancer_def idleBut_def)

text \<open>A change of the heap that the invariants do not see.\<close>

lemma lb_inv_heap:
  fixes s s' :: "('cb, 'c, 'r) LoadBalancer"
  assumes "lb_inv W H s"
    and frame: "cfgHeap s' = cfgHeap s" "lbCfg s' = lbCfg s" "lbRoutes s' = lbRoutes s" "healthLoops s' = healthLoops s"
      "lbL4Pools s' = lbL4Pools s" "length (poolHeap s') = length (poolHeap s)"
    and pools: "\<And>i. i < length (poolHeap s) \<Longrightarrow> i \<notin> H \<Longrightarrow> shape (poolHeap s' ! i) = shape (poolHeap s ! i) \<and>
      map connections (backends (poolHeap s' ! i)) = map connections (backends (poolHeap s ! i))"
  shows "lb_inv W H s'"
proof -
  have out: "rtPool rt < length (poolHeap s) \<and> rtPool rt \<notin> H" if "rt \<in> set (lbRoutes s)" for rt
    using assms(1) that by (auto simp: lb_inv_def coherent_def apart_def)
  have "coherent W s'"
    using assms(1) out pools by (simp add: lb_inv_def coherent_def frame)
  moreover have "backends (poolHeap s' ! rtPool rt) = [] \<longleftrightarrow> backends (poolHeap s ! rtPool rt) = []"
    if "rt \<in> set (lbRoutes s)" for rt
    using pools [of "rtPool rt"] out [OF that] by (metis map_is_Nil_conv)
  then have "watched s'" using assms(1) by (simp add: lb_inv_def watched_def frame)
  moreover have "idleBut H s'"
    using assms(1) pools unfolding lb_inv_def idleBut_def frame(6) by (metis idlePool_conns)
  moreover have "apart (H \<union> l4Refs s') s'"
    using assms(1) by (simp add: lb_inv_def apart_def l4Refs_def frame)
  ultimately show ?thesis by (simp add: lb_inv_def)
qed

lemma stat_conns:
  fixes p q :: "'cb BackendPool"
  shows "stat p = stat q \<Longrightarrow> shape p = shape q \<and> map connections (backends p) = map connections (backends q)"
  by (intro conjI stat_shape stat_connections)

lemma ServeHTTP_pool:
  "length (poolHeap (fst (ServeHTTP W ids net r w s))) = length (poolHeap s)"
  "i < length (poolHeap s) \<Longrightarrow> stat (poolHeap (fst (ServeHTTP W ids net r w s)) ! i) = stat (poolHeap s ! i)"
proof -
  note stats = ServeHTTP_stat [of W ids net r w s]
  show "length (poolHeap (fst (ServeHTTP W ids net r w s))) = length (poolHeap s)"
    using stats by (rule map_eq_imp_length_eq)
  then show "i < length (poolHeap s) \<Longrightarrow> stat (poolHeap (fst (ServeHTTP W ids net r w s)) ! i) = stat (poolHeap s ! i)"
    using map_eq_nth [OF stats, of i] by (simp only:)
qed

lemma check_conns:
  "shape (updBackend i (healthCheck d) p) = shape p \<and>
   map connections (backends (updBackend i (healthCheck d) p)) = map connections (backends p)"
  by (simp add: shape_def updBackend_def healthCheck_eq map_list_update_same SetHealth_frame)

lemma lb_inv_step:
  assumes "sort_contract (wSort W)" and "lb_inv W H s" and "lb_step W e s s'"
  shows "lb_inv W H s'"
  using assms(3)
proof (cases rule: lb_step_kinds)
  case (serve ids net r w)
  show ?thesis
    unfolding serve(2)
    by (rule lb_inv_heap [OF assms(2)])
      (simp_all only: ServeHTTP_frame ServeHTTP_pool(1) stat_conns [OF ServeHTTP_pool(2)] simp_thms)
next
  case (reload cfg)
  show ?thesis
    unfolding reload(2) ReloadConfig_def using assms(1,2)
    by (intro lb_inv_reload) (auto simp: lb_inv_def idleBut_def apart_def)
next
  case (commit lp rs)
  show ?thesis
    unfolding commit(2) commit_def using assms(1,2)
    by (intro lb_inv_reload) (auto simp: lb_inv_def idleBut_def apart_def setRoutes_frame coherent_def)
next
  case (check p i d)
  then show ?thesis
    by (intro lb_inv_heap [OF assms(2)]) (simp_all add: nth_put check_conns)
next
  case (elapse d)
  then show ?thesis by (intro lb_inv_heap [OF assms(2)]) simp_all
qed

text \<open>The layer-4 proxies only touch the pools they hold.\<close>

lemma setPool_frame [simp]:
  "cfgHeap (setPool ref p s) = cfgHeap s" "lbCfg (setPool ref p s) = lbCfg s" "lbRoutes (setPool ref p s) = lbRoutes s"
  "healthLoops (setPool ref p s) = healthLoops s" "lbL4Pools (setPool ref p s) = lbL4Pools s"
  "lbCache (setPool ref p s) = lbCache s" "lbRl (setPool ref p s) = lbRl s"
  "poolHeap (setPool ref p s) = (poolHeap s)[ref := p]"
  by (simp_all add: setPool_def)

lemma lb_inv_setPool: "lb_inv W H s \<Longrightarrow> ref \<in> H \<Longrightarrow> lb_inv W H (setPool ref p s)"
  by (rule lb_inv_heap) (auto simp: nth_put)

lemma lb_inv_more: "lb_inv W H s \<Longrightarrow> ref \<in> l4Refs s \<Longrightarrow> lb_inv W (insert ref H) s"
  by (auto simp: lb_inv_def apart_def intro: idleBut_mono)

lemma NewTcpProxy_ref: "NewTcpProxy listen l s = Inr ref \<Longrightarrow> ref \<in> l4Refs s"
  by (force simp: NewTcpProxy_def l4Refs_def split: option.splits if_splits dest: map_of_SomeD)

lemma NewUDPProxy_ref: "NewUDPProxy resolveUDP listenUDP l s = Inr ref \<Longrightarrow> ref \<in> l4Refs s"
  by (force simp: NewUDPProxy_def l4Refs_def split: option.splits if_splits dest: map_of_SomeD)

lemma held_tcp: "k < length (sysTcp s) \<Longrightarrow> sysTcp s ! k = (ref, q) \<Longrightarrow> ref \<in> held s"
  unfolding held_def by (metis UnI1 fst_conv imageI nth_mem)

lemma held_udp: "k < length (sysUdp s) \<Longrightarrow> sysUdp s ! k = (ref, q) \<Longrightarrow> ref \<in> held s"
  unfolding held_def by (metis UnI2 fst_conv imageI nth_mem)

lemma fst_update: "k < length xs \<Longrightarrow> xs ! k = (ref, q) \<Longrightarrow> map fst (xs[k := (ref, q')]) = map fst xs"
  by (simp add: map_list_update_same)

lemma held_step:
  assumes "sys_step W e s s'"
  shows "held s' = held s \<or> (\<exists>ref\<in>l4Refs (sysLB s). held s' = insert ref (held s) \<and> sysLB s' = sysLB s)"
  using assms
proof cases
  case (tcp k ref q q')
  then have "fst ` set (sysTcp s') = fst ` set (sysTcp s)"
    using fst_update [of k "sysTcp s" ref q q'] by (simp flip: set_map del: map_update)
  with tcp show ?thesis by (simp add: held_def)
next
  case (udp k ref q R FE e' q')
  then have "fst ` set (sysUdp s') = fst ` set (sysUdp s)"
    using fst_update [of k "sysUdp s" ref q q'] by (simp flip: set_map del: map_update)
  with udp show ?thesis by (simp add: held_def)
qed (auto simp: held_def runTcp_def runUdp_def dest!: NewTcpProxy_ref NewUDPProxy_ref)

lemma sys_inv_step:
  assumes "sort_contract (wSort W)" and "lb_inv W (held s) (sysLB s)" and "sys_step W e s s'"
  shows "lb_inv W (held s') (sysLB s')"
proof (cases "held s' = held s")
  case True
  have "lb_inv W (held s) (sysLB s')"
    using assms(3)
  proof cases
    case (balancer lb)
    then show ?thesis using lb_inv_step [OF assms(1,2)] by simp
  next
    case (tcp k ref q q')
    then show ?thesis using lb_inv_setPool [OF assms(2) held_tcp [OF tcp(3,4)]] by simp
  next
    case (udp k ref q R FE e' q')
    then show ?thesis using lb_inv_setPool [OF assms(2) held_udp [OF udp(3,4)]] by simp
  qed (use assms(2) in simp_all)
  then show ?thesis unfolding True .
next
  case False
  then show ?thesis using held_step [OF assms(3)] lb_inv_more [OF assms(2)] by auto
qed

lemma sys_inv_run:
  "sys_run W s es s' \<Longrightarrow> sort_contract (wSort W) \<Longrightarrow> lb_inv W (held s) (sysLB s) \<Longrightarrow> lb_inv W (held s') (sysLB s')"
  by (induction rule: sys_run.induct) (auto intro: sys_inv_step)

lemma sys_inv:
  assumes "sort_contract (wSort W)" and "sys_run W (sysStart W cfg redis) es s"
  shows "lb_inv W (held s) (sysLB s)"
  by (rule sys_inv_run [OF assms(2,1)]) (simp add: sysStart_def held_def lb_inv_start [OF assms(1)])

lemma reachable_inv:
  assumes "sort_contract (wSort W)" and "lb_reachable W s"
  obtains H where "lb_inv W H s"
  using assms(2) sys_inv [OF assms(1)] unfolding lb_reachable_def by blast

lemma lb_reachable_start: "lb_reachable W (NewLoadBalancer W cfg redis)"
  unfolding lb_reachable_def
  by (intro exI [of _ cfg] exI [of _ redis] exI [of _ "[]"] exI [of _ "sysStart W cfg redis"])
    (simp add: sys_run.none sysStart_def)

subsection \<open>Properties\<close>

text \<open>
  C6: Whatever sequence of requests, reloads, admin edits and health checks the balancer goes
  through, beside its layer-4 proxies, the routes it serves are those of the configuration in
  force, each with a pool of its own that has the addresses, weights and strategy the
  configuration gives that route.
\<close>

theorem reachable_coherent:
  assumes "sort_contract (wSort W)" and "lb_reachable W s"
  shows "lbCfg s < length (cfgHeap s)
    \<and> mset (map rtConfig (lbRoutes s)) = mset (l7Configs (cfgHeap s ! lbCfg s))
    \<and> distinct (map rtPool (lbRoutes s))
    \<and> (\<forall>rt\<in>set (lbRoutes s).
         shape (poolHeap s ! rtPool rt) = shape (l7Pool W (cfgHeap s ! lbCfg s) (rtPool rt) (rtConfig rt)))"
  by (rule reachable_inv [OF assms]) (simp add: lb_inv_def coherent_def)

lemma sampleLB_reachable: "lb_reachable sampleWorld sampleLB"
  unfolding sampleLB_def by (rule lb_reachable_start)

theorem reachable_coherent_witness:
  "mset (map rtConfig (lbRoutes sampleLB)) = {# sampleRC ''/'' [\<lparr>bcAddr = ''a'', bcWeight = 1\<rparr>] #}"
  using reachable_coherent [OF _ sampleLB_reachable]
  by (simp add: insertionSort_contract sampleLB_sel l7Configs_def isL7_def)

text \<open>
  C15: In every state the balancer reaches beside its running layer-4 proxies, no such proxy holds
  the pool of a route; between requests no connection is counted as open in any pool that no
  layer-4 proxy holds, so in none of a route; and every route with backends has a health-check
  loop running for the pool it is served from.
\<close>

theorem reachable_idle_watched:
  assumes "sort_contract (wSort W)" and "sys_run W (sysStart W cfg redis) es s"
  shows "(\<forall>rt\<in>set (lbRoutes (sysLB s)). rtPool rt \<notin> fst ` set (sysTcp s) \<union> fst ` set (sysUdp s))
    \<and> (\<forall>i<length (poolHeap (sysLB s)). i \<notin> fst ` set (sysTcp s) \<union> fst ` set (sysUdp s) \<longrightarrow>
         (\<forall>b\<in>set (backends (poolHeap (sysLB s) ! i)). connections b = 0))
    \<and> (\<forall>rt\<in>set (lbRoutes (sysLB s)). \<forall>b\<in>set (backends (poolHeap (sysLB s) ! rtPool rt)). connections b = 0)
    \<and> (\<forall>rt\<in>set (lbRoutes (sysLB s)). backends (poolHeap (sysLB s) ! rtPool rt) \<noteq> [] \<longrightarrow>
         rtPool rt \<in> set (healthLoops (sysLB s)))"
proof -
  note inv = sys_inv [OF assms]
  have out: "rtPool rt \<notin> held s \<and> rtPool rt < length (poolHeap (sysLB s))" if "rt \<in> set (lbRoutes (sysLB s))" for rt
    using inv that by (auto simp: lb_inv_def apart_def coherent_def)
  have idle: "\<forall>b\<in>set (backends (poolHeap (sysLB s) ! i)). connections b = 0"
    if "i < length (poolHeap (sysLB s))" "i \<notin> held s" for i
    using inv that by (simp add: lb_inv_def idleBut_def idlePool_def)
  have "\<forall>b\<in>set (backends (poolHeap (sysLB s) ! rtPool rt)). connections b = 0" if "rt \<in> set (lbRoutes (sysLB s))" for rt
    using out [OF that] idle by blast
  moreover have "watched (sysLB s)" using inv by (simp add: lb_inv_def)
  ultimately show ?thesis using out idle unfolding watched_def held_def by blast
qed

definition tcpWebLB :: "(cb_state, tableCache_state, string \<Rightarrow> int \<times> duration) system" where
  "tcpWebLB = sysStart sampleWorld
     (sampleConfig [sampleListener ''web'' ''http'' [sampleRC ''/'' [\<lparr>bcAddr = ''a'', bcWeight = 1\<rparr>]] [],
        sampleListener ''db'' ''tcp'' [] [\<lparr>bcAddr = ''a'', bcWeight = 1\<rparr>]]) (\<lambda>_. (0, 0))"

lemma tcpWebLB_sel:
  "lbL4Pools (sysLB tcpWebLB) = [(''db'', 1)]" "map rtPool (lbRoutes (sysLB tcpWebLB)) = [0]"
  by (simp_all add: tcpWebLB_def sysStart_def NewLoadBalancer_eq reloadConfig_unsafe_eq Let_def emptyBalancer_def
      l7Configs_def l4Configs_def isL7_def isL4_def sortRoutes_def sortSlice_def insertionSort_def)

text \<open>With a TCP proxy started on the pool of the second listener.\<close>

theorem reachable_idle_watched_witness:
  "\<exists>s. sys_run sampleWorld tcpWebLB [EvStart] s \<and> map fst (sysTcp s) = [1] \<and> map rtPool (lbRoutes (sysLB s)) = [0]
    \<and> list_all (\<lambda>b. connections b = 0) (backends (poolHeap (sysLB s) ! 0))"
proof -
  let ?s = "runTcp 1 tcpWebLB"
  have "NewTcpProxy (\<lambda>_. True) (sampleListener ''db'' ''tcp'' [] []) (sysLB tcpWebLB) = Inr 1"
    by (simp add: NewTcpProxy_def tcpWebLB_sel)
  from sys_run.step [OF sys_run.none sys_step.startTcp [OF this]]
  have run: "sys_run sampleWorld tcpWebLB [EvStart] ?s" by simp
  obtain rt where rt: "lbRoutes (sysLB tcpWebLB) = [rt]" "rtPool rt = 0" using tcpWebLB_sel(2) by auto
  have sorts: "sort_contract (wSort sampleWorld)" by (simp add: insertionSort_contract)
  from reachable_idle_watched [OF sorts run [unfolded tcpWebLB_def]]
  have "\<forall>b\<in>set (backends (poolHeap (sysLB tcpWebLB) ! 0)). connections b = 0"
    unfolding tcpWebLB_def [symmetric] using rt by simp
  moreover have "sysTcp tcpWebLB = []" by (simp add: tcpWebLB_def sysStart_def)
  ultimately show ?thesis using run by (intro exI [of _ ?s]) (simp add: tcpWebLB_sel runTcp_def list_all_iff)
qed

subsection \<open>The outage after a rebuild\<close>

definition dark :: "('cb, 'c, 'r) LoadBalancer \<Rightarrow> bool" where
  "dark s \<longleftrightarrow> (\<forall>rt\<in>set (lbRoutes s). \<forall>b\<in>set (backends (poolHeap s ! rtPool rt)). \<not> healthy b)"

lemma reload_dark: "sort_contract (wSort W) \<Longrightarrow> dark (reloadConfig_unsafe W ref s)"
  by (auto simp: dark_def reload_pool(3) dest: l7Pool_fresh fresh_def [THEN iffD1])

lemma dark_heap:
  assumes "dark s" and "lbRoutes s' = lbRoutes s"
    and "\<And>rt. rt \<in> set (lbRoutes s) \<Longrightarrow>
      map healthy (backends (poolHeap s' ! rtPool rt)) = map healthy (backends (poolHeap s ! rtPool rt))"
  shows "dark s'"
  unfolding dark_def assms(2)
proof (intro ballI)
  fix rt b assume rt: "rt \<in> set (lbRoutes s)" and b: "b \<in> set (backends (poolHeap s' ! rtPool rt))"
  then have "healthy b \<in> set (map healthy (backends (poolHeap s ! rtPool rt)))"
    unfolding assms(3) [OF rt, symmetric] by simp
  with assms(1) rt show "\<not> healthy b" by (auto simp: dark_def)
qed

lemma stat_healthy:
  fixes p q :: "'cb BackendPool"
  assumes "stat p = stat q"
  shows "map healthy (backends p) = map healthy (backends q)"
proof -
  have proj: "map healthy bs = map (\<lambda>(_, h, _, _). h) (map (\<lambda>b. (Addr b, healthy b, Weight b, connections b)) bs)"
    for bs :: "'cb Backend list" by simp
  show ?thesis unfolding proj stat_backends [OF assms] ..
qed

lemma dark_step:
  assumes "sort_contract (wSort W)" and "lb_inv W (held s) (sysLB s)" and "sys_step W e s s'" and "e \<noteq> EvCheck"
    and "dark (sysLB s)"
  shows "dark (sysLB s')"
  using assms(3)
proof cases
  case (balancer lb)
  have "dark lb"
    using balancer(2)
  proof (cases rule: lb_step_kinds)
    case (serve ids net r w)
    have "rtPool rt < length (poolHeap (sysLB s))" if "rt \<in> set (lbRoutes (sysLB s))" for rt
      using assms(2) that by (simp add: lb_inv_def coherent_def)
    then show ?thesis
      unfolding serve(2)
      by (intro dark_heap [OF assms(5)] stat_healthy ServeHTTP_pool(2)) (simp_all add: ServeHTTP_frame)
  next
    case (reload cfg)
    then show ?thesis by (simp add: ReloadConfig_def reload_dark [OF assms(1)])
  next
    case (commit lp rs)
    then show ?thesis by (simp add: commit_def reload_dark [OF assms(1)])
  next
    case (check p i d)
    then show ?thesis using assms(4) by simp
  next
    case (elapse d)
    then show ?thesis using assms(5) by (simp add: dark_def)
  qed
  then show ?thesis using balancer by simp
next
  case (tcp k ref q q')
  then have "ref \<notin> rtPool ` set (lbRoutes (sysLB s))" using assms(2) held_tcp [OF tcp(3,4)] by (auto simp: lb_inv_def apart_def)
  then show ?thesis unfolding tcp by (intro dark_heap [OF assms(5)]) (auto simp: nth_put)
next
  case (udp k ref q R FE e' q')
  then have "ref \<notin> rtPool ` set (lbRoutes (sysLB s))" using assms(2) held_udp [OF udp(3,4)] by (auto simp: lb_inv_def apart_def)
  then show ?thesis unfolding udp by (intro dark_heap [OF assms(5)]) (auto simp: nth_put)
qed (use assms(5) in simp_all)

lemma dark_run:
  "sys_run W s es s' \<Longrightarrow> sort_contract (wSort W) \<Longrightarrow> lb_inv W (held s) (sysLB s) \<Longrightarrow> dark (sysLB s) \<Longrightarrow>
     EvCheck \<notin> set es \<Longrightarrow> dark (sysLB s')"
  by (induction rule: sys_run.induct) (auto intro: dark_step sys_inv_run)

lemma rebuild_dark:
  assumes "sort_contract (wSort W)" and "sys_step W e s s'" and "e \<in> {EvReload, EvEdit}"
  shows "dark (sysLB s')"
  using assms(2)
proof cases
  case (balancer lb)
  have "dark lb"
    using balancer(2)
    by (cases rule: lb_step_kinds) (use assms(1,3) in \<open>auto simp: ReloadConfig_def commit_def reload_dark\<close>)
  then show ?thesis using balancer by simp
qed (use assms(3) in auto)

text \<open>
  C14: A reload of the configuration, and likewise every successful edit through the admin API,
  interrupts the service of the http and https listeners: from then on, whatever else happens,
  until a health check has come back no backend of any route is healthy, and each request that is
  within the limit and has no cached answer is refused, with 503 or, where no route matches, 404.
\<close>

theorem reload_outage:
  assumes "sort_contract (wSort W)" and "sys_run W (sysStart W cfg redis) es0 s0"
    and "sys_step W e s0 s1" and "e \<in> {EvReload, EvEdit}"
    and "sys_run W s1 es s" and "EvCheck \<notin> set es"
    and "limit W (splitHost (rqRemoteAddr r)) (sysLB s) = (lb, True)" and "rwSent w = None"
  shows "(\<forall>rt\<in>set (lbRoutes (sysLB s)). \<forall>b\<in>set (backends (poolHeap (sysLB s) ! rtPool rt)). \<not> healthy b)
    \<and> (case firstMatch r (lbRoutes (sysLB s)) of
         None \<Rightarrow> sentStatus (snd (ServeHTTP W ids net r w (sysLB s))) = 404
       | Some rt \<Rightarrow> cacheLookup (wCache W) (lbCache (sysLB s)) r = None \<longrightarrow>
           sentStatus (snd (ServeHTTP W ids net r w (sysLB s))) = 503)"
proof -
  let ?s = "sysLB s" and ?w = "withRequestID ids w"
  have "lb_inv W (held s1) (sysLB s1)" by (rule sys_inv_step [OF assms(1) sys_inv [OF assms(1,2)] assms(3)])
  from dark_run [OF assms(5,1) this rebuild_dark [OF assms(1,3,4)] assms(6)] have dark: "dark ?s" .
  have sent: "rwSent ?w = None" using assms(8) by (simp add: withRequestID_def)
  have lb: "lbRoutes lb = lbRoutes ?s" "poolHeap lb = poolHeap ?s" "lbCache lb = lbCache ?s"
    using assms(7) limit_frame [of W "splitHost (rqRemoteAddr r)" ?s] by simp_all
  show ?thesis
  proof (cases "firstMatch r (lbRoutes ?s)")
    case None
    with dark show ?thesis by (simp add: ServeHTTP_def assms(7) lb httpError_status [OF sent] dark_def)
  next
    case (Some rt)
    then have "rt \<in> set (lbRoutes ?s)" by (metis firstMatch_find find_Some_iff nth_mem)
    then have none: "\<forall>b\<in>set (backends (poolHeap ?s ! rtPool rt)). \<not> available (wBreaker W) b"
      using dark by (auto simp: dark_def available_def IsHealthy_def)
    show ?thesis
      using dark no_backend_status [OF none _ sent, of "wCache W" "lbCache ?s" r net]
      by (simp add: ServeHTTP_def assms(7) lb Some serveRoute_def split_beta Let_def dark_def)
  qed
qed

theorem reload_outage_witness:
  "\<exists>s1. sys_step sampleWorld EvReload tcpWebLB s1
    \<and> sentStatus (snd (ServeHTTP sampleWorld [0, 1, 2, 3, 4, 5] (\<lambda>_. RtResponse 200 [] []) (sampleGet ''h'' ''/p'' [])
        newWriter (sysLB s1))) \<in> {404, 503}"
proof -
  let ?s1 = "tcpWebLB\<lparr>sysLB := ReloadConfig sampleWorld (sampleConfig []) (sysLB tcpWebLB)\<rparr>"
  have sorts: "sort_contract (wSort sampleWorld)" by (simp add: insertionSort_contract)
  have reload: "sys_step sampleWorld EvReload tcpWebLB ?s1" by (rule sys_step.balancer [OF lb_step.reload])
  have lim: "limit sampleWorld ip (sysLB ?s1) = (sysLB ?s1, True)" for ip
    by (simp add: limit_def ReloadConfig_def reload_frame tcpWebLB_def sysStart_def NewLoadBalancer_eq emptyBalancer_def
        initialLimiter_def isL7_def)
  have cache: "lbCache (sysLB ?s1) = None"
    by (simp add: ReloadConfig_def reload_frame tcpWebLB_def sysStart_def NewLoadBalancer_eq emptyBalancer_def
        initialCache_def isL7_def)
  from reload_outage [OF sorts sys_run.none reload [unfolded tcpWebLB_def] _ sys_run.none _ lim [unfolded tcpWebLB_def] newWriter_sel(2),
      where r = "sampleGet ''h'' ''/p'' []" and ids = "[0, 1, 2, 3, 4, 5]" and net = "\<lambda>_. RtResponse 200 [] []",
      folded tcpWebLB_def]
  show ?thesis
    using reload cache by (intro exI [of _ ?s1]) (auto simp: cacheLookup_def split: option.splits)
qed

text \<open>The loops of a build, and that none is ever stopped.\<close>

lemma newPool_loops: "prefix (healthLoops s) (healthLoops (newPool p c s))"
  by (simp add: newPool_def)

lemma grow_loops_prefix: "prefix (healthLoops s) (healthLoops (grow ps s))"
proof (induction ps arbitrary: s)
  case (Cons e ps)
  obtain p c where e: "e = (p, c)" by fastforce
  show ?case
    unfolding e grow_simps by (rule prefix_order.trans [OF newPool_loops Cons.IH])
qed simp

lemma reload_loops_prefix: "prefix (healthLoops s) (healthLoops (reloadConfig_unsafe W ref s))"
  by (simp add: reloadConfig_unsafe_eq Let_def grow_loops_prefix)

lemma reload_new_loop:
  assumes "sort_contract (wSort W)" and "rt \<in> set (lbRoutes (reloadConfig_unsafe W ref s))"
    and "backends (poolHeap (reloadConfig_unsafe W ref s) ! rtPool rt) \<noteq> []"
  shows "rtPool rt \<in> set (healthLoops (reloadConfig_unsafe W ref s))" and "length (poolHeap s) \<le> rtPool rt"
  using reload_watched [OF assms(1), of ref s] reload_pool(1) [OF assms(1,2)] assms(2,3)
  by (auto simp: watched_def)

text \<open>
  A rebuild never stops a health-check loop: the loops of the replaced pools go on, and a
  rebuild that has a route with backends adds at least one, so that they accumulate.
\<close>

theorem reload_leaks_loops:
  assumes "sort_contract (wSort W)" and "\<forall>i\<in>set (healthLoops s). i < length (poolHeap s)"
    and "rt \<in> set (lbRoutes (reloadConfig_unsafe W ref s))"
    and "backends (poolHeap (reloadConfig_unsafe W ref s) ! rtPool rt) \<noteq> []"
  shows "prefix (healthLoops s) (healthLoops (reloadConfig_unsafe W ref s))
    \<and> length (healthLoops s) < length (healthLoops (reloadConfig_unsafe W ref s))"
proof -
  have "prefix (healthLoops s) (healthLoops (reloadConfig_unsafe W ref s))" by (rule reload_loops_prefix)
  moreover have "healthLoops s \<noteq> healthLoops (reloadConfig_unsafe W ref s)"
    using reload_new_loop [OF assms(1,3,4)] assms(2) by force
  ultimately show ?thesis by (metis prefix_length_less strict_prefixI)
qed

theorem reload_leaks_loops_witness:
  "length (healthLoops sampleLB) < length (healthLoops (reloadConfig_unsafe sampleWorld 0 sampleLB))"
proof -
  let ?rt = "\<lparr>rtConfig = sampleRC ''/'' [\<lparr>bcAddr = ''a'', bcWeight = 1\<rparr>], rtPool = 1\<rparr>"
  have heap: "length (poolHeap sampleLB) = 1"
    by (simp add: sampleLB_def NewLoadBalancer_eq reload_frame emptyBalancer_def allocated_def l7Configs_def
        l4Configs_def isL7_def isL4_def)
  have loops: "\<forall>i\<in>set (healthLoops sampleLB). i < length (poolHeap sampleLB)"
    by (simp add: heap, simp add: sampleLB_def NewLoadBalancer_eq reloadConfig_unsafe_eq Let_def emptyBalancer_def
        allocated_def l7Configs_def l4Configs_def isL7_def isL4_def newPool_def)
  have routes: "lbRoutes (reloadConfig_unsafe sampleWorld 0 sampleLB) = [?rt]"
    by (simp add: reloadConfig_unsafe_eq Let_def sampleLB_sel heap l7Configs_def isL7_def sortRoutes_def
        sortSlice_def insertionSort_def)
  have "backends (poolHeap (reloadConfig_unsafe sampleWorld 0 sampleLB) ! rtPool ?rt) \<noteq> []"
    using reload_pool(3) [of sampleWorld ?rt 0 sampleLB]
    by (simp add: routes insertionSort_contract l7Pool_def NewL7BackendPool_def buildL7Backends_def staticKeys_def
        staticBackends_def newL7Backend_def)
  from reload_leaks_loops [OF _ loops _ this] show ?thesis by (simp add: routes insertionSort_contract)
qed

end
