(* ===== verification/Admin.thy ===== *)
theory Admin
  imports AdminOps
begin

text \<open>
  \<open>internal/lb/admin.go\<close>: the authentication middleware and the seven handlers of the admin API.

  A handler enters the lock twice: \<open>getFirstL7Listener\<close> reads the configuration in force and
  returns a pointer to a listener, and the operation is then done through that pointer.  Other
  goroutines may run in between; each handler therefore takes the argument \<open>between\<close>, what
  they do to the balancer in that gap (the identity, when nothing does).

  The gorilla router has matched path and method, so a request is one of \<open>admin_call\<close> with its
  path variables.  Bodies arrive as what \<open>encoding/json\<close> decoded, \<open>None\<close> for a decoding error, and
  answers leave as a \<open>payload\<close> that the parameter \<open>marshal\<close> (\<open>json.MarshalIndent\<close>) prints, \<open>None\<close>
  being its error.
\<close>

subsection \<open>Answers\<close>

datatype payload =
    PError string
  | PRoutes "RouteConfig list"
  | PRoute RouteConfig
  | PBackend BackendConfig
  | PStatus string

type_synonym marshaller = "payload \<Rightarrow> string option"

definition respondWithJSON :: "marshaller \<Rightarrow> nat \<Rightarrow> payload \<Rightarrow> ResponseWriter \<Rightarrow> ResponseWriter" where
  "respondWithJSON marshal code pl w =
     (case marshal pl of
        None \<Rightarrow> httpError ''Failed to marshal JSON response'' 500 w
      | Some response \<Rightarrow>
          rwWrite (response @ [CHR 0x0A])
            (rwWriteHeader code
              (w\<lparr>rwHeader := hdrSet (rwHeader w) ''Content-Type'' ''application/json''\<rparr>)))"

definition respondWithError :: "marshaller \<Rightarrow> nat \<Rightarrow> string \<Rightarrow> ResponseWriter \<Rightarrow> ResponseWriter" where
  "respondWithError marshal code msg w = respondWithJSON marshal code (PError msg) w"

definition printInt :: "int \<Rightarrow> string" where
  "printInt n = (if n < 0 then CHR ''-'' # printDec (nat (- n)) else printDec (nat n))"

definition quoted :: "string \<Rightarrow> string" where
  "quoted s = CHR 0x27 # s @ [CHR 0x27]"

text \<open>The texts of the errors of the operations.\<close>

fun errorText :: "admin_error \<Rightarrow> string" where
  "errorText (RouteOutOfBounds i) = ''route index '' @ printInt i @ '' out of bounds''"
| "errorText (RouteExists path host) =
     ''route with path '' @ quoted path @ '' and host '' @ quoted host @ '' already exists''"
| "errorText (BackendExists addr i) =
     ''backend '' @ quoted addr @ '' already exists in route '' @ printInt i"
| "errorText (BackendNotFound addr i) =
     ''backend '' @ quoted addr @ '' not found in route '' @ printInt i"
| "errorText WeightNotPositive = ''weight must be > 0''"

subsection \<open>Authentication\<close>

text \<open>\<open>None\<close> passes the request on; \<open>Some msg\<close> answers it with status 401.\<close>

definition adminAuth :: "string \<Rightarrow> Request \<Rightarrow> string option" where
  "adminAuth expectedToken r =
     (if expectedToken = [] then None
      else
        (let authHeader = hdrGet (rqHeader r) ''Authorization'' in
           if authHeader = [] then Some ''Authorization header required''
           else
             (let token = TrimPrefix authHeader ''Bearer '' in
                if token = authHeader
                then Some ''Invalid authorization format. Expected: Bearer <token>''
                else if token \<noteq> expectedToken then Some ''Invalid token''
                else None)))"

subsection \<open>Look-ups\<close>

fun firstL7 :: "ListenerConfig list \<Rightarrow> nat \<Rightarrow> nat option" where
  "firstL7 [] i = None"
| "firstL7 (l # ls) i = (if isL7 l then Some i else firstL7 ls (Suc i))"

definition getFirstL7Listener :: "('cb, 'c, 'r) LoadBalancer \<Rightarrow> listener_ref option" where
  "getFirstL7Listener s =
     map_option (Pair (lbCfg s)) (firstL7 (cfListeners (cfgHeap s ! lbCfg s)) 0)"

definition noListener :: string where
  "noListener = ''no http/https listener found to manage''"

text \<open>\<open>url.PathUnescape\<close>, whose error the handlers drop: they go on with the empty string.\<close>

definition hexVal :: "char \<Rightarrow> nat option" where
  "hexVal c =
     (let n = of_char c in
        if 48 \<le> n \<and> n \<le> 57 then Some (n - 48)
        else if 97 \<le> n \<and> n \<le> 102 then Some (n - 87)
        else if 65 \<le> n \<and> n \<le> 70 then Some (n - 55)
        else None)"

fun PathUnescape :: "string \<Rightarrow> string option" where
  "PathUnescape [] = Some []"
| "PathUnescape (c # cs) =
     (if c = CHR ''%'' then
        (case cs of
           a # b # rest \<Rightarrow>
             (case (hexVal a, hexVal b) of
                (Some x, Some y) \<Rightarrow> map_option (Cons (char_of (16 * x + y))) (PathUnescape rest)
              | _ \<Rightarrow> None)
         | _ \<Rightarrow> None)
      else map_option (Cons c) (PathUnescape cs))"

definition unescapedHost :: "string \<Rightarrow> string" where
  "unescapedHost v = (case PathUnescape v of None \<Rightarrow> [] | Some h \<Rightarrow> h)"

subsection \<open>The handlers\<close>

text \<open>The common last step: an operation's error with its status, or the new state.\<close>

definition finish ::
  "marshaller \<Rightarrow> nat \<Rightarrow> nat \<Rightarrow> payload \<Rightarrow> ResponseWriter \<Rightarrow> ('cb, 'c, 'r) LoadBalancer
     \<Rightarrow> admin_error + ('cb, 'c, 'r) LoadBalancer \<Rightarrow> ('cb, 'c, 'r) LoadBalancer \<times> ResponseWriter" where
  "finish marshal errCode okCode okPayload w s result =
     (case result of
        Inl e \<Rightarrow> (s, respondWithError marshal errCode (errorText e) w)
      | Inr s' \<Rightarrow> (s', respondWithJSON marshal okCode okPayload w))"

definition getRoutesHandler ::
  "marshaller \<Rightarrow> (('cb, 'c, 'r) LoadBalancer \<Rightarrow> ('cb, 'c, 'r) LoadBalancer) \<Rightarrow> ResponseWriter
     \<Rightarrow> ('cb, 'c, 'r) LoadBalancer \<Rightarrow> ('cb, 'c, 'r) LoadBalancer \<times> ResponseWriter" where
  "getRoutesHandler marshal between w s =
     (case getFirstL7Listener s of
        None \<Rightarrow> (s, respondWithError marshal 404 noListener w)
      | Some lp \<Rightarrow>
          (let s = between s
           in (s, respondWithJSON marshal 200 (PRoutes (lcRoutes (listenerAt lp s))) w)))"

definition addRouteHandler ::
  "('cb, 'c, 'r) world \<Rightarrow> marshaller \<Rightarrow> (('cb, 'c, 'r) LoadBalancer \<Rightarrow> ('cb, 'c, 'r) LoadBalancer)
     \<Rightarrow> RouteConfig option \<Rightarrow> ResponseWriter \<Rightarrow> ('cb, 'c, 'r) LoadBalancer
     \<Rightarrow> ('cb, 'c, 'r) LoadBalancer \<times> ResponseWriter" where
  "addRouteHandler W marshal between body w s =
     (case body of
        None \<Rightarrow> (s, respondWithError marshal 400 ''Invalid JSON payload'' w)
      | Some newRoute \<Rightarrow>
          if rcPath newRoute = [] then (s, respondWithError marshal 400 (''Route '' @ quoted ''path'' @ '' is required'') w)
          else
            (case getFirstL7Listener s of
               None \<Rightarrow> (s, respondWithError marshal 404 noListener w)
             | Some lp \<Rightarrow>
                 (let s = between s
                  in finish marshal 500 201 (PRoute newRoute) w s (AddRoute W newRoute lp s))))"

definition getRouteHandler ::
  "marshaller \<Rightarrow> (('cb, 'c, 'r) LoadBalancer \<Rightarrow> ('cb, 'c, 'r) LoadBalancer) \<Rightarrow> string \<Rightarrow> ResponseWriter
     \<Rightarrow> ('cb, 'c, 'r) LoadBalancer \<Rightarrow> ('cb, 'c, 'r) LoadBalancer \<times> ResponseWriter" where
  "getRouteHandler marshal between var w s =
     (case Atoi var of
        None \<Rightarrow> (s, respondWithError marshal 400 ''invalid route index'' w)
      | Some index \<Rightarrow>
          (case getFirstL7Listener s of
             None \<Rightarrow> (s, respondWithError marshal 404 noListener w)
           | Some lp \<Rightarrow>
               (let s = between s
                in case getRouteByIndex (listenerAt lp s) index of
                     Inl e \<Rightarrow> (s, respondWithError marshal 404 (errorText e) w)
                   | Inr route \<Rightarrow> (s, respondWithJSON marshal 200 (PRoute route) w))))"

definition deleteRouteHandler ::
  "('cb, 'c, 'r) world \<Rightarrow> marshaller \<Rightarrow> (('cb, 'c, 'r) LoadBalancer \<Rightarrow> ('cb, 'c, 'r) LoadBalancer)
     \<Rightarrow> string \<Rightarrow> ResponseWriter \<Rightarrow> ('cb, 'c, 'r) LoadBalancer
     \<Rightarrow> ('cb, 'c, 'r) LoadBalancer \<times> ResponseWriter" where
  "deleteRouteHandler W marshal between var w s =
     (case Atoi var of
        None \<Rightarrow> (s, respondWithError marshal 400 ''invalid route index'' w)
      | Some index \<Rightarrow>
          (case getFirstL7Listener s of
             None \<Rightarrow> (s, respondWithError marshal 404 noListener w)
           | Some lp \<Rightarrow>
               (let s = between s
                in finish marshal 404 200 (PStatus ''deleted'') w s (DeleteRoute W index lp s))))"

definition addBackendHandler ::
  "('cb, 'c, 'r) world \<Rightarrow> marshaller \<Rightarrow> (('cb, 'c, 'r) LoadBalancer \<Rightarrow> ('cb, 'c, 'r) LoadBalancer)
     \<Rightarrow> string \<Rightarrow> BackendConfig option \<Rightarrow> ResponseWriter \<Rightarrow> ('cb, 'c, 'r) LoadBalancer
     \<Rightarrow> ('cb, 'c, 'r) LoadBalancer \<times> ResponseWriter" where
  "addBackendHandler W marshal between var body w s =
     (case Atoi var of
        None \<Rightarrow> (s, respondWithError marshal 400 ''invalid route index'' w)
      | Some index \<Rightarrow>
          (case body of
             None \<Rightarrow> (s, respondWithError marshal 400 ''Invalid JSON payload'' w)
           | Some newBackend \<Rightarrow>
               if bcAddr newBackend = []
               then (s, respondWithError marshal 400 (''Backend '' @ quoted ''addr'' @ '' is required'') w)
               else
                 (case getFirstL7Listener s of
                    None \<Rightarrow> (s, respondWithError marshal 404 noListener w)
                  | Some lp \<Rightarrow>
                      (let s = between s
                       in finish marshal 404 201 (PBackend (defaultWeight newBackend)) w s
                            (AddBackendToRoute W index newBackend lp s)))))"

definition deleteBackendHandler ::
  "('cb, 'c, 'r) world \<Rightarrow> marshaller \<Rightarrow> (('cb, 'c, 'r) LoadBalancer \<Rightarrow> ('cb, 'c, 'r) LoadBalancer)
     \<Rightarrow> string \<Rightarrow> string \<Rightarrow> ResponseWriter \<Rightarrow> ('cb, 'c, 'r) LoadBalancer
     \<Rightarrow> ('cb, 'c, 'r) LoadBalancer \<times> ResponseWriter" where
  "deleteBackendHandler W marshal between var hostVar w s =
     (case Atoi var of
        None \<Rightarrow> (s, respondWithError marshal 400 ''invalid route index'' w)
      | Some index \<Rightarrow>
          (let host = unescapedHost hostVar
           in case getFirstL7Listener s of
                None \<Rightarrow> (s, respondWithError marshal 404 noListener w)
              | Some lp \<Rightarrow>
                  (let s = between s
                   in finish marshal 404 200 (PStatus ''deleted'') w s
                        (DeleteBackendFromRoute W index host lp s))))"

definition updateBackendHandler ::
  "('cb, 'c, 'r) world \<Rightarrow> marshaller \<Rightarrow> (('cb, 'c, 'r) LoadBalancer \<Rightarrow> ('cb, 'c, 'r) LoadBalancer)
     \<Rightarrow> string \<Rightarrow> string \<Rightarrow> go_int option \<Rightarrow> ResponseWriter \<Rightarrow> ('cb, 'c, 'r) LoadBalancer
     \<Rightarrow> ('cb, 'c, 'r) LoadBalancer \<times> ResponseWriter" where
  "updateBackendHandler W marshal between var hostVar body w s =
     (case Atoi var of
        None \<Rightarrow> (s, respondWithError marshal 400 ''invalid route index'' w)
      | Some index \<Rightarrow>
          (let host = unescapedHost hostVar
           in case body of
                None \<Rightarrow> (s, respondWithError marshal 400 ''Invalid JSON payload'' w)
              | Some weight \<Rightarrow>
                  (case getFirstL7Listener s of
                     None \<Rightarrow> (s, respondWithError marshal 404 noListener w)
                   | Some lp \<Rightarrow>
                       (let s = between s
                        in finish marshal 404 200 (PStatus ''updated'') w s
                             (UpdateBackendWeightInRoute W index host weight lp s)))))"

text \<open>The routes of the admin router, behind the middleware.\<close>

datatype admin_call =
    GetRoutes
  | PostRoute "RouteConfig option"
  | GetRoute string
  | DeleteRouteAt string
  | PostBackend string "BackendConfig option"
  | DeleteBackendAt string string
  | PutBackend string string "go_int option"

definition adminServe ::
  "('cb, 'c, 'r) world \<Rightarrow> marshaller \<Rightarrow> (('cb, 'c, 'r) LoadBalancer \<Rightarrow> ('cb, 'c, 'r) LoadBalancer)
     \<Rightarrow> admin_call \<Rightarrow> Request \<Rightarrow> ResponseWriter \<Rightarrow> ('cb, 'c, 'r) LoadBalancer
     \<Rightarrow> ('cb, 'c, 'r) LoadBalancer \<times> ResponseWriter" where
  "adminServe W marshal between call r w s =
     (case adminAuth (cfAdminToken (cfgHeap s ! lbCfg s)) r of
        Some msg \<Rightarrow> (s, respondWithError marshal 401 msg w)
      | None \<Rightarrow>
          (case call of
             GetRoutes \<Rightarrow> getRoutesHandler marshal between w s
           | PostRoute body \<Rightarrow> addRouteHandler W marshal between body w s
           | GetRoute var \<Rightarrow> getRouteHandler marshal between var w s
           | DeleteRouteAt var \<Rightarrow> deleteRouteHandler W marshal between var w s
           | PostBackend var body \<Rightarrow> addBackendHandler W marshal between var body w s
           | DeleteBackendAt var host \<Rightarrow> deleteBackendHandler W marshal between var host w s
           | PutBackend var host body \<Rightarrow> updateBackendHandler W marshal between var host body w s))"

subsection \<open>Facts\<close>

lemma respondWithJSON_status:
  "rwSent w = None \<Longrightarrow> marshal pl \<noteq> None \<Longrightarrow> sentStatus (respondWithJSON marshal code pl w) = code"
  by (auto simp: respondWithJSON_def sentStatus_def)

lemma firstL7_SomeD: "firstL7 ls i = Some j \<Longrightarrow> i \<le> j \<and> j - i < length ls \<and> isL7 (ls ! (j - i))"
proof (induction ls i rule: firstL7.induct)
  case (2 l ls i)
  then show ?case by (cases "isL7 l") (auto simp: Suc_diff_le [symmetric] nth_Cons' split: if_splits)
qed simp

lemma getFirstL7Listener_valid:
  assumes "lbCfg s < length (cfgHeap s)" and "getFirstL7Listener s = Some lp"
  shows "validRef lp s" and "fst lp = lbCfg s" and "isL7 (listenerAt lp s)"
proof -
  from assms(2) obtain i where i: "firstL7 (cfListeners (cfgHeap s ! lbCfg s)) 0 = Some i" and lp: "lp = (lbCfg s, i)"
    by (auto simp: getFirstL7Listener_def)
  from firstL7_SomeD [OF i] assms(1) lp
  show "validRef lp s" "fst lp = lbCfg s" "isL7 (listenerAt lp s)"
    by (simp_all add: validRef_def listenerAt_def)
qed

lemma adminAuth_iff:
  assumes "expected \<noteq> []"
  shows "adminAuth expected r = None \<longleftrightarrow> hdrGet (rqHeader r) ''Authorization'' = ''Bearer '' @ expected"
proof -
  let ?h = "hdrGet (rqHeader r) ''Authorization''"
  have iff: "TrimPrefix ?h ''Bearer '' = ?h \<longleftrightarrow> \<not> HasPrefix ?h ''Bearer ''"
    by (rule TrimPrefix_same_iff) simp
  show ?thesis
  proof (cases "HasPrefix ?h ''Bearer ''")
    case True
    then obtain t where "?h = ''Bearer '' @ t" by (auto simp: HasPrefix_iff prefix_def)
    then show ?thesis using assms iff True TrimPrefix_append [of "''Bearer ''" t]
      by (simp add: adminAuth_def Let_def)
  next
    case False
    moreover have "HasPrefix (''Bearer '' @ expected) ''Bearer ''" by (simp add: HasPrefix_iff)
    ultimately have "?h \<noteq> ''Bearer '' @ expected" by metis
    with False iff assms show ?thesis by (auto simp: adminAuth_def Let_def)
  qed
qed

lemma finish_outcome:
  assumes "rwSent w = None" and "\<forall>pl. marshal pl \<noteq> None" and "finish marshal errCode okCode pl w s res = (s', w')"
  shows "(\<exists>e. res = Inl e \<and> s' = s \<and> sentStatus w' = errCode) \<or> (res = Inr s' \<and> sentStatus w' = okCode)"
  using assms respondWithJSON_status [OF assms(1)]
  by (auto simp: finish_def respondWithError_def split: sum.splits)






lemma l7Configs_commit:
  assumes "lbCfg s < length (cfgHeap s)" and "getFirstL7Listener s = Some lp" and "route \<in> set rs"
  shows "route \<in> set (l7Configs (cfgHeap (commit W lp rs s) ! lbCfg (commit W lp rs s)))"
proof -
  note lp = getFirstL7Listener_valid [OF assms(1,2)]
  let ?s = "commit W lp rs s"
  have l: "listenerAt lp ?s = (listenerAt lp s)\<lparr>lcRoutes := rs\<rparr>" by (simp add: listenerAt_commit [OF lp(1,1)])
  have "validRef lp ?s" using lp(1) by (simp add: validRef_commit)
  then have "listenerAt lp ?s \<in> set (cfListeners (cfgHeap ?s ! lbCfg ?s))"
    using lp(2) by (simp add: listenerAt_def validRef_def commit_frame)
  moreover have "isL7 (listenerAt lp ?s)" using lp(3) by (simp add: l isL7_def)
  ultimately show ?thesis using assms(3) by (auto simp: l7Configs_def l intro!: bexI [of _ "listenerAt lp ?s"])
qed

lemma coherent_routes: "coherent W s \<Longrightarrow> rtConfig ` set (lbRoutes s) = set (l7Configs (cfgHeap s ! lbCfg s))"
  unfolding coherent_def by (metis set_map set_mset_mset)

definition sampleMarshal :: marshaller where
  "sampleMarshal pl = Some (case pl of PError msg \<Rightarrow> msg | _ \<Rightarrow> ''ok'')"

lemma sampleMarshal_total [simp]: "sampleMarshal pl \<noteq> None"
  by (simp add: sampleMarshal_def)




lemma sampleLB_first: "getFirstL7Listener sampleLB = Some (0, 0)"
  by (simp add: getFirstL7Listener_def sampleLB_sel isL7_def)

lemma sampleLB_coherent: "coherent sampleWorld sampleLB"
  unfolding sampleLB_def by (rule NewLoadBalancer_coherent) (simp add: insertionSort_contract)

subsection \<open>Properties\<close>

text \<open>
  C10: With an admin token configured, a request without exactly this token as its bearer token is
  answered with 401 and changes nothing, whichever handler it asks for.
\<close>

theorem admin_auth_required:
  assumes "cfAdminToken (cfgHeap s ! lbCfg s) \<noteq> []"
    and "hdrGet (rqHeader r) ''Authorization'' \<noteq> ''Bearer '' @ cfAdminToken (cfgHeap s ! lbCfg s)"
    and "rwSent w = None" and "\<forall>pl. marshal pl \<noteq> None"
  shows "fst (adminServe W marshal between call r w s) = s
    \<and> sentStatus (snd (adminServe W marshal between call r w s)) = 401"
proof -
  obtain msg where "adminAuth (cfAdminToken (cfgHeap s ! lbCfg s)) r = Some msg"
    using adminAuth_iff [OF assms(1), of r] assms(2) by auto
  then show ?thesis
    using respondWithJSON_status [OF assms(3)] assms(4) by (simp add: adminServe_def respondWithError_def)
qed

theorem admin_auth_required_witness:
  "sentStatus (snd (adminServe sampleWorld sampleMarshal (\<lambda>s. s) (DeleteRouteAt ''0'') (sampleGet ''h'' ''/'' [])
     newWriter sampleLB)) = 401"
  using admin_auth_required [of sampleLB "sampleGet ''h'' ''/'' []" newWriter sampleMarshal sampleWorld "\<lambda>s. s"
      "DeleteRouteAt ''0''"]
  by (simp add: sampleLB_sel hdrGet_def)



lemma dispatched:
  assumes "sort_contract (wSort W)" and "rt \<in> set (lbRoutes (reloadConfig_unsafe W ref s))" and "Matches r rt"
  shows "\<exists>rt'. firstMatch r (lbRoutes (reloadConfig_unsafe W ref s)) = Some rt' \<and> Matches r rt' \<and> atLeastAsSpecific rt' rt"
proof -
  obtain rts where table: "lbRoutes (reloadConfig_unsafe W ref s) = sortRoutes (wSort W) rts"
    by (simp add: reloadConfig_unsafe_eq Let_def)
  with assms(2) have rt: "rt \<in> set rts" using sortRoutes_mset [OF assms(1), THEN mset_eq_setD] by metis
  then obtain rt' where "firstMatch r (sortRoutes (wSort W) rts) = Some rt'"
    using firstMatch_None [OF assms(1), of r rts] assms(3) by (cases "firstMatch r (sortRoutes (wSort W) rts)") auto
  with firstMatch_best [OF assms(1) this] rt assms(3) show ?thesis by (metis table)
qed

text \<open>
  C28: A route posted to the admin API, when the answer is 201 and nothing came between the look-up
  of the listener and the edit, is in the table of the balancer: every request that matches it is
  dispatched to a route that matches and is at least as specific (bound to a host if the posted
  one is, and among those with at least as long a path).
\<close>

theorem posted_route_served:
  assumes "sort_contract (wSort W)" and "coherent W s" and "rwSent w = None" and "\<forall>pl. marshal pl \<noteq> None"
    and "addRouteHandler W marshal (\<lambda>s. s) (Some route) w s = (s', w')" and "sentStatus w' = 201"
  shows "\<exists>rt\<in>set (lbRoutes s'). rtConfig rt = route \<and>
    (\<forall>r. Matches r rt \<longrightarrow>
       (\<exists>rt'. firstMatch r (lbRoutes s') = Some rt' \<and> Matches r rt' \<and>
          (rcHost route \<noteq> [] \<longrightarrow> rcHost (rtConfig rt') \<noteq> []) \<and>
          ((rcHost (rtConfig rt') = []) = (rcHost route = []) \<longrightarrow>
             length (rcPath route) \<le> length (rcPath (rtConfig rt')))))"
proof -
  have cfg: "lbCfg s < length (cfgHeap s)" using assms(2) by (simp add: coherent_def)
  have refused: "sentStatus (respondWithError marshal code msg w) = code" for code msg
    using respondWithJSON_status [OF assms(3)] assms(4) by (simp add: respondWithError_def)
  then have path: "rcPath route \<noteq> []" using assms(5,6) by (auto simp: addRouteHandler_def)
  then obtain lp where lp: "getFirstL7Listener s = Some lp"
    using assms(5,6) refused by (cases "getFirstL7Listener s") (auto simp: addRouteHandler_def)
  with path have fin: "finish marshal 500 201 (PRoute route) w s (AddRoute W route lp s) = (s', w')"
    using assms(5) by (simp add: addRouteHandler_def)
  have add: "AddRoute W route lp s = Inr s'"
    using finish_outcome [OF assms(3,4) fin] assms(6) by auto
  then obtain rs where "addRouteEdit route (routesOf lp s) = Inr rs" and s': "s' = commit W lp rs s"
    using add_route.run_commit by blast
  then have "route \<in> set rs" by (auto simp: addRouteEdit_def split: if_splits)
  then have "route \<in> set (l7Configs (cfgHeap s' ! lbCfg s'))"
    unfolding s' by (rule l7Configs_commit [OF cfg lp])
  moreover have "coherent W s'" unfolding s' by (rule commit_coherent [OF assms(1) cfg])
  ultimately have "route \<in> rtConfig ` set (lbRoutes s')" by (simp add: coherent_routes)
  then obtain rt where rt: "rt \<in> set (lbRoutes s')" "rtConfig rt = route" by auto
  have "\<exists>rt'. firstMatch r (lbRoutes s') = Some rt' \<and> Matches r rt' \<and> atLeastAsSpecific rt' rt"
    if "Matches r rt" for r
    using dispatched [OF assms(1), where rt = rt and r = r] rt(1) that by (simp add: s' commit_def)
  with rt show ?thesis unfolding atLeastAsSpecific_def by blast
qed

theorem posted_route_served_witness:
  "\<exists>s' w' rt'. addRouteHandler sampleWorld sampleMarshal (\<lambda>s. s) (Some (sampleRC ''/api'' [])) newWriter sampleLB = (s', w')
    \<and> firstMatch (sampleGet ''h'' ''/api/v1'' []) (lbRoutes s') = Some rt'
    \<and> Matches (sampleGet ''h'' ''/api/v1'' []) rt'"
proof -
  have r: "routesOf (0, 0) sampleLB = [sampleRC ''/'' [\<lparr>bcAddr = ''a'', bcWeight = 1\<rparr>]]"
    by (simp add: routesOf_def listenerAt_def sampleLB_sel)
  obtain s' where add: "AddRoute sampleWorld (sampleRC ''/api'' []) (0, 0) sampleLB = Inr s'"
    by (simp add: add_route.run_edit r addRouteEdit_def)
  then have run: "addRouteHandler sampleWorld sampleMarshal (\<lambda>s. s) (Some (sampleRC ''/api'' [])) newWriter sampleLB =
      (s', respondWithJSON sampleMarshal 201 (PRoute (sampleRC ''/api'' [])) newWriter)"
    by (simp add: addRouteHandler_def sampleLB_first finish_def)
  have marshals: "\<forall>pl. sampleMarshal pl \<noteq> None" by simp
  then have created: "sentStatus (respondWithJSON sampleMarshal 201 (PRoute (sampleRC ''/api'' [])) newWriter) = 201"
    by (intro respondWithJSON_status) simp_all
  have sorts: "sort_contract (wSort sampleWorld)" by (simp add: insertionSort_contract)
  from posted_route_served [OF sorts sampleLB_coherent _ marshals run created]
  obtain rt where rt: "rtConfig rt = sampleRC ''/api'' []"
    and best: "\<And>r. Matches r rt \<Longrightarrow> \<exists>rt'. firstMatch r (lbRoutes s') = Some rt' \<and> Matches r rt'"
    by (metis newWriter_sel(2))
  have "Matches (sampleGet ''h'' ''/api/v1'' []) rt" by (simp add: Matches_iff rt)
  with best run show ?thesis by fastforce
qed

text \<open>
  C29: When a reload of the configuration falls between the handler's look-up of the listener and
  its edit, the client is told 201, but unless the new configuration has the route too, no route
  of the balancer serves it.
\<close>

theorem posted_route_lost:
  assumes "sort_contract (wSort W)" and "getFirstL7Listener s = Some lp" and "fst lp < length (cfgHeap s)"
    and "rcPath route \<noteq> []" and "(rcPath route, rcHost route) \<notin> (\<lambda>r. (rcPath r, rcHost r)) ` set (routesOf lp s)"
    and "route \<notin> set (l7Configs cfg)" and "rwSent w = None" and "\<forall>pl. marshal pl \<noteq> None"
  shows "case addRouteHandler W marshal (ReloadConfig W cfg) (Some route) w s of (s', w') \<Rightarrow>
    sentStatus w' = 201 \<and> (\<forall>rt\<in>set (lbRoutes s'). rtConfig rt \<noteq> route)"
proof -
  let ?s = "ReloadConfig W cfg s"
  have cfgs: "cfgHeap ?s = cfgHeap s @ [cfg]" "lbCfg ?s = length (cfgHeap s)"
    by (simp_all add: ReloadConfig_def reload_frame)
  have same: "routesOf lp ?s = routesOf lp s"
    using assms(3) by (simp add: routesOf_def listenerAt_def cfgs nth_append)
  then obtain s' where add: "AddRoute W route lp ?s = Inr s'" and s': "s' = commit W lp (routesOf lp s @ [route]) ?s"
    using assms(5) by (simp add: add_route.run_edit addRouteEdit_def)
  have run: "addRouteHandler W marshal (ReloadConfig W cfg) (Some route) w s =
      (s', respondWithJSON marshal 201 (PRoute route) w)"
    using assms(2,4) add by (simp add: addRouteHandler_def finish_def)
  have "cfgHeap s' ! lbCfg s' = cfg"
    using assms(3) by (simp add: s' commit_def reload_frame setRoutes_frame setRoutes_cfg cfgs)
  moreover have "coherent W s'" unfolding s' by (rule commit_coherent [OF assms(1)]) (simp add: cfgs)
  ultimately have "rtConfig ` set (lbRoutes s') = set (l7Configs cfg)" by (simp add: coherent_routes)
  with assms(6) run show ?thesis
    using respondWithJSON_status [OF assms(7)] assms(8) by auto
qed

theorem posted_route_lost_witness:
  "sentStatus (snd (addRouteHandler sampleWorld sampleMarshal (ReloadConfig sampleWorld (sampleConfig []))
     (Some (sampleRC ''/api'' [])) newWriter sampleLB)) = 201"
  using posted_route_lost [OF _ sampleLB_first, of sampleWorld "sampleRC ''/api'' []" "sampleConfig []" newWriter sampleMarshal]
  by (simp add: insertionSort_contract sampleLB_sel routesOf_def listenerAt_def l7Configs_def split_beta)

end
