(* ===== verification/Metrics.thy ===== *)
theory Metrics
  imports LoadBalancer
begin

text \<open>
  The metrics page of \<open>internal/lb/metrics.go\<close>: the text that the handler of \<open>/metrics\<close> in
  \<open>StartMetricsServer\<close> builds from the routes, the layer-4 pools and the cache that it has read
  under the lock of the balancer.

  \<^item> \<open>fmt.Sprintf\<close> with \<open>%s\<close> and \<open>%d\<close> is concatenation and \<open>printDec\<close>.
  \<^item> The loop over \<open>l4Pools\<close> runs in an unspecified order, the parameter \<open>ord\<close> on the names.
  \<^item> \<open>ItemCount()\<close> of the third-party cache is the parameter \<open>itemCount\<close>.
  \<^item> Binding the address is left out.
\<close>

definition qt :: string where
  "qt = [CHR 0x22]"

definition nl :: string where
  "nl = [CHR 0x0A]"

definition circuitNumber :: "cb_state \<Rightarrow> nat" where
  "circuitNumber st = (case st of StateClosed \<Rightarrow> 0 | StateHalfOpen \<Rightarrow> 1 | StateOpen \<Rightarrow> 2)"

text \<open>The states of a breaker in the order of their numbers on the page.\<close>

instantiation cb_state :: linorder
begin

definition less_eq_cb_state :: "cb_state \<Rightarrow> cb_state \<Rightarrow> bool" where
  "less_eq_cb_state a b \<longleftrightarrow> circuitNumber a \<le> circuitNumber b"

definition less_cb_state :: "cb_state \<Rightarrow> cb_state \<Rightarrow> bool" where
  "less_cb_state a b \<longleftrightarrow> circuitNumber a < circuitNumber b"

instance
  by standard (auto simp: less_eq_cb_state_def less_cb_state_def circuitNumber_def split: cb_state.splits)

end

lemma circuitNumber_order: "mono circuitNumber" "inj circuitNumber"
  by (simp add: mono_def less_eq_cb_state_def) (auto simp: inj_def circuitNumber_def split: cb_state.splits)

definition metricLine :: "string \<Rightarrow> string \<Rightarrow> nat \<Rightarrow> string" where
  "metricLine name label n = name @ ''{'' @ label @ ''} '' @ printDec n @ nl"

text \<open>The lines of one backend; the two loops of the source write the same text for each.\<close>

definition backendLines :: "'cb gobreaker \<Rightarrow> string \<Rightarrow> 'cb Backend \<Rightarrow> string" where
  "backendLines G label b =
     metricLine ''backend_health_status'' label (if IsHealthy b then 1 else 0) @
     metricLine ''backend_active_connections'' label (unat (GetConnections b)) @
     (case cb b of None \<Rightarrow> [] | Some c \<Rightarrow> metricLine ''backend_circuit_state'' label (circuitNumber (cbState G c))) @ nl"

definition routeLabel :: "RouteConfig \<Rightarrow> 'cb Backend \<Rightarrow> string" where
  "routeLabel rc b =
     ''backend='' @ qt @ Addr b @ qt @ '', route_path='' @ qt @ rcPath rc @ qt @ '', route_host='' @ qt @ rcHost rc @ qt"

definition listenerLabel :: "string \<Rightarrow> 'cb Backend \<Rightarrow> string" where
  "listenerLabel name b = ''backend='' @ qt @ Addr b @ qt @ '', listener_name='' @ qt @ name @ qt"

primrec backends_loop :: "('cb Backend \<Rightarrow> string) \<Rightarrow> 'cb Backend list \<Rightarrow> string \<Rightarrow> string" where
  "backends_loop text [] body = body"
| "backends_loop text (b # bs) body = backends_loop text bs (body @ text b)"

primrec routes_loop ::
  "('cb, 'c, 'r) world \<Rightarrow> ('cb, 'c, 'r) LoadBalancer \<Rightarrow> Route list \<Rightarrow> string \<times> u64 \<Rightarrow> string \<times> u64" where
  "routes_loop W s [] a = a"
| "routes_loop W s (route # rts) a =
     (case a of (body, totalConns) \<Rightarrow>
        (let pool = poolHeap s ! rtPool route in
           routes_loop W s rts
             (backends_loop (\<lambda>b. backendLines (wBreaker W) (routeLabel (rtConfig route) b) b) (backends pool) body,
              totalConns + GetTotalConnections pool)))"

primrec l4_loop ::
  "('cb, 'c, 'r) world \<Rightarrow> ('cb, 'c, 'r) LoadBalancer \<Rightarrow> string list \<Rightarrow> string \<times> u64 \<Rightarrow> string \<times> u64" where
  "l4_loop W s [] a = a"
| "l4_loop W s (name # names) a =
     (case a of (body, totalConns) \<Rightarrow>
        (let pool = poolHeap s ! the (map_of (lbL4Pools s) name) in
           l4_loop W s names
             (backends_loop (\<lambda>b. backendLines (wBreaker W) (listenerLabel name b) b) (backends pool) body,
              totalConns + GetTotalConnections pool)))"

definition metricsBody ::
  "('cb, 'c, 'r) world \<Rightarrow> ('c \<Rightarrow> nat) \<Rightarrow> (string list \<Rightarrow> string list) \<Rightarrow> ('cb, 'c, 'r) LoadBalancer \<Rightarrow> string" where
  "metricsBody W itemCount ord s =
     (case l4_loop W s (ord (map fst (lbL4Pools s))) (routes_loop W s (lbRoutes s) ([], 0)) of
        (body, totalConns) \<Rightarrow>
          body @ nl @ ''total_active_connections '' @ printDec (unat totalConns) @ nl @
          (case lbCache s of None \<Rightarrow> [] | Some c \<Rightarrow> ''cache_item_count '' @ printDec (itemCount c) @ nl))"

definition metricsHandler ::
  "('cb, 'c, 'r) world \<Rightarrow> ('c \<Rightarrow> nat) \<Rightarrow> (string list \<Rightarrow> string list) \<Rightarrow> ('cb, 'c, 'r) LoadBalancer
     \<Rightarrow> ResponseWriter \<Rightarrow> ResponseWriter" where
  "metricsHandler W itemCount ord s w =
     rwWrite (metricsBody W itemCount ord s) (w\<lparr>rwHeader := hdrSet (rwHeader w) ''Content-Type'' ''text/plain''\<rparr>)"

subsection \<open>What the loops compute\<close>

lemma backends_loop_eq: "backends_loop text bs body = body @ concat (map text bs)"
  by (induction bs arbitrary: body) simp_all

text \<open>The text of one route and of one layer-4 pool.\<close>

definition routeText :: "('cb, 'c, 'r) world \<Rightarrow> ('cb, 'c, 'r) LoadBalancer \<Rightarrow> Route \<Rightarrow> string" where
  "routeText W s rt =
     concat (map (\<lambda>b. backendLines (wBreaker W) (routeLabel (rtConfig rt) b) b) (backends (poolHeap s ! rtPool rt)))"

definition l4Text :: "('cb, 'c, 'r) world \<Rightarrow> ('cb, 'c, 'r) LoadBalancer \<Rightarrow> string \<Rightarrow> string" where
  "l4Text W s name =
     concat (map (\<lambda>b. backendLines (wBreaker W) (listenerLabel name b) b)
       (backends (poolHeap s ! the (map_of (lbL4Pools s) name))))"

definition routeConns :: "('cb, 'c, 'r) LoadBalancer \<Rightarrow> Route \<Rightarrow> u64" where
  "routeConns s rt = GetTotalConnections (poolHeap s ! rtPool rt)"

definition l4Conns :: "('cb, 'c, 'r) LoadBalancer \<Rightarrow> string \<Rightarrow> u64" where
  "l4Conns s name = GetTotalConnections (poolHeap s ! the (map_of (lbL4Pools s) name))"

lemma routes_loop_eq:
  "routes_loop W s rts (body, n) = (body @ concat (map (routeText W s) rts), n + sum_list (map (routeConns s) rts))"
  by (induction rts arbitrary: body n)
    (simp_all add: Let_def backends_loop_eq routeText_def routeConns_def add.assoc)

lemma l4_loop_eq:
  "l4_loop W s names (body, n) = (body @ concat (map (l4Text W s) names), n + sum_list (map (l4Conns s) names))"
  by (induction names arbitrary: body n)
    (simp_all add: Let_def backends_loop_eq l4Text_def l4Conns_def add.assoc)

definition totalConns :: "('cb, 'c, 'r) LoadBalancer \<Rightarrow> u64" where
  "totalConns s = sum_list (map (routeConns s) (lbRoutes s)) + sum_list (map (l4Conns s) (map fst (lbL4Pools s)))"

lemma sum_list_perm: "mset xs = mset ys \<Longrightarrow> sum_list (map f xs) = (sum_list (map f ys) :: 'a::comm_monoid_add)"
  by (metis mset_map sum_mset_sum_list)

lemma metricsBody_eq:
  assumes "map_order ord"
  shows "metricsBody W itemCount ord s =
    concat (map (routeText W s) (lbRoutes s)) @ concat (map (l4Text W s) (ord (map fst (lbL4Pools s)))) @ nl @
    ''total_active_connections '' @ printDec (unat (totalConns s)) @ nl @
    (case lbCache s of None \<Rightarrow> [] | Some c \<Rightarrow> ''cache_item_count '' @ printDec (itemCount c) @ nl)"
proof -
  have "mset (ord (map fst (lbL4Pools s))) = mset (map fst (lbL4Pools s))"
    using assms by (simp add: map_order_def)
  from sum_list_perm [OF this, of "l4Conns s"] show ?thesis
    by (simp add: metricsBody_def routes_loop_eq l4_loop_eq totalConns_def)
qed

subsection \<open>Reading the page back\<close>

text \<open>The lines of a text, and the total as a scraper reads it.\<close>

fun splitLines :: "string \<Rightarrow> string \<Rightarrow> string list" where
  "splitLines acc [] = [acc]"
| "splitLines acc (c # cs) = (if c = CHR 0x0A then acc # splitLines [] cs else splitLines (acc @ [c]) cs)"

definition totalName :: string where
  "totalName = ''total_active_connections ''"

definition readTotal :: "string \<Rightarrow> nat option" where
  "readTotal page =
     map_option (\<lambda>l. decValue (drop (length totalName) l)) (find (\<lambda>l. HasPrefix l totalName) (splitLines [] page))"

lemma splitLines_line: "CHR 0x0A \<notin> set l \<Longrightarrow> splitLines acc (l @ CHR 0x0A # cs) = (acc @ l) # splitLines [] cs"
  by (induction l arbitrary: acc) auto

text \<open>A text of whole lines none of which is the line of the total.\<close>

definition aside :: "string \<Rightarrow> bool" where
  "aside t \<longleftrightarrow> (\<exists>ls. t = concat (map (\<lambda>l. l @ nl) ls) \<and> (\<forall>l\<in>set ls. CHR 0x0A \<notin> set l \<and> \<not> HasPrefix l totalName))"

lemma aside_Nil [simp]: "aside []"
  unfolding aside_def by (intro exI [of _ "[]"]) simp

lemma aside_append: "aside a \<Longrightarrow> aside b \<Longrightarrow> aside (a @ b)"
  unfolding aside_def
proof (elim exE conjE)
  fix ls ms
  assume "\<forall>l\<in>set ls. CHR 0x0A \<notin> set l \<and> \<not> HasPrefix l totalName" "\<forall>l\<in>set ms. CHR 0x0A \<notin> set l \<and> \<not> HasPrefix l totalName"
    "a = concat (map (\<lambda>l. l @ nl) ls)" "b = concat (map (\<lambda>l. l @ nl) ms)"
  then show "\<exists>ls. a @ b = concat (map (\<lambda>l. l @ nl) ls) \<and> (\<forall>l\<in>set ls. CHR 0x0A \<notin> set l \<and> \<not> HasPrefix l totalName)"
    by (intro exI [of _ "ls @ ms"]) auto
qed

lemma aside_concat: "(\<And>t. t \<in> set ts \<Longrightarrow> aside t) \<Longrightarrow> aside (concat ts)"
  by (induction ts) (simp_all add: aside_append)

lemma aside_line: "CHR 0x0A \<notin> set l \<Longrightarrow> \<not> HasPrefix l totalName \<Longrightarrow> aside (l @ nl)"
  unfolding aside_def by (intro exI [of _ "[l]"]) simp

lemma readTotal_aside:
  assumes "aside t"
  shows "readTotal (t @ totalName @ printDec n @ nl @ rest) = Some n"
proof -
  obtain ls where t: "t = concat (map (\<lambda>l. l @ nl) ls)"
    and ls: "\<forall>l\<in>set ls. CHR 0x0A \<notin> set l \<and> \<not> HasPrefix l totalName"
    using assms by (auto simp: aside_def)
  have digits: "CHR 0x0A \<notin> set (printDec n)" using printDec_digits [of n] by (auto simp: list_all_iff)
  have last: "splitLines [] (totalName @ printDec n @ nl @ rest) = (totalName @ printDec n) # splitLines [] rest"
    using splitLines_line [of "totalName @ printDec n" "[]" rest] digits by (simp add: totalName_def nl_def)
  have "splitLines [] (concat (map (\<lambda>l. l @ nl) ls) @ cs) = ls @ splitLines [] cs" for cs
    using ls by (induction ls) (simp_all add: nl_def splitLines_line)
  then have lines: "splitLines [] (t @ totalName @ printDec n @ nl @ rest) = ls @ (totalName @ printDec n) # splitLines [] rest"
    unfolding t last by (simp add: last)
  have "find (\<lambda>l. HasPrefix l totalName) (ls @ (totalName @ printDec n) # k) = Some (totalName @ printDec n)" for k
    using ls by (induction ls) (auto simp: HasPrefix_iff)
  then show ?thesis by (simp add: readTotal_def lines)
qed

lemma aside_metricLine:
  assumes "CHR 0x0A \<notin> set label" and "name \<in> {''backend_health_status'', ''backend_active_connections'', ''backend_circuit_state''}"
  shows "aside (metricLine name label n)"
proof -
  have "CHR 0x0A \<notin> set (printDec n)" using printDec_digits [of n] by (auto simp: list_all_iff)
  then have "aside ((name @ ''{'' @ label @ ''} '' @ printDec n) @ nl)"
    by (intro aside_line) (use assms in \<open>auto simp: HasPrefix_iff totalName_def\<close>)
  then show ?thesis by (simp add: metricLine_def)
qed

lemma aside_backendLines: "CHR 0x0A \<notin> set label \<Longrightarrow> aside (backendLines G label b)"
  unfolding backendLines_def
  by (intro aside_append) (auto intro!: aside_metricLine simp: aside_line [of "[]", simplified] HasPrefix_iff totalName_def split: option.split)

subsection \<open>Properties\<close>

text \<open>No line break in a configured text that gets onto the page.\<close>

definition cleanPage :: "('cb, 'c, 'r) LoadBalancer \<Rightarrow> bool" where
  "cleanPage s \<longleftrightarrow>
     (\<forall>rt\<in>set (lbRoutes s). CHR 0x0A \<notin> set (rcPath (rtConfig rt)) \<and> CHR 0x0A \<notin> set (rcHost (rtConfig rt)) \<and>
        (\<forall>b\<in>set (backends (poolHeap s ! rtPool rt)). CHR 0x0A \<notin> set (Addr b))) \<and>
     (\<forall>e\<in>set (lbL4Pools s). CHR 0x0A \<notin> set (fst e) \<and>
        (\<forall>b\<in>set (backends (poolHeap s ! the (map_of (lbL4Pools s) (fst e)))). CHR 0x0A \<notin> set (Addr b)))"

lemma aside_routeText: "cleanPage s \<Longrightarrow> rt \<in> set (lbRoutes s) \<Longrightarrow> aside (routeText W s rt)"
  unfolding routeText_def
  by (rule aside_concat) (auto simp: cleanPage_def routeLabel_def qt_def intro!: aside_backendLines)

lemma aside_l4Text: "cleanPage s \<Longrightarrow> e \<in> set (lbL4Pools s) \<Longrightarrow> aside (l4Text W s (fst e))"
  unfolding l4Text_def
  by (rule aside_concat) (auto simp: cleanPage_def listenerLabel_def qt_def intro!: aside_backendLines)

text \<open>
  C18: The total on the metrics page, read back from the text, is the sum of the counters of all
  pools, in 64-bit arithmetic, in whatever order the map of the layer-4 pools is gone through.
\<close>

theorem metrics_total_readback:
  assumes "map_order ord" and "cleanPage s"
  shows "readTotal (rwBody (metricsHandler W itemCount ord s newWriter)) =
    Some (unat (sum_list (map (\<lambda>rt. GetTotalConnections (poolHeap s ! rtPool rt)) (lbRoutes s)) +
      sum_list (map (\<lambda>e. GetTotalConnections (poolHeap s ! the (map_of (lbL4Pools s) (fst e)))) (lbL4Pools s))))"
proof -
  let ?names = "ord (map fst (lbL4Pools s))"
  have "set ?names = fst ` set (lbL4Pools s)" using map_order_set [OF assms(1)] by simp
  then have "aside (l4Text W s name)" if "name \<in> set ?names" for name
    using that aside_l4Text [OF assms(2)] by auto
  then have "aside (concat (map (routeText W s) (lbRoutes s)) @ concat (map (l4Text W s) ?names) @ nl)"
    using aside_routeText [OF assms(2)] aside_line [of "[]"]
    by (intro aside_append aside_concat) (auto simp: HasPrefix_iff totalName_def)
  from readTotal_aside [OF this] show ?thesis
    by (simp add: metricsHandler_def metricsBody_eq [OF assms(1)] totalName_def totalConns_def routeConns_def [abs_def]
        l4Conns_def [abs_def] comp_def)
qed

text \<open>
  The page reports every backend: for each route of the routing table and each backend of its
  pool there are the lines with its health, its open connections and, where it has a circuit
  breaker, the state of the breaker, under the labels of that backend and that route.
\<close>

theorem metrics_reports_backend:
  assumes "map_order ord" and "rt \<in> set (lbRoutes s)" and "b \<in> set (backends (poolHeap s ! rtPool rt))"
  shows "\<exists>pre post. rwBody (metricsHandler W itemCount ord s newWriter) =
    pre @ backendLines (wBreaker W) (routeLabel (rtConfig rt) b) b @ post"
proof -
  obtain r1 r2 where r: "lbRoutes s = r1 @ rt # r2" using assms(2) by (meson split_list)
  obtain b1 b2 where b: "backends (poolHeap s ! rtPool rt) = b1 @ b # b2" using assms(3) by (meson split_list)
  have "\<exists>pre post. routeText W s rt = pre @ backendLines (wBreaker W) (routeLabel (rtConfig rt) b) b @ post"
    by (simp add: routeText_def b) blast
  then obtain pre post where own: "routeText W s rt = pre @ backendLines (wBreaker W) (routeLabel (rtConfig rt) b) b @ post"
    by blast
  show ?thesis
    by (simp add: metricsHandler_def metricsBody_eq [OF assms(1)] r own) (metis append_assoc)
qed

definition pageLB :: "(cb_state, tableCache_state, string \<Rightarrow> int \<times> duration) LoadBalancer" where
  "pageLB =
     \<lparr>cfgHeap = [], poolHeap = [samplePool ''round-robin'' [plainBackend ''a'' True 1 2],
        samplePool ''round-robin'' [plainBackend ''b'' False 1 3]], healthLoops = [], lbCfg = 0,
      lbRoutes = [\<lparr>rtConfig = sampleRC ''/'' [], rtPool = 0\<rparr>], lbL4Pools = [(''dns'', 1)], lbRl = None,
      lbCache = None, lbRedis = (\<lambda>_. (0, 0))\<rparr>"

lemma pageLB_sel [simp]:
  "lbRoutes pageLB = [\<lparr>rtConfig = sampleRC ''/'' [], rtPool = 0\<rparr>]" "lbL4Pools pageLB = [(''dns'', 1)]"
  "backends (poolHeap pageLB ! 0) = [plainBackend ''a'' True 1 2]"
  "backends (poolHeap pageLB ! Suc 0) = [plainBackend ''b'' False 1 3]"
  by (simp_all add: pageLB_def samplePool_def)

theorem metrics_total_readback_witness:
  "readTotal (rwBody (metricsHandler sampleWorld (\<lambda>_. 0) rev pageLB newWriter)) = Some 5"
proof -
  have "map_order rev" by (simp add: map_order_def)
  moreover have "cleanPage pageLB" by (simp add: cleanPage_def)
  ultimately show ?thesis
    using metrics_total_readback [of rev pageLB sampleWorld "\<lambda>_. 0"]
    by (simp add: GetTotalConnections_eq)
qed

theorem metrics_reports_backend_witness:
  "\<exists>pre post. rwBody (metricsHandler sampleWorld (\<lambda>_. 0) rev pageLB newWriter) =
     pre @ backendLines simpleBreaker (routeLabel (sampleRC ''/'' []) (plainBackend ''a'' True 1 2))
       (plainBackend ''a'' True 1 2) @ post"
proof -
  have "map_order rev" by (simp add: map_order_def)
  from metrics_reports_backend [OF this, of "\<lparr>rtConfig = sampleRC ''/'' [], rtPool = 0\<rparr>" pageLB
      "plainBackend ''a'' True 1 2" sampleWorld "\<lambda>_. 0"]
  show ?thesis by simp
qed

end
