(* ===== verification/LbMain.thy ===== *)
theory LbMain
  imports System Admin Metrics
begin

text \<open>
  \<open>cmd/lb/main.go\<close>: the TLS options of a listener, the start of the listeners, and the loop over
  the signals.

  \<^item> The tables of \<open>crypto/tls\<close>, \<open>CipherSuites()\<close> and \<open>InsecureCipherSuites()\<close>, are the arguments
    \<open>secure\<close> and \<open>insecure\<close>.  A slice that is only appended to is \<open>nil\<close> exactly when it is empty.
  \<^item> The record \<open>env\<close> is the environment of the process: which addresses can be listened on.
  \<^item> \<open>Process\<close> is what \<open>main\<close> holds: the balancer with the layer-4 proxies that run beside it, the
    servers and proxies it started in their order, and, once it was told to stop, what it has
    shut down; the layer-4 proxies are then no longer listening.  \<open>FE\<close> is that of \<open>UdpProxy\<close>.
  \<^item> \<open>main_step\<close> is what happens once the listeners run: \<open>main\<close> takes the next signal, or some other
    goroutine does a step of \<open>sys_step\<close> (a request, an edit of the admin API, a health check, a step of
    a layer-4 proxy, the passing of time).
  \<^item> A server is started in a goroutine.  That a later failure of it ends the whole process is left
    out, as are the logger, the flags and the deadline of the shutdown.
\<close>

type_synonym u16 = "16 word"

subsection \<open>TLS options\<close>

definition getTLSVersion :: "string \<Rightarrow> u16" where
  "getTLSVersion version =
     (if version = ''tls1.0'' then 0x0301
      else if version = ''tls1.1'' then 0x0302
      else if version = ''tls1.2'' then 0x0303
      else if version = ''tls1.3'' then 0x0304
      else 0x0303)"

primrec suites_loop :: "(string \<rightharpoonup> u16) \<Rightarrow> string list \<Rightarrow> u16 list \<Rightarrow> u16 list" where
  "suites_loop suiteMap [] suites = suites"
| "suites_loop suiteMap (name # names) suites =
     (case suiteMap name of
        Some i \<Rightarrow> suites_loop suiteMap names (suites @ [i])
      | None \<Rightarrow> suites_loop suiteMap names suites)"

definition getCipherSuites :: "(string \<times> u16) list \<Rightarrow> (string \<times> u16) list \<Rightarrow> string list \<Rightarrow> u16 list" where
  "getCipherSuites secure insecure names =
     (if names = [] then []
      else
        (let suiteMap = foldl (\<lambda>m (name, i). m(name \<mapsto> i)) Map.empty secure;
             suiteMap = foldl (\<lambda>m (name, i). m(name \<mapsto> i)) suiteMap insecure
         in suites_loop suiteMap names []))"

datatype tls_config =
    AutocertTLS "string list" string string
  | StaticTLS u16 "u16 list"

datatype serve_mode = ListenAndServe | ListenAndServeTLS string string

record HttpServer =
  hsAddr :: string
  hsTLS :: "tls_config option"
  hsMode :: serve_mode

definition autocertOn :: "ListenerConfig \<Rightarrow> bool" where
  "autocertOn l \<longleftrightarrow> (case lcAutocert l of None \<Rightarrow> False | Some a \<Rightarrow> acEnabled a)"

definition tlsConfigOf ::
  "(string \<times> u16) list \<Rightarrow> (string \<times> u16) list \<Rightarrow> ListenerConfig \<Rightarrow> tls_config option" where
  "tlsConfigOf secure insecure l =
     (if autocertOn l
      then map_option (\<lambda>a. AutocertTLS (acDomains a) (acEmail a) (acCacheDir a)) (lcAutocert l)
      else map_option
             (\<lambda>t. StaticTLS (getTLSVersion (tlMinVersion t)) (getCipherSuites secure insecure (tlCipherSuites t)))
             (lcTLS l))"

definition startAutocertChallengeServer :: HttpServer where
  "startAutocertChallengeServer = \<lparr>hsAddr = '':80'', hsTLS = None, hsMode = ListenAndServe\<rparr>"

definition serveMode :: "tls_config option \<Rightarrow> ListenerConfig \<Rightarrow> serve_mode" where
  "serveMode tlsConfig l =
     (if lcProtocol l = ''https'' \<and> tlsConfig \<noteq> None
      then (if autocertOn l then ListenAndServeTLS [] []
            else case lcTLS l of
                   Some t \<Rightarrow> ListenAndServeTLS (tlCertFile t) (tlKeyFile t)
                 | None \<Rightarrow> ListenAndServe)
      else ListenAndServe)"

definition startHttpListener ::
  "(string \<times> u16) list \<Rightarrow> (string \<times> u16) list \<Rightarrow> ListenerConfig \<Rightarrow> HttpServer \<times> HttpServer option" where
  "startHttpListener secure insecure l =
     (let tlsConfig = tlsConfigOf secure insecure l in
        (\<lparr>hsAddr = lcListenAddr l, hsTLS = tlsConfig, hsMode = serveMode tlsConfig l\<rparr>,
         if autocertOn l then Some startAutocertChallengeServer else None))"

subsection \<open>The listener loop\<close>

record env =
  evSecure :: "(string \<times> u16) list"
  evInsecure :: "(string \<times> u16) list"
  evListen :: "string \<Rightarrow> bool"
  evResolveUDP :: "string \<Rightarrow> string option"
  evListenUDP :: "string \<Rightarrow> bool"

datatype stopped = StoppedUdp string | StoppedTcp string | StoppedHttp string | StoppedAdmin

record ('cb, 'c, 'r) Process =
  prSys :: "('cb, 'c, 'r) system"
  prMetrics :: bool
  prAdmin :: bool
  prHttp :: "HttpServer list"
  prTcp :: "(string \<times> nat) list"
  prUdp :: "(string \<times> nat) list"
  prStopped :: "stopped list option"

definition startListener :: "env \<Rightarrow> ListenerConfig \<Rightarrow> ('cb, 'c, 'r) Process \<Rightarrow> ('cb, 'c, 'r) Process" where
  "startListener E l p =
     (if isL7 l then
        (case startHttpListener (evSecure E) (evInsecure E) l of
           (mainServer, acmeServer) \<Rightarrow>
             p\<lparr>prHttp := prHttp p @ [mainServer] @ (case acmeServer of None \<Rightarrow> [] | Some srv \<Rightarrow> [srv])\<rparr>)
      else if lcProtocol l = ''tcp'' then
        (case NewTcpProxy (evListen E) l (sysLB (prSys p)) of
           Inl e \<Rightarrow> p
         | Inr ref \<Rightarrow> p\<lparr>prTcp := prTcp p @ [(lcName l, ref)], prSys := runTcp ref (prSys p)\<rparr>)
      else if lcProtocol l = ''udp'' then
        (case NewUDPProxy (evResolveUDP E) (evListenUDP E) l (sysLB (prSys p)) of
           Inl e \<Rightarrow> p
         | Inr ref \<Rightarrow> p\<lparr>prUdp := prUdp p @ [(lcName l, ref)], prSys := runUdp ref (prSys p)\<rparr>)
      else p)"

primrec startListeners :: "env \<Rightarrow> ListenerConfig list \<Rightarrow> ('cb, 'c, 'r) Process \<Rightarrow> ('cb, 'c, 'r) Process" where
  "startListeners E [] p = p"
| "startListeners E (l # ls) p = startListeners E ls (startListener E l p)"

definition startProcess :: "env \<Rightarrow> ('cb, 'c, 'r) world \<Rightarrow> Config \<Rightarrow> 'r \<Rightarrow> ('cb, 'c, 'r) Process" where
  "startProcess E W cfg redis =
     startListeners E (cfListeners cfg)
       \<lparr>prSys = sysStart W cfg redis, prMetrics = (cfMetricsAddr cfg \<noteq> []),
        prAdmin = (cfAdminAddr cfg \<noteq> []), prHttp = [], prTcp = [], prUdp = [], prStopped = None\<rparr>"

subsection \<open>Signals\<close>

datatype os_signal = SIGINT | SIGTERM | SIGHUP

definition gracefulShutdown :: "bool \<Rightarrow> ('cb, 'c, 'r) Process \<Rightarrow> ('cb, 'c, 'r) Process" where
  "gracefulShutdown FE p =
     p\<lparr>prSys := shutdownTcp (shutdownUdp FE (prSys p)),
       prStopped := Some
         (map (\<lambda>e. StoppedUdp (fst e)) (prUdp p) @ map (\<lambda>e. StoppedTcp (fst e)) (prTcp p) @
          map (\<lambda>s. StoppedHttp (hsAddr s)) (prHttp p) @ (if prAdmin p then [StoppedAdmin] else []))\<rparr>"

definition handleSignal ::
  "('cb, 'c, 'r) world \<Rightarrow> bool \<Rightarrow> os_signal \<Rightarrow> config_error + Config \<Rightarrow> ('cb, 'c, 'r) Process \<Rightarrow> ('cb, 'c, 'r) Process" where
  "handleSignal W FE sig loaded p =
     (case sig of
        SIGHUP \<Rightarrow>
          (case loaded of
             Inl e \<Rightarrow> p
           | Inr newCfg \<Rightarrow> p\<lparr>prSys := (prSys p)\<lparr>sysLB := ReloadConfig W newCfg (sysLB (prSys p))\<rparr>\<rparr>)
      | _ \<Rightarrow> gracefulShutdown FE p)"

text \<open>
  The loop over the signals, each with what \<open>LoadConfig\<close> would give at that moment, and what the
  other goroutines do before, between and after them.  A signal to stop ends the loop.
\<close>

datatype main_event = Signal os_signal "config_error + Config" | Work sys_event

inductive main_step ::
  "('cb, 'c, 'r) world \<Rightarrow> main_event \<Rightarrow> ('cb, 'c, 'r) Process \<Rightarrow> ('cb, 'c, 'r) Process \<Rightarrow> bool" for W where
  signal: "prStopped p = None \<Longrightarrow> main_step W (Signal sig loaded) p (handleSignal W FE sig loaded p)"
| work: "e \<noteq> EvReload \<Longrightarrow> e \<noteq> EvStart \<Longrightarrow> sys_step W e (prSys p) s \<Longrightarrow> main_step W (Work e) p (p\<lparr>prSys := s\<rparr>)"

inductive main_run ::
  "('cb, 'c, 'r) world \<Rightarrow> ('cb, 'c, 'r) Process \<Rightarrow> main_event list \<Rightarrow> ('cb, 'c, 'r) Process \<Rightarrow> bool" for W p where
  none: "main_run W p [] p"
| step: "main_run W p es q \<Longrightarrow> main_step W e q q' \<Longrightarrow> main_run W p (es @ [e]) q'"

text \<open>The whole of \<open>main\<close>: a configuration that cannot be loaded at the start is fatal.\<close>

definition lbMain ::
  "env \<Rightarrow> ('cb, 'c, 'r) world \<Rightarrow> config_error + Config \<Rightarrow> 'r \<Rightarrow> main_event list \<Rightarrow> ('cb, 'c, 'r) Process \<Rightarrow> bool" where
  "lbMain E W loaded redis evs p \<longleftrightarrow>
     (case loaded of
        Inl e \<Rightarrow> False
      | Inr cfg \<Rightarrow> main_run W (startProcess E W cfg redis) evs p)"

subsection \<open>What the loops compute\<close>

lemma suites_loop_eq:
  "suites_loop m names suites = suites @ map (\<lambda>n. the (m n)) (filter (\<lambda>n. m n \<noteq> None) names)"
  by (induction names arbitrary: suites) (auto split: option.split)

lemma foldl_table: "foldl (\<lambda>m (name, i). m(name \<mapsto> i)) m xs = m ++ map_of (rev xs)"
proof (induction xs rule: rev_induct)
  case (snoc x xs)
  then show ?case by (cases x) (auto simp: map_add_def fun_eq_iff split: option.split)
qed simp

lemma startListener_frame [simp]:
  "sysLB (prSys (startListener E l p)) = sysLB (prSys p)" "prStopped (startListener E l p) = prStopped p"
  by (auto simp: startListener_def split: prod.split sum.split)

lemma startListeners_frame [simp]:
  "sysLB (prSys (startListeners E ls p)) = sysLB (prSys p)" "prStopped (startListeners E ls p) = prStopped p"
  by (induction ls arbitrary: p) simp_all

lemma startProcess_frame [simp]:
  "sysLB (prSys (startProcess E W cfg redis)) = NewLoadBalancer W cfg redis" "prStopped (startProcess E W cfg redis) = None"
  by (simp_all add: startProcess_def sysStart_def)

text \<open>Where a name ends up in the table of layer-4 pools: at the last listener that has it.\<close>

lemma l4Names_other: "k \<notin> lcName ` set ls \<Longrightarrow> map_of (l4Names n ls m) k = map_of m k"
  by (induction ls arbitrary: n m) (auto simp: update_conv')

lemma l4Names_lookup:
  "k \<in> lcName ` set ls \<Longrightarrow>
     \<exists>j<length ls. lcName (ls ! j) = k \<and> map_of (l4Names n ls m) k = Some (n + j)"
proof (induction ls arbitrary: n m)
  case (Cons l ls)
  show ?case
  proof (cases "k \<in> lcName ` set ls")
    case True
    from Cons.IH [OF this, of "Suc n" "AList.update (lcName l) n m"] show ?thesis
      by (metis Suc_less_eq add_Suc_shift l4Names_simps(2) length_Cons nth_Cons_Suc)
  next
    case False
    with Cons.prems have "k = lcName l" by simp
    with l4Names_other [OF False, of "Suc n" "AList.update (lcName l) n m"] show ?thesis
      by (intro exI [of _ 0]) (simp add: update_conv')
  qed
qed simp

text \<open>The pool in the table when the balancer has just been built.\<close>

lemma start_pool:
  assumes "l \<in> set (cfListeners cfg)" and "isL4 l"
  obtains ref l' where "map_of (lbL4Pools (NewLoadBalancer W cfg redis)) (lcName l) = Some ref"
    and "ref < length (poolHeap (NewLoadBalancer W cfg redis))"
    and "poolHeap (NewLoadBalancer W cfg redis) ! ref = l4Pool W cfg ref l'"
    and "l' \<in> set (l4Configs cfg)" and "lcName l' = lcName l"
proof -
  let ?ls = "l4Configs cfg" and ?n = "length (l7Configs cfg)"
  have "lcName l \<in> lcName ` set ?ls" using assms by (simp add: l4Configs_def)
  from l4Names_lookup [OF this, of ?n "[]"] obtain j where j: "j < length ?ls" "lcName (?ls ! j) = lcName l"
    and at: "map_of (l4Names ?n ?ls []) (lcName l) = Some (?n + j)" by blast
  show thesis
  proof
    show "map_of (lbL4Pools (NewLoadBalancer W cfg redis)) (lcName l) = Some (?n + j)"
      using at by (simp add: NewLoadBalancer_eq reloadConfig_unsafe_eq Let_def emptyBalancer_def)
    show "?n + j < length (poolHeap (NewLoadBalancer W cfg redis))"
      "poolHeap (NewLoadBalancer W cfg redis) ! (?n + j) = l4Pool W cfg (?n + j) (?ls ! j)"
      using j(1) by (simp_all add: NewLoadBalancer_eq reload_frame allocated_def emptyBalancer_def nth_append l4Alloc_nth)
  qed (use j in simp_all)
qed

lemma distinct_names: "distinct (map lcName ls) \<Longrightarrow> l \<in> set ls \<Longrightarrow> l' \<in> set ls \<Longrightarrow> lcName l' = lcName l \<Longrightarrow> l' = l"
  by (metis distinct_map inj_onD)

definition inForce :: "('cb, 'c, 'r) LoadBalancer \<Rightarrow> Config" where
  "inForce s = cfgHeap s ! lbCfg s"

lemma ReloadConfig_inForce [simp]: "inForce (ReloadConfig W cfg s) = cfg"
  by (simp add: inForce_def ReloadConfig_def reload_frame nth_append)

lemma NewLoadBalancer_inForce [simp]: "inForce (NewLoadBalancer W cfg redis) = cfg"
  by (simp add: inForce_def NewLoadBalancer_eq reload_frame emptyBalancer_def)

lemma gracefulShutdown_frame [simp]:
  "sysLB (prSys (gracefulShutdown FE p)) = sysLB (prSys p)" "prHttp (gracefulShutdown FE p) = prHttp p"
  "prTcp (gracefulShutdown FE p) = prTcp p" "prUdp (gracefulShutdown FE p) = prUdp p"
  "prAdmin (gracefulShutdown FE p) = prAdmin p"
  by (simp_all add: gracefulShutdown_def)

lemma handleSignal_frame [simp]:
  "prHttp (handleSignal W FE sig loaded p) = prHttp p" "prTcp (handleSignal W FE sig loaded p) = prTcp p"
  "prUdp (handleSignal W FE sig loaded p) = prUdp p" "prAdmin (handleSignal W FE sig loaded p) = prAdmin p"
  by (auto simp: handleSignal_def split: os_signal.splits sum.splits)

text \<open>
  What the signals of a run have loaded, and whether the admin API has edited the configuration
  since the last time.
\<close>

definition loads :: "main_event \<Rightarrow> Config option" where
  "loads e = (case e of Signal SIGHUP (Inr c) \<Rightarrow> Some c | _ \<Rightarrow> None)"

definition reloads :: "main_event list \<Rightarrow> Config list" where
  "reloads evs = List.map_filter loads evs"

definition editedSince :: "main_event list \<Rightarrow> bool" where
  "editedSince evs \<longleftrightarrow> foldl (\<lambda>d e. if loads e \<noteq> None then False else d \<or> e = Work EvEdit) False evs"

definition goesOn :: "main_event \<Rightarrow> bool" where
  "goesOn e = (case e of Signal sig _ \<Rightarrow> sig = SIGHUP | Work _ \<Rightarrow> True)"

definition withoutRoutes :: "Config \<Rightarrow> Config" where
  "withoutRoutes c = c\<lparr>cfListeners := map (\<lambda>l. l\<lparr>lcRoutes := []\<rparr>) (cfListeners c)\<rparr>"

lemma reloads_simps [simp]:
  "reloads [] = []" "reloads (evs @ [e]) = reloads evs @ (case loads e of None \<Rightarrow> [] | Some c \<Rightarrow> [c])"
  by (auto simp: reloads_def List.map_filter_def split: option.split)

lemma editedSince_simps [simp]:
  "\<not> editedSince []" "editedSince (evs @ [e]) \<longleftrightarrow> loads e = None \<and> (editedSince evs \<or> e = Work EvEdit)"
  by (auto simp: editedSince_def)

lemma loads_simps [simp]:
  "loads (Signal SIGHUP (Inr c)) = Some c" "loads (Signal SIGHUP (Inl e)) = None" "sig \<noteq> SIGHUP \<Longrightarrow> loads (Signal sig l) = None"
  "loads (Work w) = None"
  by (auto simp: loads_def split: os_signal.split)

lemma handleSignal_simps:
  "handleSignal W FE SIGHUP (Inl e) p = p"
  "handleSignal W FE SIGHUP (Inr c) p = p\<lparr>prSys := (prSys p)\<lparr>sysLB := ReloadConfig W c (sysLB (prSys p))\<rparr>\<rparr>"
  "sig \<noteq> SIGHUP \<Longrightarrow> handleSignal W FE sig l p = gracefulShutdown FE p"
  by (cases sig; simp add: handleSignal_def)+

subsection \<open>The configuration in force\<close>

lemma commit_withoutRoutes: "withoutRoutes (inForce (commit W lp rs s)) = withoutRoutes (inForce s)"
proof -
  have "map (\<lambda>l. l\<lparr>lcRoutes := []\<rparr>) ((cfListeners c)[i := (cfListeners c ! i)\<lparr>lcRoutes := rs\<rparr>]) =
      map (\<lambda>l. l\<lparr>lcRoutes := []\<rparr>) (cfListeners c)" for c :: Config and i
    by (rule map_list_update_same) simp
  then show ?thesis
    by (simp add: inForce_def commit_def reload_frame setRoutes_frame setRoutes_cfg withoutRoutes_def listenerAt_def)
qed

lemma sys_step_inForce:
  assumes "sys_step W e s s'" and "e \<noteq> EvReload"
  shows "withoutRoutes (inForce (sysLB s')) = withoutRoutes (inForce (sysLB s))"
    and "e \<noteq> EvEdit \<Longrightarrow> inForce (sysLB s') = inForce (sysLB s)"
proof -
  have lb: "withoutRoutes (inForce lb) = withoutRoutes (inForce t) \<and> (e = EvEdit \<or> inForce lb = inForce t)"
    if "lb_step W e t lb" for t lb
    using that by (cases rule: lb_step_kinds) (use assms(2) in \<open>simp_all add: commit_withoutRoutes\<close>, simp_all add: inForce_def ServeHTTP_frame)
  have "withoutRoutes (inForce (sysLB s')) = withoutRoutes (inForce (sysLB s)) \<and>
      (e = EvEdit \<or> inForce (sysLB s') = inForce (sysLB s))"
    using assms(1) by cases (simp_all add: lb, simp_all add: inForce_def)
  then show "withoutRoutes (inForce (sysLB s')) = withoutRoutes (inForce (sysLB s))"
    "e \<noteq> EvEdit \<Longrightarrow> inForce (sysLB s') = inForce (sysLB s)" by blast+
qed

text \<open>One event: a signal that loads nothing, one that loads, one that stops, or work.\<close>

lemma main_step_kinds:
  assumes "main_step W ev p p'"
  obtains (failed) e where "ev = Signal SIGHUP (Inl e)" "p' = p" "prStopped p = None"
  | (reload) c where "ev = Signal SIGHUP (Inr c)" "prStopped p = None"
      "p' = p\<lparr>prSys := (prSys p)\<lparr>sysLB := ReloadConfig W c (sysLB (prSys p))\<rparr>\<rparr>"
  | (stop) FE sig l where "ev = Signal sig l" "sig \<noteq> SIGHUP" "p' = gracefulShutdown FE p" "prStopped p = None"
  | (work) e s where "ev = Work e" "e \<noteq> EvReload" "sys_step W e (prSys p) s" "p' = p\<lparr>prSys := s\<rparr>"
  using assms
proof cases
  case (signal sig loaded FE)
  show thesis
  proof (cases "sig = SIGHUP")
    case True
    with signal show ?thesis by (cases loaded) (auto simp: handleSignal_simps intro: failed reload)
  next
    case False
    with signal show ?thesis by (auto simp: handleSignal_simps intro: stop)
  qed
qed (auto intro: work)

lemma main_run_frame:
  "main_run W p es q \<Longrightarrow> prHttp q = prHttp p \<and> prTcp q = prTcp p \<and> prUdp q = prUdp p \<and> prAdmin q = prAdmin p"
  by (induction rule: main_run.induct) (auto elim!: main_step_kinds)

lemma main_run_inForce:
  assumes "main_run W p es q"
  shows "withoutRoutes (inForce (sysLB (prSys q))) = withoutRoutes (last (inForce (sysLB (prSys p)) # reloads es)) \<and>
    (editedSince es \<or> inForce (sysLB (prSys q)) = last (inForce (sysLB (prSys p)) # reloads es))"
  using assms
proof induction
  case (step es q ev q')
  from step.hyps(2) show ?case
  proof (cases rule: main_step_kinds)
    case (work e s)
    then show ?thesis using step.IH sys_step_inForce [OF work(3,2)] by (cases "e = EvEdit") auto
  qed (use step.IH in simp_all)
qed simp

lemma main_run_reachable:
  assumes "main_run W p es q" and "sys_run W s0 fs (prSys p)"
  shows "\<exists>gs. sys_run W s0 gs (prSys q)"
  using assms
proof induction
  case (step es q ev q')
  then obtain gs where gs: "sys_run W s0 gs (prSys q)" by blast
  from step.hyps(2) show ?case
  proof (cases rule: main_step_kinds)
    case (reload c)
    from sys_run.step [OF gs sys_step.balancer [OF lb_step.reload]] reload show ?thesis by auto
  next
    case (work e s)
    from sys_run.step [OF gs work(3)] work(4) show ?thesis by auto
  next
    case (stop FE sig l)
    obtain gs' where "sys_run W s0 gs' (shutdownUdp FE (prSys q))" using shutdownUdp_run [OF gs] by blast
    from shutdownTcp_run [OF this] stop show ?thesis by (simp add: gracefulShutdown_def)
  qed (use gs in auto)
qed auto

lemma startListener_run: "\<exists>gs. sys_run W s0 gs (prSys p) \<Longrightarrow> \<exists>gs. sys_run W s0 gs (prSys (startListener E l p))"
  by (auto simp: startListener_def split: prod.split sum.split
      intro: sys_run.step sys_step.startTcp sys_step.startUdp)

lemma startListeners_run: "\<exists>gs. sys_run W s0 gs (prSys p) \<Longrightarrow> \<exists>gs. sys_run W s0 gs (prSys (startListeners E ls p))"
  by (induction ls arbitrary: p) (simp_all add: startListener_run)

lemma startProcess_run: "\<exists>gs. sys_run W (sysStart W cfg redis) gs (prSys (startProcess E W cfg redis))"
  unfolding startProcess_def by (rule startListeners_run) (auto intro: sys_run.none)

definition allStopped :: "('cb, 'c, 'r) Process \<Rightarrow> stopped list" where
  "allStopped p =
     map (\<lambda>e. StoppedUdp (fst e)) (prUdp p) @ map (\<lambda>e. StoppedTcp (fst e)) (prTcp p) @
     map (\<lambda>s. StoppedHttp (hsAddr s)) (prHttp p) @ (if prAdmin p then [StoppedAdmin] else [])"

lemma gracefulShutdown_stopped [simp]: "prStopped (gracefulShutdown FE p) = Some (allStopped p)"
  by (simp add: gracefulShutdown_def allStopped_def)

lemma goesOn_simps [simp]: "goesOn (Work w)" "goesOn (Signal sig l) \<longleftrightarrow> sig = SIGHUP"
  by (simp_all add: goesOn_def)

lemma main_run_stopped:
  assumes "main_run W p es q" and "prStopped p = None"
  shows "prStopped q = (if list_all goesOn es then None else Some (allStopped p))"
  using assms
proof induction
  case (step es q ev q')
  have all: "allStopped q = allStopped p" using main_run_frame [OF step.hyps(1)] by (simp add: allStopped_def)
  from step.hyps(2) show ?case
    by (cases rule: main_step_kinds) (use step.IH step.prems all in \<open>auto split: if_splits\<close>)
qed simp

lemma startListeners_started:
  assumes "\<And>a. evListen E a" and "\<And>a. evResolveUDP E a \<noteq> None" and "\<And>a. evListenUDP E a"
    and "\<And>l. l \<in> set ls \<Longrightarrow> isL4 l \<Longrightarrow> map_of (lbL4Pools (sysLB (prSys p))) (lcName l) \<noteq> None"
  shows "map fst (prTcp (startListeners E ls p)) = map fst (prTcp p) @ map lcName (filter (\<lambda>l. lcProtocol l = ''tcp'') ls)
    \<and> map fst (prUdp (startListeners E ls p)) = map fst (prUdp p) @ map lcName (filter (\<lambda>l. lcProtocol l = ''udp'') ls)
    \<and> map hsAddr (prHttp (startListeners E ls p)) =
        map hsAddr (prHttp p) @ concat (map (\<lambda>l. lcListenAddr l # (if autocertOn l then ['':80''] else [])) (filter isL7 ls))"
  using assms(4)
proof (induction ls arbitrary: p)
  case (Cons l ls)
  have pool: "isL4 l \<Longrightarrow> map_of (lbL4Pools (sysLB (prSys p))) (lcName l) \<noteq> None" using Cons.prems by simp
  have IH: "map fst (prTcp (startListeners E ls (startListener E l p))) =
        map fst (prTcp (startListener E l p)) @ map lcName (filter (\<lambda>l. lcProtocol l = ''tcp'') ls)
    \<and> map fst (prUdp (startListeners E ls (startListener E l p))) =
        map fst (prUdp (startListener E l p)) @ map lcName (filter (\<lambda>l. lcProtocol l = ''udp'') ls)
    \<and> map hsAddr (prHttp (startListeners E ls (startListener E l p))) =
        map hsAddr (prHttp (startListener E l p)) @
        concat (map (\<lambda>l. lcListenAddr l # (if autocertOn l then ['':80''] else [])) (filter isL7 ls))"
    by (rule Cons.IH) (use Cons.prems in simp)
  consider "isL7 l" | "lcProtocol l = ''tcp''" | "lcProtocol l = ''udp''" | "\<not> isL7 l" "\<not> isL4 l"
    by (auto simp: isL4_def)
  then show ?case
  proof cases
    case 1
    then have "lcProtocol l \<noteq> ''tcp''" "lcProtocol l \<noteq> ''udp''" by (auto simp: isL7_def)
    with 1 IH show ?thesis
      by (simp add: startListener_def startHttpListener_def startAutocertChallengeServer_def Let_def)
  next
    case 2
    then have "\<not> isL7 l" "isL4 l" by (simp_all add: isL7_def isL4_def)
    with 2 IH pool show ?thesis
      by (auto simp: startListener_def NewTcpProxy_def assms(1) split: option.splits)
  next
    case 3
    then have "\<not> isL7 l" "isL4 l" by (simp_all add: isL7_def isL4_def)
    with 3 IH pool assms(2) show ?thesis
      by (auto simp: startListener_def NewUDPProxy_def assms(3) split: option.splits)
  next
    case 4
    with IH show ?thesis by (simp add: startListener_def isL4_def)
  qed
qed simp

subsection \<open>Properties\<close>

text \<open>
  C39: Every configured listener is started: where the addresses can be bound, the proxies and
  servers that \<open>main\<close> has started are those of the configuration, in its order, with one
  challenge server on port 80 behind each listener that has automatic certificates.
\<close>

theorem main_starts_listeners:
  assumes "\<forall>a. evListen E a \<and> evListenUDP E a \<and> evResolveUDP E a \<noteq> None"
  shows "map fst (prTcp (startProcess E W cfg redis)) = map lcName (filter (\<lambda>l. lcProtocol l = ''tcp'') (cfListeners cfg))
    \<and> map fst (prUdp (startProcess E W cfg redis)) = map lcName (filter (\<lambda>l. lcProtocol l = ''udp'') (cfListeners cfg))
    \<and> map hsAddr (prHttp (startProcess E W cfg redis)) =
        concat (map (\<lambda>l. lcListenAddr l # (if autocertOn l then ['':80''] else [])) (filter isL7 (cfListeners cfg)))"
proof -
  have found: "map_of (lbL4Pools (NewLoadBalancer W cfg redis)) (lcName l) \<noteq> None"
    if "l \<in> set (cfListeners cfg)" "isL4 l" for l
    using start_pool [OF that, of W redis] by (metis option.distinct(1))
  show ?thesis
    unfolding startProcess_def
    using startListeners_started [of E "cfListeners cfg" "\<lparr>prSys = sysStart W cfg redis, prMetrics = cfMetricsAddr cfg \<noteq> [],
        prAdmin = cfAdminAddr cfg \<noteq> [], prHttp = [], prTcp = [], prUdp = [], prStopped = None\<rparr>"] assms found
    by (simp add: sysStart_def)
qed

definition openEnv :: env where
  "openEnv = \<lparr>evSecure = [(''TLS_AES_128_GCM_SHA256'', 0x1301)], evInsecure = [(''TLS_RSA_WITH_RC4_128_SHA'', 0x0005)],
     evListen = (\<lambda>_. True), evResolveUDP = Some, evListenUDP = (\<lambda>_. True)\<rparr>"

theorem main_starts_listeners_witness:
  "map fst (prUdp (startProcess openEnv sampleWorld
     (sampleConfig [sampleListener ''web'' ''http'' [] [], sampleListener ''dns'' ''udp'' [] []]) (\<lambda>_. (0, 0)))) = [''dns'']"
  using main_starts_listeners [of openEnv sampleWorld
      "sampleConfig [sampleListener ''web'' ''http'' [] [], sampleListener ''dns'' ''udp'' [] []]" "\<lambda>_. (0, 0)"]
  by (simp add: openEnv_def)

text \<open>
  C17: A layer-4 proxy gets the pool of its own listener: where the names of the layer-4 listeners
  differ, the pool that \<open>NewTcpProxy\<close> and \<open>NewUDPProxy\<close> find when the process starts was built
  from the strategy and the backends of that listener.
\<close>

theorem l4_proxy_pool:
  assumes "l \<in> set (cfListeners cfg)" and "isL4 l" and "distinct (map lcName (filter isL4 (cfListeners cfg)))"
    and "listen (lcListenAddr l)" and "resolve (lcListenAddr l) = Some a" and "listenUDP a"
  shows "\<exists>ref. NewTcpProxy listen l (NewLoadBalancer W cfg redis) = Inr ref
    \<and> NewUDPProxy resolve listenUDP l (NewLoadBalancer W cfg redis) = Inr ref
    \<and> ref < length (poolHeap (NewLoadBalancer W cfg redis))
    \<and> poolHeap (NewLoadBalancer W cfg redis) ! ref = l4Pool W cfg ref l"
proof (rule start_pool [OF assms(1,2), of W redis])
  fix ref l'
  assume at: "map_of (lbL4Pools (NewLoadBalancer W cfg redis)) (lcName l) = Some ref"
    "ref < length (poolHeap (NewLoadBalancer W cfg redis))"
    "poolHeap (NewLoadBalancer W cfg redis) ! ref = l4Pool W cfg ref l'"
    and l': "l' \<in> set (l4Configs cfg)" "lcName l' = lcName l"
  have "l' = l"
    by (rule distinct_names [OF assms(3)]) (use assms(1,2) l' in \<open>simp_all add: l4Configs_def\<close>)
  with at show ?thesis by (simp add: NewTcpProxy_def NewUDPProxy_def assms(4-6))
qed

theorem l4_proxy_pool_witness:
  "\<exists>ref. NewTcpProxy (\<lambda>_. True) (sampleListener ''db'' ''tcp'' [] [\<lparr>bcAddr = ''a'', bcWeight = 1\<rparr>])
     (NewLoadBalancer sampleWorld (sampleConfig [sampleListener ''db'' ''tcp'' [] [\<lparr>bcAddr = ''a'', bcWeight = 1\<rparr>],
        sampleListener ''dns'' ''udp'' [] []]) (\<lambda>_. (0, 0))) = Inr ref"
proof -
  let ?l = "sampleListener ''db'' ''tcp'' [] [\<lparr>bcAddr = ''a'', bcWeight = 1\<rparr>]"
  let ?cfg = "sampleConfig [?l, sampleListener ''dns'' ''udp'' [] []]"
  have "?l \<in> set (cfListeners ?cfg)" "isL4 ?l" "distinct (map lcName (filter isL4 (cfListeners ?cfg)))"
    by (simp_all add: isL4_def)
  from l4_proxy_pool [OF this, of "\<lambda>_. True" Some _ "\<lambda>_. True" sampleWorld "\<lambda>_. (0, 0)"] show ?thesis by blast
qed

text \<open>
  What a listener serves: TLS exactly if its protocol is \<open>https\<close> and it has automatic
  certificates or a TLS section; an \<open>https\<close> listener with neither serves plain HTTP, and an \<open>http\<close>
  listener does whatever its TLS section says.
\<close>

theorem https_without_tls_is_plain:
  "hsMode (fst (startHttpListener secure insecure l)) = ListenAndServe \<longleftrightarrow>
     \<not> (lcProtocol l = ''https'' \<and> (autocertOn l \<or> lcTLS l \<noteq> None))"
  by (auto simp: startHttpListener_def Let_def serveMode_def tlsConfigOf_def autocertOn_def split: option.split)

text \<open>
  The TLS options: the minimum version is one of TLS 1.0 to 1.3, and the cipher suites are the
  configured names that are known, in the configured order, the insecure table winning over the
  secure one.
\<close>

theorem tls_options:
  "0x0301 \<le> getTLSVersion v \<and> getTLSVersion v \<le> 0x0304 \<and>
   getCipherSuites secure insecure names =
     map (\<lambda>n. the ((map_of (rev secure) ++ map_of (rev insecure)) n))
       (filter (\<lambda>n. (map_of (rev secure) ++ map_of (rev insecure)) n \<noteq> None) names)"
proof -
  have "getCipherSuites secure insecure names =
     map (\<lambda>n. the ((map_of (rev secure) ++ map_of (rev insecure)) n))
       (filter (\<lambda>n. (map_of (rev secure) ++ map_of (rev insecure)) n \<noteq> None) names)"
    by (cases "names = []")
      (simp_all only: getCipherSuites_def Let_def foldl_table suites_loop_eq empty_map_add append_Nil if_True if_False
        filter.simps list.map refl)
  then show ?thesis by (simp only: getTLSVersion_def) simp
qed

text \<open>
  C16: The signals.  Whatever the other goroutines do before, between and after them: a
  configuration that cannot be loaded changes nothing; the configuration in force is the last
  one that was loaded, unless the admin API has edited it since, and then it differs from that
  in routes only; the balancer stays in a reachable state; the listeners are those of the start,
  so a listener that a reload adds is never started; and the process stops exactly at a signal
  other than \<open>SIGHUP\<close>.
\<close>

theorem main_signals:
  assumes "lbMain E W (Inr cfg) redis evs p"
  shows "let c = cfgHeap (sysLB (prSys p)) ! lbCfg (sysLB (prSys p)) in
    (editedSince evs \<or> c = last (cfg # reloads evs))
    \<and> withoutRoutes c = withoutRoutes (last (cfg # reloads evs))
    \<and> lb_reachable W (sysLB (prSys p))
    \<and> prHttp p = prHttp (startProcess E W cfg redis) \<and> prTcp p = prTcp (startProcess E W cfg redis)
    \<and> prUdp p = prUdp (startProcess E W cfg redis)
    \<and> (prStopped p = None \<longleftrightarrow> list_all goesOn evs)"
proof -
  have run: "main_run W (startProcess E W cfg redis) evs p" using assms(1) by (simp add: lbMain_def)
  obtain gs where "sys_run W (sysStart W cfg redis) gs (prSys (startProcess E W cfg redis))"
    using startProcess_run [where W = W and cfg = cfg and redis = redis and E = E] by blast
  from main_run_reachable [OF run this] have "lb_reachable W (sysLB (prSys p))"
    unfolding lb_reachable_def by blast
  then show ?thesis
    using main_run_frame [OF run] main_run_inForce [OF run] main_run_stopped [OF run]
    by (simp add: Let_def inForce_def [symmetric])
qed

text \<open>A failed reload, a good one, a request, and the end.\<close>

lemma sampleMain:
  "\<exists>p. lbMain openEnv sampleWorld (Inr (sampleConfig [])) (\<lambda>_. (0, 0))
    [Signal SIGHUP (Inl (OpenFailed ''gone'')), Signal SIGHUP (Inr (sampleConfig [sampleListener ''web'' ''http'' [] []])),
     Work EvServe, Signal SIGTERM (Inl (OpenFailed []))] p"
proof -
  let ?p = "startProcess openEnv sampleWorld (sampleConfig []) (\<lambda>_. (0, 0))"
  let ?c = "sampleConfig [sampleListener ''web'' ''http'' [] []]" and ?e = "OpenFailed ''gone''"
  let ?p1 = "handleSignal sampleWorld False SIGHUP (Inl ?e) ?p"
  let ?p2 = "handleSignal sampleWorld False SIGHUP (Inr ?c) ?p1"
  have s1: "main_step sampleWorld (Signal SIGHUP (Inl ?e)) ?p ?p1" by (rule main_step.signal) simp
  have s2: "main_step sampleWorld (Signal SIGHUP (Inr ?c)) ?p1 ?p2"
    by (rule main_step.signal) (simp add: handleSignal_simps)
  let ?p3 = "?p2\<lparr>prSys := (prSys ?p2)\<lparr>sysLB := fst (ServeHTTP sampleWorld [] (\<lambda>_. RtError []) (sampleGet [] [] [])
      newWriter (sysLB (prSys ?p2)))\<rparr>\<rparr>"
  have s3: "main_step sampleWorld (Work EvServe) ?p2 ?p3"
    by (rule main_step.work [OF _ _ sys_step.balancer [OF lb_step.serve]]) simp_all
  have run: "prStopped ?p3 = None" by (simp add: handleSignal_simps)
  have s4: "main_step sampleWorld (Signal SIGTERM (Inl (OpenFailed []))) ?p3 (handleSignal sampleWorld False SIGTERM (Inl (OpenFailed [])) ?p3)"
    using run by (rule main_step.signal)
  from main_run.step [OF main_run.step [OF main_run.step [OF main_run.step [OF main_run.none s1] s2] s3] s4]
  show ?thesis by (auto simp: lbMain_def)
qed

theorem main_signals_witness:
  "\<exists>p. lbMain openEnv sampleWorld (Inr (sampleConfig [])) (\<lambda>_. (0, 0))
      [Signal SIGHUP (Inl (OpenFailed ''gone'')), Signal SIGHUP (Inr (sampleConfig [sampleListener ''web'' ''http'' [] []])),
       Work EvServe, Signal SIGTERM (Inl (OpenFailed []))] p
    \<and> cfgHeap (sysLB (prSys p)) ! lbCfg (sysLB (prSys p)) = sampleConfig [sampleListener ''web'' ''http'' [] []]
    \<and> prStopped p \<noteq> None"
proof -
  let ?evs = "[Signal SIGHUP (Inl (OpenFailed ''gone'')), Signal SIGHUP (Inr (sampleConfig [sampleListener ''web'' ''http'' [] []])),
       Work EvServe, Signal SIGTERM (Inl (OpenFailed []))]"
  obtain p where p: "lbMain openEnv sampleWorld (Inr (sampleConfig [])) (\<lambda>_. (0, 0)) ?evs p" using sampleMain by blast
  have "reloads ?evs = [sampleConfig [sampleListener ''web'' ''http'' [] []]]" "\<not> editedSince ?evs"
    by (simp_all add: reloads_def editedSince_def List.map_filter_def)
  with main_signals [OF p] p show ?thesis by (auto simp: Let_def)
qed

text \<open>
  The shutdown reaches everything that takes requests: when the process stops, each UDP proxy,
  each TCP proxy, each HTTP server and the admin server has been told to stop exactly once, the
  layer-4 proxies first.
\<close>

theorem shutdown_complete:
  assumes "lbMain E W (Inr cfg) redis evs p" and "prStopped p = Some st"
  shows "st = map (\<lambda>e. StoppedUdp (fst e)) (prUdp (startProcess E W cfg redis)) @
      map (\<lambda>e. StoppedTcp (fst e)) (prTcp (startProcess E W cfg redis)) @
      map (\<lambda>s. StoppedHttp (hsAddr s)) (prHttp (startProcess E W cfg redis)) @
      (if cfAdminAddr cfg \<noteq> [] then [StoppedAdmin] else [])"
proof -
  have admin: "prAdmin (startListeners E ls q) = prAdmin q" for ls and q :: "('a, 'b, 'c) Process"
    by (induction ls arbitrary: q) (auto simp: startListener_def split: prod.split sum.split)
  have "main_run W (startProcess E W cfg redis) evs p" using assms(1) by (simp add: lbMain_def)
  from main_run_stopped [OF this] assms(2) show ?thesis
    by (auto simp: allStopped_def admin startProcess_def split: if_splits)
qed

theorem shutdown_complete_witness:
  "\<exists>p st. lbMain openEnv sampleWorld (Inr (sampleConfig [])) (\<lambda>_. (0, 0))
      [Signal SIGHUP (Inl (OpenFailed ''gone'')), Signal SIGHUP (Inr (sampleConfig [sampleListener ''web'' ''http'' [] []])),
       Work EvServe, Signal SIGTERM (Inl (OpenFailed []))] p \<and> prStopped p = Some st \<and> st = [StoppedAdmin]"
proof -
  let ?evs = "[Signal SIGHUP (Inl (OpenFailed ''gone'')), Signal SIGHUP (Inr (sampleConfig [sampleListener ''web'' ''http'' [] []])),
       Work EvServe, Signal SIGTERM (Inl (OpenFailed []))]"
  obtain p where p: "lbMain openEnv sampleWorld (Inr (sampleConfig [])) (\<lambda>_. (0, 0)) ?evs p" using sampleMain by blast
  then have "main_run sampleWorld (startProcess openEnv sampleWorld (sampleConfig []) (\<lambda>_. (0, 0))) ?evs p"
    by (simp add: lbMain_def)
  from main_run_stopped [OF this] obtain st where st: "prStopped p = Some st" by auto
  have "cfAdminAddr (sampleConfig []) \<noteq> []" by (simp add: sampleConfig_def)
  with shutdown_complete [OF p st] p st show ?thesis by (auto simp: startProcess_def)
qed

end
