(* ===== verification/Spec2Isabelle.thy ===== *)
theory Spec2Isabelle
  imports SmoothWRR RoundRobinConc Forwarding LbMain
begin

text \<open>
  Verification of a layer-4 and layer-7 load balancer written in Go.

  \<^bold>\<open>The program.\<close> A YAML file configures listeners. An \<open>http\<close> or \<open>https\<close> listener has routes; each
  route has a pool of backends and a handler that forwards a request to one of them, with an
  optional response cache, rate limiter and circuit breaker. A \<open>tcp\<close> or \<open>udp\<close> listener has one pool
  and a proxy that copies connections or datagrams. A pool picks a backend by one of five
  strategies and is watched by health checks. An admin API edits the routes of the first layer-7
  listener; an edit, like a reload of the file on \<open>SIGHUP\<close>, rebuilds all routes and pools. A
  metrics page reports health, open connections and breaker states.

  \<^bold>\<open>Theories and sources\<close> (under \<open>src/\<close>; the names of definitions are those of the source, loops
  are called \<open>f_loop\<close>).

  \<^item> \<open>Prelude\<close>: machine words, first-minimum searches over lists, updated lists. \<open>GoStrings\<close>,
    \<open>GoSort\<close>, \<open>GoFloat\<close>, \<open>GoHttp\<close>: what the program uses of the standard library: host and port
    splitting, numbers, FNV-1a, \<open>sort.Slice\<close>, double precision, header maps and response writers.
  \<^item> \<open>Config\<close>: \<open>internal/lb/config.go\<close>, the structs and \<open>LoadConfig\<close>.
  \<^item> \<open>Backend\<close>: \<open>internal/lb/backend.go\<close>; \<open>Forwarding\<close>: its director, with the demonstration
    backend of \<open>internal/backend/server.go\<close> and \<open>cmd/backend/main.go\<close>.
  \<^item> \<open>Strategy\<close>, \<open>SmoothWRR\<close>, \<open>RoundRobinConc\<close>: \<open>internal/lb/strategy.go\<close>, sequentially, against
    the abstract smooth algorithm, and as interleaved atomic steps.
  \<^item> \<open>Routing\<close>, \<open>L7Handler\<close>, \<open>LoadBalancer\<close>, \<open>AdminOps\<close>: \<open>internal/lb/loadbalancer.go\<close>: matching
    and order of routes, the handler of a route, construction, reload and \<open>ServeHTTP\<close>, the edits.
  \<^item> \<open>RateLimit\<close>: \<open>internal/lb/ratelimit.go\<close>. \<open>Metrics\<close> and the recorder in \<open>L7Handler\<close>:
    \<open>internal/lb/metrics.go\<close>. \<open>Admin\<close>: \<open>internal/lb/admin.go\<close>.
  \<^item> \<open>TcpProxy\<close>, \<open>UdpProxy\<close>: \<open>internal/lb/tcp_proxy.go\<close>, \<open>internal/lb/udp_proxy.go\<close>. \<open>Holders\<close>: how
    many goroutines hold a backend, and its counter.
  \<^item> \<open>System\<close>: the balancer under all its operations and the passing of time, with the layer-4
    proxies that run on pools of its heap, as labelled steps. \<open>LbMain\<close>: \<open>cmd/lb/main.go\<close>, the start
    and the signals, interleaved with the steps of \<open>System\<close>.

  \<^bold>\<open>State.\<close> A pointer to a backend is its index in its pool; a pointer to a pool or a configuration
  is an index into a heap of the \<open>LoadBalancer\<close> record, so that old pools stay alive after a
  reload, as they do in the program, a layer-4 proxy shares its pool with the balancer, and an edit through a stale pointer goes to the old
  configuration. Counters and weights are 64-bit words. A section under a lock, and an atomic
  operation, is one step. Where goroutines share state without a lock (round robin, the two
  proxies) the model is a step relation over lists of program counters. Time is what the response
  cache and the rate limiter age by; a session of the UDP proxy lapses by a step of its own.

  \<^bold>\<open>Parameters.\<close> Code outside the repository is an argument: \<open>gobreaker\<close>, \<open>gocache\<close> and \<open>redis\<close>
  are records of functions over abstract states, with their documented laws (\<open>cache_laws\<close>,
  \<open>redis_laws\<close>) as hypotheses where needed; \<open>url.Parse\<close>, the YAML and environment readers, JSON text,
  the order of map iterations (\<open>map_order\<close>), the unstable part of \<open>sort.Slice\<close>
  (\<open>sort_contract\<close>), and the network are arguments too. Each property with such a hypothesis is
  evaluated on a concrete instance.

  \<^bold>\<open>Interfaces.\<close> \<open>conn_counter\<close> (the atomic counter), \<open>selector\<close> and \<open>complete_selector\<close> (a
  strategy; interpreted by the five strategies and the dispatcher), \<open>slice_sort\<close> (the sort of
  routes), \<open>route_editor\<close> (an admin edit; interpreted by the five edits). The handlers, the
  proxies and the system proofs use the facts of these interpretations.

  \<^bold>\<open>What is shown.\<close>

  \<^item> Selection: a picked backend is available, and one is picked if there is one, up to the wrap of
    the shared counter (\<open>2 ^ 64\<close> picks); least quotients in double precision are least quotients
    for weights and counters below \<open>2 ^ 26\<close>; smooth weighted round robin refines its abstract
    algorithm while the sum of the weights fits a word (\<open>fits\<close>), is exactly fair over a cycle and
    at most one pick off in between; concurrent round robin ends, is sound, and is fair when all
    backends are available.
  \<^item> Requests: the dispatcher takes a most specific matching route; the handler replays a
    cached answer until it expires, whatever is served in between, gives back every connection,
    tells every breaker that let a request through its outcome, and loses or hides certain
    statuses. The headers of the hop are removed in both directions. A client in one window of the
    rate limiter is denied once the limit is passed.
  \<^item> The system: the routing table is always that of the configuration in force; in the pools of the
    routes, which no layer-4 proxy holds, nothing is counted as open between requests; edits refine
    edits of lists and rebuild the table; a reload or an edit leaves the routes without service
    until a health check, and never reaches a running layer-4 proxy.
  \<^item> The proxies: connection counters are exact under every interleaving; UDP clients keep their
    backend while their session lasts, once no goroutine of theirs is still making another flow; sessions that outlive their socket swallow datagrams, and
    the shared read buffer mixes datagrams of clients.
  \<^item> The process: every listener is started with the pool of its own configuration, the
    configuration in force is the last that loaded, but for what the admin API has edited in the
    routes since, a shutdown reaches every proxy and server; the
    total on the metrics page can be read back.

  \<^bold>\<open>Not modelled.\<close> The text formats YAML and JSON, the router of the admin API (its matched calls are
  the type \<open>admin_call\<close>), logging, sockets and the bytes copied over TCP, the deadline of the
  shutdown, and the end of the process when a server fails later. Of \<open>httputil.ReverseProxy\<close> the
  copying of a complete response and the header rules are modelled; trailers, upgraded connections
  and bodies that break off are not. The concurrent execution of two layer-7 requests on one pool is
  modelled for round robin only. Tests, deployment files and scripts are not part of the program.
\<close>

end
